(* ===== verification/Prelude.thy ===== *)
theory Prelude
  imports Main "HOL-Library.Word"
begin

section \<open>Shared types, the effect monad and its program logic\<close>

text \<open>
  What every component of the development uses:

  \<^item> the machine types of the source: Go's \<open>uint\<close> on a 64-bit platform is \<open>64 word\<close>, \<open>uint16\<close> is
    \<open>16 word\<close>, a Go string is a list of bytes (\<open>char list\<close>), a Go map is a partial function;
  \<^item> \<open>outcome\<close>: how a Go call ends when it ends, by returning a value or by killing the process
    (\<open>log.Fatal\<close> or a run-time panic);
  \<^item> \<open>io\<close>: a computation on a state, with \<open>None\<close> for a call that never returns, so that a retry
    loop of the source is a \<^theory_text>\<open>partial_function (option)\<close>;
  \<^item> \<open>wp\<close>: the total-correctness weakest precondition of such a computation, with a second
    postcondition for the states in which the process may die;
  \<^item> generic lemmas on lists, maps and words, and the collections of facts (\<open>wp_rules\<close>,
    \<open>wp_intro\<close>, \<open>go_simps\<close>) that carry the component proofs.
\<close>

named_theorems wp_rules \<open>weakest-precondition rules\<close>
named_theorems wp_intro \<open>introduction rules that step through a program\<close>
named_theorems go_simps \<open>rewrite rules for the Go standard library fragment\<close>

type_synonym uint = "64 word"
type_synonym uint16 = "16 word"
type_synonym goerr = "string option" \<comment> \<open>\<open>None\<close> is \<open>nil\<close>\<close>

subsection \<open>How a call ends\<close>

datatype 'a outcome = Ret 'a | Fatal string

type_synonym ('s, 'a) io = "'s \<Rightarrow> ('a outcome \<times> 's) option"

definition io_return :: "'a \<Rightarrow> ('s, 'a) io" where
  "io_return x s = Some (Ret x, s)"

definition io_fatal :: "string \<Rightarrow> ('s, 'a) io" where
  "io_fatal msg s = Some (Fatal msg, s)"

definition io_bind :: "('s, 'a) io \<Rightarrow> ('a \<Rightarrow> ('s, 'b) io) \<Rightarrow> ('s, 'b) io" where
  "io_bind m f s =
     (case m s of
        None \<Rightarrow> None
      | Some (Ret x, s') \<Rightarrow> f x s'
      | Some (Fatal e, s') \<Rightarrow> Some (Fatal e, s'))"

definition io_of_outcome :: "'a outcome \<Rightarrow> ('s, 'a) io" where
  "io_of_outcome r s = Some (r, s)"

fun outcome_bind :: "'a outcome \<Rightarrow> ('a \<Rightarrow> 'b outcome) \<Rightarrow> 'b outcome" where
  "outcome_bind (Ret x) f = f x"
| "outcome_bind (Fatal e) f = Fatal e"

lemma outcome_bind_Ret_iff:
  "outcome_bind r f = Ret y \<longleftrightarrow> (\<exists>x. r = Ret x \<and> f x = Ret y)"
  by (cases r) auto

text \<open>\<open>returns r P\<close>: the call returns, and its result satisfies \<open>P\<close>.\<close>

definition returns :: "'a outcome \<Rightarrow> ('a \<Rightarrow> bool) \<Rightarrow> bool" where
  "returns r P = (case r of Ret x \<Rightarrow> P x | Fatal _ \<Rightarrow> False)"

lemma returns_simps [simp]: "returns (Ret x) P = P x" "\<not> returns (Fatal e) P"
  by (simp_all add: returns_def)

lemma returns_bind [simp]: "returns (outcome_bind r f) P = returns r (\<lambda>x. returns (f x) P)"
  by (cases r) simp_all

lemma returns_mono: "returns r P \<Longrightarrow> (\<And>x. P x \<Longrightarrow> Q x) \<Longrightarrow> returns r Q"
  by (cases r) simp_all

lemma returns_iff: "returns r P \<longleftrightarrow> (\<exists>x. r = Ret x \<and> P x)"
  by (cases r) simp_all

lemma returns_if [simp]: "returns (if b then r else r') P = (if b then returns r P else returns r' P)"
  by simp

text \<open>What holds of the result, if there is one.\<close>

definition on_return :: "'a outcome \<Rightarrow> ('a \<Rightarrow> bool) \<Rightarrow> bool" where
  "on_return r P \<longleftrightarrow> (\<forall>x. r = Ret x \<longrightarrow> P x)"

lemma on_return_simps [simp]:
  "on_return (Ret x) P = P x"
  "on_return (Fatal e) P = True"
  "on_return (if b then r else r') P = ((b \<longrightarrow> on_return r P) \<and> (\<not> b \<longrightarrow> on_return r' P))"
  by (auto simp: on_return_def outcome_bind_Ret_iff)

lemma on_return_bind [simp]: "on_return (outcome_bind r f) P = on_return r (\<lambda>x. on_return (f x) P)"
  by (auto simp: on_return_def outcome_bind_Ret_iff)

lemma on_returnI: "(\<And>x. r = Ret x \<Longrightarrow> P x) \<Longrightarrow> on_return r P"
  by (simp add: on_return_def)

lemma io_bind_return [simp]: "io_bind (io_return x) f = f x"
  by (simp add: io_bind_def io_return_def fun_eq_iff)

lemma io_bind_assoc: "io_bind (io_bind m f) g = io_bind m (\<lambda>x. io_bind (f x) g)"
  by (auto simp: io_bind_def fun_eq_iff split: option.splits outcome.splits)

text \<open>
  \<open>io_bind\<close> is monotone in both arguments, so a recursive call may stand on either side of it in
  a \<^theory_text>\<open>partial_function (option)\<close>.
\<close>

lemma io_bind_mono [partial_function_mono]:
  assumes mf: "\<And>s. mono_option (\<lambda>f. B f s)"
    and mg: "\<And>y s. mono_option (\<lambda>f. C f y s)"
  shows "mono_option (\<lambda>f. io_bind (B f) (C f) s)"
proof -
  have eq: "io_bind (B f) (C f) s =
      Option.bind (B f s) (\<lambda>p. case fst p of Ret x \<Rightarrow> C f x (snd p) | Fatal e \<Rightarrow> Some (Fatal e, snd p))"
    for f
    by (auto simp: io_bind_def split: option.splits outcome.splits)
  have "mono_option (\<lambda>f. case fst p of Ret x \<Rightarrow> C f x (snd p) | Fatal e \<Rightarrow> Some (Fatal e, snd p))" for p
    by (cases "fst p") (simp_all add: mg option.const_mono)
  then show ?thesis
    unfolding eq using mf by (intro bind_mono) auto
qed

lemma outcome_case_mono [partial_function_mono]:
  assumes "\<And>x. mono_option (\<lambda>f. A f x)" and "\<And>e. mono_option (\<lambda>f. B f e)"
  shows "mono_option (\<lambda>f. case r of Ret x \<Rightarrow> A f x | Fatal e \<Rightarrow> B f e)"
  using assms by (cases r) simp_all

lemma sum_case_app_mono [partial_function_mono]:
  assumes "\<And>x. mono_option (\<lambda>f. A f x s)" and "\<And>e. mono_option (\<lambda>f. B f e s)"
  shows "mono_option (\<lambda>f. (case r of Inl x \<Rightarrow> A f x | Inr e \<Rightarrow> B f e) s)"
  using assms by (cases r) simp_all

lemma option_case_app_mono [partial_function_mono]:
  assumes "mono_option (\<lambda>f. A f s)" and "\<And>e. mono_option (\<lambda>f. B f e s)"
  shows "mono_option (\<lambda>f. (case r of None \<Rightarrow> A f | Some e \<Rightarrow> B f e) s)"
  using assms by (cases r) simp_all

lemma if_app_mono [partial_function_mono]:
  assumes "mono_option (\<lambda>f. A f s)" and "mono_option (\<lambda>f. B f s)"
  shows "mono_option (\<lambda>f. (if c then A f else B f) s)"
  using assms by (cases c) simp_all

lemma let_app_mono [partial_function_mono]:
  assumes "\<And>x. mono_option (\<lambda>f. A f x s)"
  shows "mono_option (\<lambda>f. (let x = t in A f x) s)"
  using assms by (simp add: Let_def)

lemma prod_case_app_mono [partial_function_mono]:
  assumes "\<And>x y. mono_option (\<lambda>f. A f x y s)"
  shows "mono_option (\<lambda>f. (case p of (x, y) \<Rightarrow> A f x y) s)"
  using assms by (cases p) simp

subsection \<open>Weakest preconditions\<close>

text \<open>
  \<open>wp m Q C s\<close>: run from \<open>s\<close>, the call \<open>m\<close> does come to an end; if it returns \<open>x\<close> in \<open>s'\<close> then
  \<open>Q x s'\<close>, and if the process dies with message \<open>e\<close> in \<open>s'\<close> then \<open>C e s'\<close>.
\<close>

definition wp :: "('s, 'a) io \<Rightarrow> ('a \<Rightarrow> 's \<Rightarrow> bool) \<Rightarrow> (string \<Rightarrow> 's \<Rightarrow> bool) \<Rightarrow> 's \<Rightarrow> bool" where
  "wp m Q C s \<longleftrightarrow>
     (case m s of
        None \<Rightarrow> False
      | Some (Ret x, s') \<Rightarrow> Q x s'
      | Some (Fatal e, s') \<Rightarrow> C e s')"

lemma wp_return [wp_rules, simp]: "wp (io_return x) Q C s \<longleftrightarrow> Q x s"
  by (simp add: wp_def io_return_def)

lemma wp_return_eta: "wp (io_return x) Q C = Q x"
  by (rule ext) simp

lemma wp_fatal [wp_rules, simp]: "wp (io_fatal e) Q C s \<longleftrightarrow> C e s"
  by (simp add: wp_def io_fatal_def)

lemma wp_bind [wp_rules]: "wp (io_bind m f) Q C s \<longleftrightarrow> wp m (\<lambda>x. wp (f x) Q C) C s"
  by (auto simp: wp_def io_bind_def split: option.splits outcome.splits)

lemma wp_bind_eta: "wp (io_bind m f) Q C = wp m (\<lambda>x. wp (f x) Q C) C"
  by (rule ext) (simp add: wp_bind)

lemma wp_mono:
  assumes "wp m Q C s"
    and "\<And>x s'. Q x s' \<Longrightarrow> Q' x s'" and "\<And>e s'. C e s' \<Longrightarrow> C' e s'"
  shows "wp m Q' C' s"
  using assms by (auto simp: wp_def split: option.splits outcome.splits)

lemma wp_bindI:
  assumes "wp m R C s" and "\<And>x s'. R x s' \<Longrightarrow> wp (f x) Q C s'"
  shows "wp (io_bind m f) Q C s"
  using assms wp_mono [of m R C s] by (fastforce simp: wp_bind)

lemma wp_ifI [wp_intro]:
  "(b \<Longrightarrow> wp m Q C s) \<Longrightarrow> (\<not> b \<Longrightarrow> wp m' Q C s) \<Longrightarrow> wp (if b then m else m') Q C s"
  by simp

lemma wp_returnI [wp_intro]: "Q x s \<Longrightarrow> wp (io_return x) Q C s"
  by simp

lemma wp_bind_returnI [wp_intro]: "wp (f x) Q C s \<Longrightarrow> wp (io_bind (io_return x) f) Q C s"
  by simp

lemma wp_bind_outcomeI [wp_intro]:
  "r = Ret x \<Longrightarrow> wp (f x) Q C s \<Longrightarrow> wp (io_bind (io_of_outcome r) f) Q C s"
  by (simp add: wp_def io_bind_def io_of_outcome_def)

lemma wp_RetD:
  assumes "wp m Q C s" and "\<And>e s'. \<not> C e s'"
  shows "\<exists>x s'. m s = Some (Ret x, s') \<and> Q x s'"
  using assms by (cases "m s"; cases "fst (the (m s))") (auto simp: wp_def)

lemma wp_cases:
  assumes "wp m Q C s"
  obtains (Ret) x s' where "m s = Some (Ret x, s')" "Q x s'"
  | (Fatal) e s' where "m s = Some (Fatal e, s')" "C e s'"
  using assms by (cases "m s"; cases "fst (the (m s))") (auto simp: wp_def)

lemma wp_unfold: "m s = m' s \<Longrightarrow> wp m' Q C s \<Longrightarrow> wp m Q C s"
  by (simp add: wp_def)

subsection \<open>Lists\<close>

lemma filter_eq_upt: "i < n \<Longrightarrow> filter (\<lambda>j. j = i) [0..<n] = [i]"
  by (induction n) (auto simp: filter_empty_conv less_Suc_eq)

lemma map_Some_the: "None \<notin> set xs \<Longrightarrow> map Some (map the xs) = xs"
  by (induction xs) auto

subsection \<open>Maps with a zero value\<close>

text \<open>Reading a missing key of a Go \<open>map[string]string\<close> gives the zero value, the empty string.\<close>

definition mget :: "('k \<rightharpoonup> string) \<Rightarrow> 'k \<Rightarrow> string" where
  "mget m k = (case m k of None \<Rightarrow> [] | Some v \<Rightarrow> v)"

lemma mget_upd [simp]: "mget (m(k \<mapsto> v)) k' = (if k' = k then v else mget m k')"
  by (simp add: mget_def)

lemma mget_empty [simp]: "mget Map.empty k = []"
  by (simp add: mget_def)

end
