(* ===== verification/GoStd.thy ===== *)
theory GoStd
  imports Prelude
begin

section \<open>The fragment of the Go standard library the sources use\<close>

text \<open>
  \<open>fmt.Sprintf("%d", n)\<close>, \<open>strings.Split\<close> with a one-byte separator, \<open>strconv.ParseUint\<close>,
  \<open>strconv.Atoi\<close>, and the conversions between a string and its runes that \<open>range s\<close>,
  \<open>[]rune(s)\<close> and \<open>string(runes)\<close> perform. The lemmas are the facts the components need: printing
  a number and parsing it back, splitting a joined record, and that the rune conversions are the
  identity on ASCII text.
\<close>

subsection \<open>Printing numbers\<close>

definition digit_char :: "nat \<Rightarrow> char" where
  "digit_char d = char_of (48 + d)"

fun dec :: "nat \<Rightarrow> string" where
  "dec n = (if n < 10 then [digit_char n] else dec (n div 10) @ [digit_char (n mod 10)])"

declare dec.simps [simp del]

definition fmt_d :: "'a::len word \<Rightarrow> string" where
  "fmt_d n = dec (unat n)"

subsection \<open>Splitting\<close>

text \<open>\<open>strings.Split(s, sep)\<close> for a separator of one byte; the result is never empty.\<close>

fun Split :: "string \<Rightarrow> char \<Rightarrow> string list" where
  "Split [] c = [[]]"
| "Split (x # xs) c =
     (if x = c then [] # Split xs c
      else (case Split xs c of [] \<Rightarrow> [[x]] | y # ys \<Rightarrow> (x # y) # ys))"

subsection \<open>Parsing numbers\<close>

text \<open>
  \<open>strconv.ParseUint(s, base, bitSize)\<close> returns a value beside the error, and the sources use the
  value even when there is an error: 0 for a syntax error, the largest value of the width for a
  number out of range. The loop stops at the first byte that is not a digit of the base or at the
  first prefix that is out of range, whichever comes first.
\<close>

datatype parse_error = ErrSyntax | ErrRange

text \<open>
  Go's \<open>lower(c)\<close> is \<open>c | 0x20\<close>. It is only compared with lower-case letters, where the following
  agrees with it.
\<close>

definition lower :: "nat \<Rightarrow> nat" where
  "lower c = (if 65 \<le> c \<and> c \<le> 90 then c + 32 else c)"

definition digit_val :: "char \<Rightarrow> nat option" where
  "digit_val ch =
     (let c = of_char ch :: nat in
      if 48 \<le> c \<and> c \<le> 57 then Some (c - 48)
      else if 97 \<le> lower c \<and> lower c \<le> 122 then Some (lower c - 97 + 10)
      else None)"

fun parse_loop :: "bool \<Rightarrow> nat \<Rightarrow> nat \<Rightarrow> nat \<Rightarrow> string \<Rightarrow> nat \<times> parse_error option" where
  "parse_loop base0 base maxVal n [] = (n, None)"
| "parse_loop base0 base maxVal n (c # cs) =
     (if base0 \<and> c = CHR ''_'' then parse_loop base0 base maxVal n cs
      else (case digit_val c of
              None \<Rightarrow> (0, Some ErrSyntax)
            | Some d \<Rightarrow>
                if base \<le> d then (0, Some ErrSyntax)
                else if maxVal < n * base + d then (maxVal, Some ErrRange)
                else parse_loop base0 base maxVal (n * base + d) cs))"

text \<open>\<open>underscoreOK\<close>: underscores only between digits, or between the base prefix and a digit.\<close>

fun underscore_scan :: "bool \<Rightarrow> char \<Rightarrow> string \<Rightarrow> bool" where
  "underscore_scan hex i [] = (i \<noteq> CHR ''_'')"
| "underscore_scan hex i (c # cs) =
     (let n = of_char c :: nat in
      if (48 \<le> n \<and> n \<le> 57) \<or> (hex \<and> 97 \<le> lower n \<and> lower n \<le> 102)
      then underscore_scan hex CHR ''0'' cs
      else if c = CHR ''_'' then i = CHR ''0'' \<and> underscore_scan hex CHR ''_'' cs
      else i \<noteq> CHR ''_'' \<and> underscore_scan hex CHR ''!'' cs)"

definition underscoreOK :: "string \<Rightarrow> bool" where
  "underscoreOK s0 =
     (let s = (case s0 of c # cs \<Rightarrow> if c = CHR ''-'' \<or> c = CHR ''+'' then cs else s0 | [] \<Rightarrow> s0) in
      case s of
        a # b # r \<Rightarrow>
          (let l = lower (of_char b) in
           if a = CHR ''0'' \<and> (l = of_char CHR ''b'' \<or> l = of_char CHR ''o'' \<or> l = of_char CHR ''x'')
           then underscore_scan (l = of_char CHR ''x'') CHR ''0'' r
           else underscore_scan False CHR ''^'' s)
      | _ \<Rightarrow> underscore_scan False CHR ''^'' s)"

definition base_prefix :: "string \<Rightarrow> nat \<times> string" where
  "base_prefix s =
     (case s of
        c # cs \<Rightarrow>
          if c = CHR ''0'' then
            (case cs of
               b # d # r \<Rightarrow>
                 (let l = lower (of_char b) in
                  if l = of_char CHR ''b'' then (2, d # r)
                  else if l = of_char CHR ''o'' then (8, d # r)
                  else if l = of_char CHR ''x'' then (16, d # r)
                  else (8, cs))
             | _ \<Rightarrow> (8, cs))
          else (10, s)
      | [] \<Rightarrow> (10, s))"

definition ParseUint :: "string \<Rightarrow> nat \<Rightarrow> nat \<Rightarrow> nat \<times> parse_error option" where
  "ParseUint s base bitSize =
     (if s = [] then (0, Some ErrSyntax)
      else
        (let (b, r) = (if base = 0 then base_prefix s else (base, s));
             res = parse_loop (base = 0) b (2 ^ bitSize - 1) 0 r
         in if base = 0 \<and> snd res = None \<and> CHR ''_'' \<in> set r \<and> \<not> underscoreOK s
            then (0, Some ErrSyntax) else res))"

text \<open>\<open>strconv.Atoi\<close>: an optional sign, then decimal digits, clamped to the range of \<open>int64\<close>.\<close>

definition Atoi :: "string \<Rightarrow> int \<times> parse_error option" where
  "Atoi s =
     (let (neg, r) = (case s of
            c # cs \<Rightarrow> if c = CHR ''-'' then (True, cs) else if c = CHR ''+'' then (False, cs) else (False, s)
          | [] \<Rightarrow> (False, s));
          (un, err) = ParseUint r 10 64
      in if err = Some ErrSyntax then (0, err)
         else if \<not> neg \<and> 2 ^ 63 \<le> un then (2 ^ 63 - 1, Some ErrRange)
         else if neg \<and> 2 ^ 63 < un then (- (2 ^ 63), Some ErrRange)
         else (if neg then - int un else int un, None))"

text \<open>\<open>strconv.ParseInt(s, 10, 64)\<close> computes the same value and error as \<open>Atoi\<close>.\<close>

definition int64_sub :: "int \<Rightarrow> int \<Rightarrow> int" where
  "int64_sub a b = signed_take_bit 63 (a - b)"

subsection \<open>Runes\<close>

text \<open>
  \<open>for i, c := range s\<close> decodes UTF-8: \<open>i\<close> is the byte offset of the rune \<open>c\<close>, and a byte that
  starts no valid encoding counts as U+FFFD of width 1.
\<close>

definition is_cont :: "nat \<Rightarrow> nat \<Rightarrow> nat \<Rightarrow> bool" where
  "is_cont lo hi b \<longleftrightarrow> lo \<le> b \<and> b \<le> hi"

definition decode_rune :: "nat list \<Rightarrow> nat \<times> nat" where
  "decode_rune bs =
     (case bs of
        [] \<Rightarrow> (65533, 0)
      | b0 # r \<Rightarrow>
          if b0 < 128 then (b0, 1)
          else if is_cont 194 223 b0 then
            (case r of
               b1 # _ \<Rightarrow> if is_cont 128 191 b1 then ((b0 - 192) * 64 + (b1 - 128), 2) else (65533, 1)
             | _ \<Rightarrow> (65533, 1))
          else if is_cont 224 239 b0 then
            (case r of
               b1 # b2 # _ \<Rightarrow>
                 if is_cont (if b0 = 224 then 160 else 128) (if b0 = 237 then 159 else 191) b1
                    \<and> is_cont 128 191 b2
                 then ((b0 - 224) * 4096 + (b1 - 128) * 64 + (b2 - 128), 3) else (65533, 1)
             | _ \<Rightarrow> (65533, 1))
          else if is_cont 240 244 b0 then
            (case r of
               b1 # b2 # b3 # _ \<Rightarrow>
                 if is_cont (if b0 = 240 then 144 else 128) (if b0 = 244 then 143 else 191) b1
                    \<and> is_cont 128 191 b2 \<and> is_cont 128 191 b3
                 then ((b0 - 240) * 262144 + (b1 - 128) * 4096 + (b2 - 128) * 64 + (b3 - 128), 4)
                 else (65533, 1)
             | _ \<Rightarrow> (65533, 1))
          else (65533, 1))"

lemma decode_rune_width: "0 < snd (decode_rune (b # r))"
  by (simp add: decode_rune_def split: list.splits)

function range_bytes :: "nat \<Rightarrow> nat list \<Rightarrow> (nat \<times> nat) list" where
  "range_bytes i [] = []"
| "range_bytes i (b # r) =
     (let (c, w) = decode_rune (b # r) in (i, c) # range_bytes (i + w) (drop w (b # r)))"
  by pat_completeness auto
termination
proof (relation "measure (length \<circ> snd)")
  fix i b r x c w
  assume "x = decode_rune (b # r)" and "(c, w) = x"
  then have "0 < w" using decode_rune_width [of b r] by (metis snd_conv)
  then show "((i + w, drop w (b # r)), i, b # r) \<in> measure (length \<circ> snd)" by simp
qed simp

definition range_string :: "string \<Rightarrow> (nat \<times> nat) list" where
  "range_string s = range_bytes 0 (map of_char s)"

definition runes_of_string :: "string \<Rightarrow> nat list" where
  "runes_of_string s = map snd (range_string s)"

definition encode_rune :: "nat \<Rightarrow> nat list" where
  "encode_rune c =
     (if c < 128 then [c]
      else if c < 2048 then [192 + c div 64, 128 + c mod 64]
      else if 1114111 < c \<or> (55296 \<le> c \<and> c \<le> 57343) then [239, 191, 189]
      else if c < 65536 then [224 + c div 4096, 128 + (c div 64) mod 64, 128 + c mod 64]
      else [240 + c div 262144, 128 + (c div 4096) mod 64, 128 + (c div 64) mod 64, 128 + c mod 64])"

definition string_of_runes :: "nat list \<Rightarrow> string" where
  "string_of_runes rs = map char_of (concat (map encode_rune rs))"

subsection \<open>Facts\<close>

lemma of_char_48 [simp]: "of_char c = (48::nat) \<longleftrightarrow> c = CHR ''0''"
  using of_char_eq_iff [of c "CHR ''0''", where 'a = nat] by simp

lemma of_char_49 [simp]: "of_char c = (49::nat) \<longleftrightarrow> c = CHR ''1''"
  using of_char_eq_iff [of c "CHR ''1''", where 'a = nat] by simp

lemma of_char_digit_char [go_simps]: "d < 10 \<Longrightarrow> (of_char (digit_char d) :: nat) = 48 + d"
  by (simp add: digit_char_def)

lemma digit_char_0: "digit_char 0 = CHR ''0''"
  by code_simp

lemma digit_val_digit_char [go_simps]: "d < 10 \<Longrightarrow> digit_val (digit_char d) = Some d"
  by (simp add: digit_val_def go_simps)

lemma digit_char_less: "d < 10 \<Longrightarrow> c = digit_char d \<Longrightarrow> of_char c \<in> {48..57::nat}"
  by (simp add: go_simps)

lemma dec_digits: "c \<in> set (dec n) \<Longrightarrow> of_char c \<in> {48..57::nat}"
proof (induction n rule: dec.induct)
  case (1 n)
  then show ?case
    by (subst (asm) dec.simps) (auto simp: of_char_digit_char split: if_splits)
qed

lemma dec_nonempty [simp]: "dec n \<noteq> []"
  by (subst dec.simps) simp

lemma dec_not_in:
  assumes "of_char c \<notin> {48..57::nat}" shows "c \<notin> set (dec n)"
  using assms dec_digits by blast

lemma slash_notin_dec [simp]: "CHR ''/'' \<notin> set (dec n)"
  by (rule dec_not_in) simp

lemma slash_notin_fmt_d [simp]: "CHR ''/'' \<notin> set (fmt_d w)"
  by (simp add: fmt_d_def)

lemma fmt_d_nonempty [simp]: "fmt_d w \<noteq> []"
  by (simp add: fmt_d_def)

lemma parse_loop_snoc:
  assumes "parse_loop b0 base mx n xs = (m, None)" and "digit_val c = Some d" and "d < base"
    and "m * base + d \<le> mx" and "c \<noteq> CHR ''_''"
  shows "parse_loop b0 base mx n (xs @ [c]) = (m * base + d, None)"
  using assms by (induction b0 base mx n xs rule: parse_loop.induct) (auto split: option.splits if_splits)

lemma digit_char_not_underscore: "d < 10 \<Longrightarrow> digit_char d \<noteq> CHR ''_''"
  using of_char_digit_char [of d] by force

lemma parse_loop_dec:
  "n \<le> mx \<Longrightarrow> parse_loop b0 10 mx 0 (dec n) = (n, None)"
proof (induction n rule: dec.induct)
  case (1 n)
  show ?case
  proof (cases "n < 10")
    case True
    with 1 show ?thesis
      by (subst dec.simps) (simp add: go_simps digit_char_not_underscore)
  next
    case False
    with 1 have "parse_loop b0 10 mx 0 (dec (n div 10)) = (n div 10, None)" by simp
    from parse_loop_snoc [OF this, of "digit_char (n mod 10)" "n mod 10"] False "1.prems"
    show ?thesis
      by (subst dec.simps) (simp add: go_simps digit_char_not_underscore)
  qed
qed

text \<open>Parsing what \<open>%d\<close> printed gives the number back: in base 10, and in base 0 as well.\<close>

lemma ParseUint_dec [go_simps]:
  "n < 2 ^ w \<Longrightarrow> ParseUint (dec n) 10 w = (n, None)"
  by (simp add: ParseUint_def parse_loop_dec)

lemma ParseUint_fmt_d [go_simps]: "ParseUint (fmt_d (u :: uint)) 10 64 = (unat u, None)"
proof -
  have "unat u < 2 ^ LENGTH(64)" by (rule unsigned_less)
  then show ?thesis by (simp add: fmt_d_def ParseUint_dec)
qed

lemma Atoi_dec [go_simps]:
  assumes "n < 2 ^ 63" shows "Atoi (dec n) = (int n, None)"
proof -
  have "CHR ''-'' \<notin> set (dec n)" "CHR ''+'' \<notin> set (dec n)"
    by (rule dec_not_in; simp)+
  then have "(case dec n of c # cs \<Rightarrow> if c = CHR ''-'' then (True, cs) else if c = CHR ''+'' then (False, cs)
      else (False, dec n) | [] \<Rightarrow> (False, dec n)) = (False, dec n)"
    by (cases "dec n") auto
  with assms ParseUint_dec [of n 64] show ?thesis by (simp add: Atoi_def)
qed

lemma dec_hd_nonzero: "n \<noteq> 0 \<Longrightarrow> hd (dec n) \<noteq> CHR ''0''"
proof (induction n rule: dec.induct)
  case (1 n)
  show ?case
  proof (cases "n < 10")
    case True
    with 1 show ?thesis
      by (subst dec.simps) (auto dest: arg_cong [where f = "of_char :: char \<Rightarrow> nat"] simp: go_simps)
  next
    case False
    with 1 have "hd (dec (n div 10)) \<noteq> CHR ''0''" by simp
    with False show ?thesis by (subst dec.simps) simp
  qed
qed

lemma underscore_notin_dec [simp]: "CHR ''_'' \<notin> set (dec n)"
  by (rule dec_not_in) simp

lemma ParseUint_dec_base0 [go_simps]:
  assumes "n < 2 ^ w" shows "ParseUint (dec n) 0 w = (n, None)"
proof (cases "n = 0")
  case True
  then show ?thesis
    by (simp add: ParseUint_def dec.simps [of 0] base_prefix_def digit_char_0)
next
  case False
  then have "base_prefix (dec n) = (10, dec n)"
    using dec_hd_nonzero [OF False] by (cases "dec n") (simp_all add: base_prefix_def)
  with assms show ?thesis by (simp add: ParseUint_def parse_loop_dec)
qed

lemma fmt_d_inject [simp]: "fmt_d (u :: uint) = fmt_d v \<longleftrightarrow> u = v"
  using ParseUint_fmt_d [of u] ParseUint_fmt_d [of v] by (metis prod.inject word_unat_eq_iff)

lemma Split_nonempty [simp]: "Split s c \<noteq> []"
  by (induction s c rule: Split.induct) (auto split: list.splits)

lemma Split_no_sep [go_simps]: "c \<notin> set s \<Longrightarrow> Split s c = [s]"
  by (induction s c rule: Split.induct) auto

lemma Split_append_sep [go_simps]: "c \<notin> set a \<Longrightarrow> Split (a @ c # b) c = a # Split b c"
  by (induction a) auto

lemma Split_parts: "x \<in> set (Split s c) \<Longrightarrow> c \<notin> set x"
  by (induction s c arbitrary: x rule: Split.induct) (auto split: list.splits if_splits)

lemma set_hd_Split: "set (hd (Split s c)) \<subseteq> set s"
  by (induction s c rule: Split.induct) (auto split: list.splits)

lemma length_Split: "length (Split s c) = Suc (count_list s c)"
  by (induction s c rule: Split.induct) (auto split: list.splits)

text \<open>The rune conversions are the identity on ASCII text.\<close>

definition ascii :: "string \<Rightarrow> bool" where
  "ascii s \<longleftrightarrow> (\<forall>c \<in> set s. of_char c < (128::nat))"

lemma range_bytes_ascii:
  "\<forall>b \<in> set bs. b < 128 \<Longrightarrow> range_bytes i bs = zip [i..<i + length bs] bs"
proof (induction bs arbitrary: i)
  case (Cons b bs)
  then have "range_bytes i (b # bs) = (i, b) # range_bytes (Suc i) bs"
    by (simp add: decode_rune_def)
  moreover have "[i..<i + length (b # bs)] = i # [Suc i..<Suc i + length bs]"
    by (simp add: upt_conv_Cons del: upt_Suc)
  ultimately show ?case using Cons by (simp del: range_bytes.simps)
qed simp

lemma range_string_ascii: "ascii s \<Longrightarrow> range_string s = zip [0..<length s] (map of_char s)"
  using range_bytes_ascii [of "map of_char s" 0] by (simp add: range_string_def ascii_def)

lemma runes_of_string_ascii: "ascii s \<Longrightarrow> runes_of_string s = map of_char s"
  by (simp add: runes_of_string_def range_string_ascii)

lemma string_of_runes_ascii:
  "\<forall>r \<in> set rs. r < 128 \<Longrightarrow> string_of_runes rs = map char_of rs"
  by (induction rs) (simp_all add: string_of_runes_def encode_rune_def)

end
