(* ===== verification/Bio.thy ===== *)
theory Bio
  imports GoStd
begin

section \<open>The block layer: src/bio\<close>

text \<open>
  \<open>bio.go\<close> reads and writes numbered blocks through the interface \<open>Disk\<close> (\<open>dsk.go\<close>), which
  couples every block to a lock. The Go package keeps the disk in a global variable; here every
  operation takes it as its first argument, a record of the interface's five methods over a state
  of any type. Two values of that interface occur in the sources: \<open>MockDisk\<close>, modelled here, and
  the clerk of the replicated key-value service.

  The locale \<open>block_store\<close> is the contract the layers above rely on, for a client whose locks
  are not taken away; \<open>MockDisk\<close> satisfies it (interpretation \<open>mock\<close>), and so does any such disk when
  the machine it is used from may stop between two disk operations (\<open>crash_disk\<close>).
\<close>

subsection \<open>The interface and the operations of bio.go\<close>

record 's Disk =
  Disk_Get :: "string \<Rightarrow> ('s, string + string) io"
  Disk_Put :: "string \<Rightarrow> string \<Rightarrow> ('s, goerr) io"
  Disk_Acquire :: "string \<Rightarrow> ('s, unit) io"
  Disk_Release :: "string \<Rightarrow> ('s, goerr) io"
  Disk_Renew :: "string \<Rightarrow> ('s, goerr) io"

record Block =
  Nr :: uint
  Data :: string

datatype BioError = OK | ErrNoLock | ErrBadSize

definition BlockSize :: nat where
  "BlockSize = 4096"

text \<open>\<open>Bget\<close>: the label \<open>retry\<close> is the recursive call.\<close>

partial_function (option) Bget :: "'s Disk \<Rightarrow> uint \<Rightarrow> 's \<Rightarrow> (Block outcome \<times> 's) option" where
  "Bget dsk nr s =
     io_bind (Disk_Acquire dsk (fmt_d nr)) (\<lambda>_.
     io_bind (Disk_Get dsk (fmt_d nr)) (\<lambda>r.
       case r of
         Inl err \<Rightarrow> Bget dsk nr
       | Inr data \<Rightarrow> io_return \<lparr>Nr = nr, Data = data\<rparr>)) s"

definition berr :: "goerr \<Rightarrow> BioError" where
  "berr e = (if e \<noteq> None then ErrNoLock else OK)"

definition Bpush :: "'s Disk \<Rightarrow> Block \<Rightarrow> ('s, BioError) io" where
  "Bpush dsk b = io_bind (Disk_Put dsk (fmt_d (Nr b)) (Data b)) (\<lambda>e. io_return (berr e))"

definition Brenew :: "'s Disk \<Rightarrow> Block \<Rightarrow> ('s, BioError) io" where
  "Brenew dsk b = io_bind (Disk_Renew dsk (fmt_d (Nr b))) (\<lambda>e. io_return (berr e))"

definition Brelse :: "'s Disk \<Rightarrow> Block \<Rightarrow> ('s, BioError) io" where
  "Brelse dsk b = io_bind (Disk_Release dsk (fmt_d (Nr b))) (\<lambda>e. io_return (berr e))"

subsection \<open>MockDisk\<close>

record MockDisk =
  kv :: "string \<rightharpoonup> string"

definition lock_key :: "string \<Rightarrow> string" where
  "lock_key k = ''lock_'' @ k"

definition MockDisk_Get :: "string \<Rightarrow> (MockDisk, string + string) io" where
  "MockDisk_Get key m =
     (if mget (kv m) (lock_key key) \<noteq> ''1''
      then Some (Ret (Inl ''lock not held''), m)
      else Some (Ret (Inr (mget (kv m) key)), m))"

definition MockDisk_Put :: "string \<Rightarrow> string \<Rightarrow> (MockDisk, goerr) io" where
  "MockDisk_Put key val m =
     (if mget (kv m) (lock_key key) \<noteq> ''1''
      then Some (Ret (Some ''lock not held''), m)
      else Some (Ret None, m\<lparr>kv := (kv m)(key \<mapsto> val)\<rparr>))"

text \<open>\<open>Acquire\<close> polls the map, which nothing else changes: it never returns when the lock is held.\<close>

partial_function (option) MockDisk_Acquire :: "string \<Rightarrow> MockDisk \<Rightarrow> (unit outcome \<times> MockDisk) option" where
  "MockDisk_Acquire lockk m =
     (if mget (kv m) (lock_key lockk) = ''1'' then MockDisk_Acquire lockk m
      else Some (Ret (), m\<lparr>kv := (kv m)(lock_key lockk \<mapsto> ''1'')\<rparr>))"

definition MockDisk_Release :: "string \<Rightarrow> (MockDisk, goerr) io" where
  "MockDisk_Release lockk m =
     (if mget (kv m) (lock_key lockk) = ''0''
      then Some (Ret (Some ''lock not held''), m)
      else Some (Ret None, m\<lparr>kv := (kv m)(lock_key lockk \<mapsto> ''0'')\<rparr>))"

definition MockDisk_Renew :: "string \<Rightarrow> (MockDisk, goerr) io" where
  "MockDisk_Renew lockk m =
     (if mget (kv m) (lock_key lockk) = ''0''
      then Some (Ret (Some ''lock not held''), m)
      else Some (Ret None, m))"

definition mock_disk :: "MockDisk Disk" where
  "mock_disk =
     \<lparr>Disk_Get = MockDisk_Get, Disk_Put = MockDisk_Put, Disk_Acquire = MockDisk_Acquire,
      Disk_Release = MockDisk_Release, Disk_Renew = MockDisk_Renew\<rparr>"

text \<open>\<open>Binit("", true)\<close>: a mock disk with an empty map.\<close>

definition Binit_test :: MockDisk where
  "Binit_test = \<lparr>kv = Map.empty\<rparr>"

subsection \<open>A client machine that may stop\<close>

text \<open>
  The disk as seen from a machine that performs at most \<open>n\<close> more disk operations and then dies:
  every operation is atomic at the disk, and what the disk holds stays. Stating a property for all
  \<open>n\<close> states it for a crash at every point.
\<close>

definition crash_op :: "('s, 'a) io \<Rightarrow> ('s \<times> nat, 'a) io" where
  "crash_op m p =
     (case snd p of
        0 \<Rightarrow> Some (Fatal ''crash'', p)
      | Suc n \<Rightarrow> (case m (fst p) of None \<Rightarrow> None | Some (r, s') \<Rightarrow> Some (r, (s', n))))"

definition crash_disk :: "'s Disk \<Rightarrow> ('s \<times> nat) Disk" where
  "crash_disk d =
     \<lparr>Disk_Get = (\<lambda>k. crash_op (Disk_Get d k)), Disk_Put = (\<lambda>k v. crash_op (Disk_Put d k v)),
      Disk_Acquire = (\<lambda>k. crash_op (Disk_Acquire d k)),
      Disk_Release = (\<lambda>k. crash_op (Disk_Release d k)),
      Disk_Renew = (\<lambda>k. crash_op (Disk_Renew d k))\<rparr>"

subsection \<open>The contract of a disk\<close>

text \<open>
  \<open>val s n\<close> is the content of block \<open>n\<close>, \<open>held s n\<close> says that this client holds its lock, \<open>okay\<close> is
  the provider's own invariant, and \<open>crashy\<close> says whether the client machine may stop: a
  stop leaves the disk as it was before the operation.
\<close>

definition crash_safe ::
  "bool \<Rightarrow> ('s \<Rightarrow> bool) \<Rightarrow> ('s \<Rightarrow> uint \<Rightarrow> string) \<Rightarrow> (string \<Rightarrow> 's \<Rightarrow> bool) \<Rightarrow> (uint \<Rightarrow> string) \<Rightarrow> bool"
where
  "crash_safe crashy okay val C V \<longleftrightarrow> (\<forall>e s'. crashy \<and> okay s' \<and> val s' = V \<longrightarrow> C e s')"

locale block_store =
  fixes dsk :: "'s Disk"
    and val :: "'s \<Rightarrow> uint \<Rightarrow> string"
    and held :: "'s \<Rightarrow> uint \<Rightarrow> bool"
    and okay :: "'s \<Rightarrow> bool"
    and crashy :: bool
  assumes get_held:
    "okay s \<Longrightarrow> held s n \<Longrightarrow>
       wp (Disk_Get dsk (fmt_d n))
          (\<lambda>r s'. r = Inr (val s n) \<and> okay s' \<and> val s' = val s \<and> held s' = held s)
          (\<lambda>e s'. crashy \<and> okay s' \<and> val s' = val s) s"
  and put_held:
    "okay s \<Longrightarrow> held s n \<Longrightarrow>
       wp (Disk_Put dsk (fmt_d n) v)
          (\<lambda>r s'. r = None \<and> okay s' \<and> val s' = (val s)(n := v) \<and> held s' = held s)
          (\<lambda>e s'. crashy \<and> okay s' \<and> val s' = val s) s"
  and put_free:
    "okay s \<Longrightarrow> \<not> held s n \<Longrightarrow>
       wp (Disk_Put dsk (fmt_d n) v)
          (\<lambda>r s'. r \<noteq> None \<and> okay s' \<and> val s' = val s \<and> held s' = held s)
          (\<lambda>e s'. crashy \<and> okay s' \<and> val s' = val s) s"
  and acquire_free:
    "okay s \<Longrightarrow> \<not> held s n \<Longrightarrow>
       wp (Disk_Acquire dsk (fmt_d n))
          (\<lambda>r s'. okay s' \<and> val s' = val s \<and> held s' = (held s)(n := True))
          (\<lambda>e s'. crashy \<and> okay s' \<and> val s' = val s) s"
  and release_any:
    "okay s \<Longrightarrow>
       wp (Disk_Release dsk (fmt_d n))
          (\<lambda>r s'. okay s' \<and> val s' = val s \<and> held s' = (held s)(n := False))
          (\<lambda>e s'. crashy \<and> okay s' \<and> val s' = val s) s"
  and renew_held:
    "okay s \<Longrightarrow> held s n \<Longrightarrow>
       wp (Disk_Renew dsk (fmt_d n))
          (\<lambda>r s'. r = None \<and> okay s' \<and> val s' = val s \<and> held s' = held s)
          (\<lambda>e s'. crashy \<and> okay s' \<and> val s' = val s) s"
begin

text \<open>
  What the block operations do under the contract. Each rule takes the postcondition the caller
  wants: it must hold in every state with the stated contents and locks, and the crash condition
  \<open>C\<close> in every state with the old contents, when the client may stop.
\<close>

abbreviation safe :: "(string \<Rightarrow> 's \<Rightarrow> bool) \<Rightarrow> (uint \<Rightarrow> string) \<Rightarrow> bool" where
  "safe \<equiv> crash_safe crashy okay val"

lemma wp_Bget:
  assumes "okay s" and "\<not> held s n" and "safe C (val s)"
    and "\<And>s'. okay s' \<Longrightarrow> val s' = val s \<Longrightarrow> held s' = (held s)(n := True) \<Longrightarrow>
           Q \<lparr>Nr = n, Data = val s n\<rparr> s'"
  shows "wp (Bget dsk n) Q C s"
proof (rule wp_unfold [where m = "Bget dsk n", OF Bget.simps], rule wp_bindI)
  show "wp (Disk_Acquire dsk (fmt_d n))
      (\<lambda>r s'. okay s' \<and> val s' = val s \<and> held s' = (held s)(n := True)) C s"
    by (rule wp_mono [OF acquire_free [OF assms(1,2)]]) (use assms(3) in \<open>auto simp: crash_safe_def\<close>)
next
  fix u s1
  assume s1: "okay s1 \<and> val s1 = val s \<and> held s1 = (held s)(n := True)"
  show "wp (io_bind (Disk_Get dsk (fmt_d n)) (\<lambda>r. case r of Inl err \<Rightarrow> Bget dsk n
          | Inr data \<Rightarrow> io_return \<lparr>Nr = n, Data = data\<rparr>)) Q C s1"
    by (rule wp_bindI, rule wp_mono [OF get_held, where C' = C])
      (use s1 assms(3,4) in \<open>auto simp: crash_safe_def\<close>)
qed

lemma wp_Bpush_held:
  assumes "okay s" and "held s (Nr b)" and "safe C (val s)"
    and "\<And>s'. okay s' \<Longrightarrow> val s' = (val s)(Nr b := Data b) \<Longrightarrow> held s' = held s \<Longrightarrow> Q OK s'"
  shows "wp (Bpush dsk b) Q C s"
  unfolding Bpush_def wp_bind
  by (rule wp_mono [OF put_held [OF assms(1,2)]]) (use assms(3,4) in \<open>auto simp: crash_safe_def berr_def\<close>)

lemma wp_Bpush_free:
  assumes "okay s" and "\<not> held s (Nr b)" and "safe C (val s)"
    and "\<And>s'. okay s' \<Longrightarrow> val s' = val s \<Longrightarrow> held s' = held s \<Longrightarrow> Q ErrNoLock s'"
  shows "wp (Bpush dsk b) Q C s"
  unfolding Bpush_def wp_bind
  by (rule wp_mono [OF put_free [OF assms(1,2)]]) (use assms(3,4) in \<open>auto simp: crash_safe_def berr_def\<close>)

lemma wp_Brenew:
  assumes "okay s" and "held s (Nr b)" and "safe C (val s)"
    and "\<And>s'. okay s' \<Longrightarrow> val s' = val s \<Longrightarrow> held s' = held s \<Longrightarrow> Q OK s'"
  shows "wp (Brenew dsk b) Q C s"
  unfolding Brenew_def wp_bind
  by (rule wp_mono [OF renew_held [OF assms(1,2)]]) (use assms(3,4) in \<open>auto simp: crash_safe_def berr_def\<close>)

lemma wp_Brelse:
  assumes "okay s" and "safe C (val s)"
    and "\<And>r s'. okay s' \<Longrightarrow> val s' = val s \<Longrightarrow> held s' = (held s)(Nr b := False) \<Longrightarrow> Q r s'"
  shows "wp (Brelse dsk b) Q C s"
  unfolding Brelse_def wp_bind
  by (rule wp_mono [OF release_any [OF assms(1)]]) (use assms(2,3) in \<open>auto simp: crash_safe_def berr_def\<close>)

lemma bind_Bget [wp_intro]:
  assumes "okay s" and "\<not> held s n" and "safe C (val s)"
    and "\<And>s'. okay s' \<Longrightarrow> val s' = val s \<Longrightarrow> held s' = (held s)(n := True) \<Longrightarrow>
           wp (f \<lparr>Nr = n, Data = val s n\<rparr>) Q C s'"
  shows "wp (io_bind (Bget dsk n) f) Q C s"
  unfolding wp_bind by (rule wp_Bget) (rule assms | assumption)+

lemma bind_Bpush [wp_intro]:
  assumes "okay s" and "held s (Nr b)" and "safe C (val s)"
    and "\<And>s'. okay s' \<Longrightarrow> val s' = (val s)(Nr b := Data b) \<Longrightarrow> held s' = held s \<Longrightarrow> wp (f OK) Q C s'"
  shows "wp (io_bind (Bpush dsk b) f) Q C s"
  unfolding wp_bind by (rule wp_Bpush_held) (rule assms | assumption)+

lemma bind_Bpush_free:
  assumes "okay s" and "\<not> held s (Nr b)" and "safe C (val s)"
    and "\<And>s'. okay s' \<Longrightarrow> val s' = val s \<Longrightarrow> held s' = held s \<Longrightarrow> wp (f ErrNoLock) Q C s'"
  shows "wp (io_bind (Bpush dsk b) f) Q C s"
  unfolding wp_bind by (rule wp_Bpush_free) (rule assms | assumption)+

lemma bind_Brenew [wp_intro]:
  assumes "okay s" and "held s (Nr b)" and "safe C (val s)"
    and "\<And>s'. okay s' \<Longrightarrow> val s' = val s \<Longrightarrow> held s' = held s \<Longrightarrow> wp (f OK) Q C s'"
  shows "wp (io_bind (Brenew dsk b) f) Q C s"
  unfolding wp_bind by (rule wp_Brenew) (rule assms | assumption)+

lemma bind_Brelse [wp_intro]:
  assumes "okay s" and "safe C (val s)"
    and "\<And>r s'. okay s' \<Longrightarrow> val s' = val s \<Longrightarrow> held s' = (held s)(Nr b := False) \<Longrightarrow> wp (f r) Q C s'"
  shows "wp (io_bind (Brelse dsk b) f) Q C s"
  unfolding wp_bind by (rule wp_Brelse) (rule assms | assumption)+

text \<open>The same disk used from a machine that may stop satisfies the contract too.\<close>

lemma wp_crash_op:
  assumes "okay (fst p) \<Longrightarrow> wp m Q C (fst p)"
    and "okay (fst p)" and "C' ''crash'' p"
    and "\<And>e s' n. C e s' \<Longrightarrow> C' e (s', n)" and "\<And>x s' n. Q x s' \<Longrightarrow> Q' x (s', n)"
  shows "wp (crash_op m) Q' C' p"
  using assms by (auto simp: wp_def crash_op_def split: nat.splits option.splits outcome.splits)

lemma crash_disk_block_store:
  "block_store (crash_disk dsk) (val \<circ> fst) (held \<circ> fst) (okay \<circ> fst) True"
proof (unfold_locales, goal_cases)
  case (1 p n)
  then show ?case
    by (simp add: crash_disk_def) (rule wp_crash_op [OF get_held], auto)
next
  case (2 p n v)
  then show ?case
    by (simp add: crash_disk_def) (rule wp_crash_op [OF put_held], auto)
next
  case (3 p n v)
  then show ?case
    by (simp add: crash_disk_def) (rule wp_crash_op [OF put_free], auto)
next
  case (4 p n)
  then show ?case
    by (simp add: crash_disk_def) (rule wp_crash_op [OF acquire_free], auto)
next
  case (5 p n)
  then show ?case
    by (simp add: crash_disk_def) (rule wp_crash_op [OF release_any], auto)
next
  case (6 p n)
  then show ?case
    by (simp add: crash_disk_def) (rule wp_crash_op [OF renew_held], auto)
qed

end

subsection \<open>MockDisk satisfies the contract\<close>

definition mock_val :: "MockDisk \<Rightarrow> uint \<Rightarrow> string" where
  "mock_val m n = mget (kv m) (fmt_d n)"

definition mock_held :: "MockDisk \<Rightarrow> uint \<Rightarrow> bool" where
  "mock_held m n \<longleftrightarrow> mget (kv m) (lock_key (fmt_d n)) = ''1''"

lemma lock_key_inject [simp]: "lock_key a = lock_key b \<longleftrightarrow> a = b"
  by (simp add: lock_key_def)

lemma fmt_d_neq_lock_key [simp]: "fmt_d n \<noteq> lock_key k" "lock_key k \<noteq> fmt_d n"
proof -
  have "CHR ''l'' \<notin> set (fmt_d n)"
    unfolding fmt_d_def by (rule dec_not_in) simp
  moreover have "CHR ''l'' \<in> set (lock_key k)"
    by (simp add: lock_key_def)
  ultimately show "fmt_d n \<noteq> lock_key k" "lock_key k \<noteq> fmt_d n"
    by metis+
qed

lemmas mock_ops = mock_disk_def MockDisk_Get_def MockDisk_Put_def MockDisk_Release_def
  MockDisk_Renew_def mock_val_def mock_held_def wp_def

interpretation mock: block_store mock_disk mock_val mock_held "\<lambda>_. True" False
proof (unfold_locales, goal_cases)
  case (4 m n)
  then show ?case
    by (auto simp: mock_ops fun_eq_iff MockDisk_Acquire.simps)
qed (auto simp: mock_ops fun_eq_iff)

interpretation mock_crash: block_store "crash_disk mock_disk" "mock_val \<circ> fst" "mock_held \<circ> fst"
  "\<lambda>_. True" True
  using mock.crash_disk_block_store by (simp add: comp_def)

text \<open>The lock of \<open>MockDisk\<close> is not reentrant: acquiring it twice never returns.\<close>

lemma MockDisk_Acquire_held:
  assumes "mget (kv m) (lock_key k) = ''1''"
  shows "MockDisk_Acquire k m = None"
proof (rule ccontr)
  assume "MockDisk_Acquire k m \<noteq> None"
  then obtain r where r: "MockDisk_Acquire k m = Some r" by blast
  have "mget (kv m) (lock_key k) \<noteq> ''1''"
    by (rule MockDisk_Acquire.raw_induct [where P = "\<lambda>k m r. mget (kv m) (lock_key k) \<noteq> ''1''", OF _ r])
      (auto split: if_splits)
  with assms show False by simp
qed

end
