(* ===== verification/Kv.thy ===== *)
theory Kv
  imports Bio
begin

section \<open>The replicated state machine: src/kvraft, common.go and commitOp of server.go\<close>

text \<open>
  The key-value store couples every key \<open>k\<close> to a lock, kept in the same map under the key
  \<open>lock_k\<close> as the text \<open>client/timestamp\<close>; an empty value means that the lock is free. A command
  of the replicated log is applied by \<open>commitOp\<close>. This theory holds that function, the abstract
  store with a separate table of leases it implements, and what a lease promises to its holder.
\<close>

subsection \<open>Data: common.go\<close>

datatype Err = OK | ErrNoKey | ErrWrongLeader | ErrLockHeld | ErrLockNotHeld | ErrTimeout

datatype OpCode =
  GetOp | PutOp | AppendOp | AcquireOp | ReleaseOp | RenewOp | FailingAcquireOp | FailingLockedOp

record RequestArgs =
  ClientId :: uint
  Seq :: uint
  Code :: OpCode
  Key :: string
  Value :: string

record RequestReply =
  reply_Seq :: uint
  reply_E :: Err
  reply_Value :: string

definition lockLeaseTime :: int where
  "lockLeaseTime = 30"

type_synonym kvmap = "string \<rightharpoonup> string"

subsection \<open>Applying a command: server.go\<close>

definition checkHoldLock :: "kvmap \<Rightarrow> RequestArgs \<Rightarrow> bool" where
  "checkHoldLock kvm cmd =
     (let ov = mget kvm (lock_key (Key cmd)) in
      if ov = [] then False
      else
        (let cid = fst (ParseUint (Split ov CHR ''/'' ! 0) 0 64) in
         (of_nat cid :: uint) = ClientId cmd))"

text \<open>The value \<open>fmt.Sprintf("%d/%s", cmd.ClientId, cmd.Value)\<close> of a lock.\<close>

definition lock_value :: "RequestArgs \<Rightarrow> string" where
  "lock_value cmd = fmt_d (ClientId cmd) @ ''/'' @ Value cmd"

text \<open>
  The returned error is \<open>None\<close> for \<open>nil\<close>. \<open>strings.Split(ov, "/")[1]\<close> panics when the lock's value
  has no slash.
\<close>

definition commitOp :: "kvmap \<Rightarrow> RequestArgs \<Rightarrow> (goerr \<times> kvmap) outcome" where
  "commitOp kvm cmd =
     (case Code cmd of
        GetOp \<Rightarrow>
          if \<not> checkHoldLock kvm cmd then Ret (Some ''not holding lock'', kvm) else Ret (None, kvm)
      | PutOp \<Rightarrow>
          if checkHoldLock kvm cmd then Ret (None, kvm(Key cmd \<mapsto> Value cmd))
          else Ret (Some ''not holding lock'', kvm)
      | AppendOp \<Rightarrow>
          if checkHoldLock kvm cmd then Ret (None, kvm(Key cmd \<mapsto> mget kvm (Key cmd) @ Value cmd))
          else Ret (Some ''not holding lock'', kvm)
      | AcquireOp \<Rightarrow>
          (let ov = mget kvm (lock_key (Key cmd));
               parts = Split ov CHR ''/'';
               acquired = Ret (None, kvm(lock_key (Key cmd) \<mapsto> lock_value cmd))
           in
           if ov \<noteq> [] then
             if length parts \<le> 1 then Fatal ''index out of range''
             else
               (let ts = fst (Atoi (parts ! 1)); nt = fst (Atoi (Value cmd)) in
                if lockLeaseTime < int64_sub nt ts then acquired
                else Ret (Some ''failed to acquire'', kvm))
           else acquired)
      | ReleaseOp \<Rightarrow>
          if checkHoldLock kvm cmd then Ret (None, kvm(lock_key (Key cmd) \<mapsto> []))
          else Ret (Some ''not holding lock'', kvm)
      | RenewOp \<Rightarrow>
          if checkHoldLock kvm cmd then Ret (None, kvm(lock_key (Key cmd) \<mapsto> lock_value cmd))
          else Ret (Some ''not holding lock'', kvm)
      | FailingAcquireOp \<Rightarrow> Ret (None, kvm)
      | FailingLockedOp \<Rightarrow> Ret (None, kvm))"

subsection \<open>The abstract store\<close>

text \<open>Data and leases are separate tables; a lease is its holder and its timestamp.\<close>

record akv =
  akv_data :: "string \<rightharpoonup> string"
  akv_lock :: "string \<rightharpoonup> uint \<times> int"

definition timestamp :: "string \<Rightarrow> int" where
  "timestamp v = fst (Atoi (hd (Split v CHR ''/'')))"

definition a_holds :: "akv \<Rightarrow> uint \<Rightarrow> string \<Rightarrow> bool" where
  "a_holds a c k \<longleftrightarrow> map_option fst (akv_lock a k) = Some c"

definition a_expired :: "akv \<Rightarrow> string \<Rightarrow> int \<Rightarrow> bool" where
  "a_expired a k now = (case akv_lock a k of None \<Rightarrow> True | Some (_, ts) \<Rightarrow> lockLeaseTime < int64_sub now ts)"

definition akv_op :: "akv \<Rightarrow> RequestArgs \<Rightarrow> bool \<times> akv" where
  "akv_op a cmd =
     (let k = Key cmd; c = ClientId cmd;
          lease = (c, timestamp (Value cmd));
          held = a_holds a c k
      in case Code cmd of
        GetOp \<Rightarrow> (held, a)
      | PutOp \<Rightarrow> (held, if held then a\<lparr>akv_data := (akv_data a)(k \<mapsto> Value cmd)\<rparr> else a)
      | AppendOp \<Rightarrow>
          (held, if held then a\<lparr>akv_data := (akv_data a)(k \<mapsto> mget (akv_data a) k @ Value cmd)\<rparr> else a)
      | AcquireOp \<Rightarrow>
          (let free = a_expired a k (fst (Atoi (Value cmd)))
           in (free, if free then a\<lparr>akv_lock := (akv_lock a)(k \<mapsto> lease)\<rparr> else a))
      | ReleaseOp \<Rightarrow> (held, if held then a\<lparr>akv_lock := (akv_lock a)(k := None)\<rparr> else a)
      | RenewOp \<Rightarrow> (held, if held then a\<lparr>akv_lock := (akv_lock a)(k \<mapsto> lease)\<rparr> else a)
      | FailingAcquireOp \<Rightarrow> (True, a)
      | FailingLockedOp \<Rightarrow> (True, a))"

subsection \<open>The store implements it\<close>

text \<open>Keys that name a lock are not used as keys of data.\<close>

definition data_key :: "string \<Rightarrow> bool" where
  "data_key k \<longleftrightarrow> take 5 k \<noteq> ''lock_''"

definition lock_wf :: "kvmap \<Rightarrow> bool" where
  "lock_wf kvm \<longleftrightarrow>
     (\<forall>k. mget kvm (lock_key k) = [] \<or>
          (\<exists>(c::uint) v. mget kvm (lock_key k) = fmt_d c @ ''/'' @ v))"

definition lock_abs :: "string \<Rightarrow> (uint \<times> int) option" where
  "lock_abs ov =
     (if ov = [] then None
      else Some (of_nat (fst (ParseUint (Split ov CHR ''/'' ! 0) 0 64)), fst (Atoi (Split ov CHR ''/'' ! 1))))"

definition kv_abs :: "kvmap \<Rightarrow> akv" where
  "kv_abs kvm =
     \<lparr>akv_data = (\<lambda>k. if data_key k then kvm k else None),
      akv_lock = (\<lambda>k. lock_abs (mget kvm (lock_key k)))\<rparr>"

lemma data_key_neq [simp]: "data_key k \<Longrightarrow> lock_key k' \<noteq> k" "data_key k \<Longrightarrow> k \<noteq> lock_key k'"
  by (auto simp: data_key_def lock_key_def)

lemma data_key_lock_key [simp]: "\<not> data_key (lock_key k)"
  by (simp add: data_key_def lock_key_def)

lemma ParseUint_fmt_d_base0 [simp]: "ParseUint (fmt_d (u :: uint)) 0 64 = (unat u, None)"
proof -
  have "unat u < 2 ^ LENGTH(64)" by (rule unsigned_less)
  then show ?thesis by (simp add: fmt_d_def ParseUint_dec_base0)
qed

lemma lock_abs_value [simp]: "lock_abs (fmt_d (c :: uint) @ CHR ''/'' # v) = Some (c, timestamp v)"
  by (simp add: lock_abs_def go_simps timestamp_def hd_conv_nth)

lemma lock_abs_empty [simp]: "lock_abs [] = None"
  by (simp add: lock_abs_def)

lemma checkHoldLock_abs: "checkHoldLock kvm cmd \<longleftrightarrow> a_holds (kv_abs kvm) (ClientId cmd) (Key cmd)"
  by (auto simp: checkHoldLock_def a_holds_def kv_abs_def lock_abs_def Let_def)

lemma lock_wf_update:
  assumes "lock_wf kvm" and "data_key k \<or> v = [] \<or> (\<exists>cmd. v = lock_value cmd)"
  shows "lock_wf (kvm(k \<mapsto> v))"
proof -
  have "mget (kvm(k \<mapsto> v)) (lock_key k') = [] \<or> (\<exists>(c::uint) w. mget (kvm(k \<mapsto> v)) (lock_key k') = fmt_d c @ ''/'' @ w)"
    for k'
    using assms unfolding lock_wf_def lock_value_def mget_upd by (metis data_key_neq(1))
  then show ?thesis by (simp add: lock_wf_def)
qed

lemma kv_abs_data [simp]:
  "data_key k \<Longrightarrow> kv_abs (kvm(k \<mapsto> v)) = (kv_abs kvm)\<lparr>akv_data := (akv_data (kv_abs kvm))(k \<mapsto> v)\<rparr>"
  by (auto simp: kv_abs_def fun_eq_iff)

lemma kv_abs_lock [simp]:
  "kv_abs (kvm(lock_key k \<mapsto> v)) = (kv_abs kvm)\<lparr>akv_lock := (akv_lock (kv_abs kvm))(k := lock_abs v)\<rparr>"
  by (auto simp: kv_abs_def fun_eq_iff)

lemma kv_abs_mget: "data_key k \<Longrightarrow> mget (akv_data (kv_abs kvm)) k = mget kvm k"
  by (simp add: kv_abs_def mget_def)

lemma acquire_wf:
  assumes "lock_wf kvm"
  shows "commitOp kvm (cmd\<lparr>Code := AcquireOp\<rparr>) =
    (if a_expired (kv_abs kvm) (Key cmd) (fst (Atoi (Value cmd)))
     then Ret (None, kvm(lock_key (Key cmd) \<mapsto> lock_value cmd)) else Ret (Some ''failed to acquire'', kvm))"
proof (cases "mget kvm (lock_key (Key cmd)) = []")
  case True
  then show ?thesis
    by (simp add: commitOp_def a_expired_def kv_abs_def lock_value_def)
next
  case False
  then obtain c :: uint and v where ov: "mget kvm (lock_key (Key cmd)) = fmt_d c @ ''/'' @ v"
    using assms by (auto simp: lock_wf_def)
  have "Split v CHR ''/'' ! 0 = hd (Split v CHR ''/'')" by (simp add: hd_conv_nth)
  with ov show ?thesis
    by (simp add: commitOp_def a_expired_def kv_abs_def lock_value_def go_simps timestamp_def Let_def)
qed

lemma commitOp_step:
  assumes "lock_wf kvm" and "data_key (Key cmd)"
  shows "\<exists>err kvm'. commitOp kvm cmd = Ret (err, kvm') \<and> lock_wf kvm' \<and>
    akv_op (kv_abs kvm) cmd = (err = None, kv_abs kvm')"
proof (cases "Code cmd = AcquireOp")
  case True
  then have "cmd = cmd\<lparr>Code := AcquireOp\<rparr>" by simp
  with acquire_wf [OF assms(1), of cmd] True show ?thesis
    using assms(1) by (auto simp: akv_op_def lock_value_def intro!: lock_wf_update exI [of _ cmd])
next
  case False
  have "lock_wf (kvm(Key cmd \<mapsto> v))" "lock_wf (kvm(lock_key (Key cmd) \<mapsto> []))"
    "lock_wf (kvm(lock_key (Key cmd) \<mapsto> lock_value cmd))" for v
    using assms by (auto intro!: lock_wf_update)
  with False assms show ?thesis
    by (cases "Code cmd") (auto simp: commitOp_def akv_op_def Let_def checkHoldLock_abs kv_abs_mget lock_value_def)
qed

text \<open>
  C7: on a store whose locks were written by the store itself, a command on a data key never
  panics, succeeds exactly when the abstract store accepts it, and has exactly its effect on the
  data and on the leases.
\<close>

theorem commitOp_refines:
  assumes "lock_wf kvm" and "data_key (Key cmd)"
  shows "\<exists>err kvm'. commitOp kvm cmd = Ret (err, kvm') \<and> lock_wf kvm' \<and>
    akv_op (kv_abs kvm) cmd = (err = None, kv_abs kvm')"
  using assms by (rule commitOp_step)

definition witness_cmd :: "OpCode \<Rightarrow> string \<Rightarrow> string \<Rightarrow> RequestArgs" where
  "witness_cmd code k v = \<lparr>ClientId = 7, Seq = 1, Code = code, Key = k, Value = v\<rparr>"

lemma lock_wf_empty [simp]: "lock_wf Map.empty"
  by (simp add: lock_wf_def)

theorem commitOp_refines_witness:
  "\<exists>err kvm'. commitOp Map.empty (witness_cmd AcquireOp ''5'' ''100'') = Ret (err, kvm') \<and> lock_wf kvm' \<and>
    akv_op (kv_abs Map.empty) (witness_cmd AcquireOp ''5'' ''100'') = (err = None, kv_abs kvm')"
  by (rule commitOp_refines) (simp_all add: witness_cmd_def data_key_def)

subsection \<open>Leases\<close>

text \<open>A stretch of the replicated log.\<close>

fun commitAll :: "kvmap \<Rightarrow> RequestArgs list \<Rightarrow> kvmap outcome" where
  "commitAll kvm [] = Ret kvm"
| "commitAll kvm (cmd # cmds) = outcome_bind (commitOp kvm cmd) (\<lambda>r. commitAll (snd r) cmds)"

text \<open>The value of key \<open>k\<close> after the writes of client \<open>c\<close> alone.\<close>

fun own_write :: "uint \<Rightarrow> string \<Rightarrow> RequestArgs \<Rightarrow> string \<Rightarrow> string" where
  "own_write c k cmd v =
     (if Key cmd = k \<and> ClientId cmd = c then
        (case Code cmd of PutOp \<Rightarrow> Value cmd | AppendOp \<Rightarrow> v @ Value cmd | _ \<Rightarrow> v)
      else v)"

text \<open>
  What may not happen during a lease of \<open>k\<close> taken by \<open>c\<close> at time \<open>t\<close>: \<open>c\<close> does not release the lock
  or renew it backwards in time, and no command asks for the lock with a clock past the end of
  the lease.
\<close>

definition within_lease :: "uint \<Rightarrow> string \<Rightarrow> int \<Rightarrow> RequestArgs \<Rightarrow> bool" where
  "within_lease c k t cmd \<longleftrightarrow> data_key (Key cmd) \<and>
     (Key cmd = k \<longrightarrow>
        (ClientId cmd = c \<longrightarrow> Code cmd \<noteq> ReleaseOp \<and> (Code cmd = RenewOp \<longrightarrow> t \<le> timestamp (Value cmd))) \<and>
        (Code cmd = AcquireOp \<longrightarrow> 0 \<le> fst (Atoi (Value cmd)) \<and> fst (Atoi (Value cmd)) \<le> t + lockLeaseTime))"

lemma Atoi_range: "- (2 ^ 63) \<le> fst (Atoi s)" "fst (Atoi s) < 2 ^ 63"
  by (auto simp: Atoi_def Let_def split: prod.splits list.splits)

lemma int64_sub_exact: "- (2 ^ 63) \<le> a - b \<Longrightarrow> a - b < 2 ^ 63 \<Longrightarrow> int64_sub a b = a - b"
  by (simp add: int64_sub_def signed_take_bit_int_eq_self)

lemma timestamp_range: "timestamp v < 2 ^ 63"
  unfolding timestamp_def by (rule Atoi_range)

definition lease_held :: "akv \<Rightarrow> uint \<Rightarrow> string \<Rightarrow> int \<Rightarrow> bool" where
  "lease_held a c k t \<longleftrightarrow> (\<exists>ts. akv_lock a k = Some (c, ts) \<and> t \<le> ts \<and> ts < 2 ^ 63)"

lemma akv_op_within_lease:
  assumes "lease_held a c k t" "0 \<le> t" "within_lease c k t cmd"
  shows "lease_held (snd (akv_op a cmd)) c k t"
    and "mget (akv_data (snd (akv_op a cmd))) k = own_write c k cmd (mget (akv_data a) k)"
proof -
  obtain ts where ts: "akv_lock a k = Some (c, ts)" "t \<le> ts" "ts < 2 ^ 63"
    using assms(1) by (auto simp: lease_held_def)
  have noacq: "\<not> a_expired a k (fst (Atoi (Value cmd)))" if "Code cmd = AcquireOp" "Key cmd = k"
  proof -
    let ?nt = "fst (Atoi (Value cmd))"
    have "0 \<le> ?nt" "?nt \<le> t + 30" "?nt < 2 ^ 63"
      using assms(3) that Atoi_range(2) [of "Value cmd"] by (auto simp: within_lease_def lockLeaseTime_def)
    then have "int64_sub ?nt ts = ?nt - ts"
      using ts assms(2) by (intro int64_sub_exact) auto
    with ts \<open>?nt \<le> t + 30\<close> show ?thesis
      by (simp add: a_expired_def lockLeaseTime_def)
  qed
  show "lease_held (snd (akv_op a cmd)) c k t"
    using ts assms(3) noacq timestamp_range
    by (cases "Code cmd") (auto simp: akv_op_def Let_def lease_held_def within_lease_def a_holds_def)
  show "mget (akv_data (snd (akv_op a cmd))) k = own_write c k cmd (mget (akv_data a) k)"
    using ts by (cases "Code cmd") (auto simp: akv_op_def Let_def a_holds_def)
qed



text \<open>
  Keys that name locks are not protected: a client that acquires the key \<open>lock_k\<close> as a key of
  its own and puts a value without a slash there makes the next acquire of \<open>k\<close>, by anyone, panic.
\<close>

theorem lock_key_write_panics:
  assumes "CHR ''/'' \<notin> set v" "v \<noteq> []" "Key acq = k" "Code acq = AcquireOp" "fst (Atoi t) = 0"
  shows "commitAll Map.empty
    [\<lparr>ClientId = c, Seq = s1, Code = AcquireOp, Key = lock_key k, Value = t\<rparr>,
     \<lparr>ClientId = c, Seq = s2, Code = PutOp, Key = lock_key k, Value = v\<rparr>, acq] = Fatal ''index out of range''"
  using assms
  by (simp add: commitOp_def checkHoldLock_def lock_value_def go_simps Let_def)

theorem lock_key_write_panics_witness:
  "commitAll Map.empty
    [\<lparr>ClientId = 3, Seq = 1, Code = AcquireOp, Key = lock_key ''5'', Value = ''0''\<rparr>,
     \<lparr>ClientId = 3, Seq = 2, Code = PutOp, Key = lock_key ''5'', Value = ''x''\<rparr>,
     witness_cmd AcquireOp ''5'' ''100''] = Fatal ''index out of range''"
proof -
  have "''0'' = dec 0" by code_simp
  then have "fst (Atoi ''0'') = 0" by (simp add: go_simps)
  then show ?thesis
    by (intro lock_key_write_panics) (simp_all add: witness_cmd_def)
qed

end
