(* ===== verification/Raft.thy ===== *)
theory Raft
  imports GoStd
begin

section \<open>The consensus module: src/raft\<close>

text \<open>
  One server's state (\<open>Raft\<close> of \<open>raft.go\<close>) and every function that reads or changes it. A function
  that runs with the mutex held is one definition from the state to an outcome, the new state and
  the result; the goroutines that wait for an RPC are split where they take the mutex, so that
  each definition is one atomic section of the source. The clock, the sleeps and the network are
  arguments.

  Terms and indices are Go \<open>int\<close>s; the model has unbounded integers, which agree as long as none
  reaches \<open>2^63\<close>. A slice of pointers is a list of options, \<open>None\<close> for \<open>nil\<close>; an index out of range
  and a \<open>nil\<close> dereference are \<open>Fatal\<close>. A stream written by \<open>labgob\<close> is the sequence of the typed
  values encoded into it, and the channel \<open>disam\<close>, which nothing but the disambiguator reads, is
  the list of the messages sent to it.
\<close>

subsection \<open>Slices\<close>

definition nthl :: "'a list \<Rightarrow> int \<Rightarrow> 'a outcome" where
  "nthl xs i = (if 0 \<le> i \<and> i < int (length xs) then Ret (xs ! nat i) else Fatal ''index out of range'')"

definition updl :: "'a list \<Rightarrow> int \<Rightarrow> 'a \<Rightarrow> 'a list outcome" where
  "updl xs i x = (if 0 \<le> i \<and> i < int (length xs) then Ret (xs[nat i := x]) else Fatal ''index out of range'')"

definition deref :: "'a option \<Rightarrow> 'a outcome" where
  "deref p = (case p of None \<Rightarrow> Fatal ''nil pointer dereference'' | Some x \<Rightarrow> Ret x)"

subsection \<open>Data: raft.go\<close>

datatype State = leader | follower | candidate

record 'c LogEntry =
  Term :: int
  Cmd :: "'c option"

datatype 'c gob = GInt int | GLog "'c LogEntry list" | GBytes string

record 'c ApplyMsg =
  CommandValid :: bool
  Command :: "'c option"
  CommandIndex :: int
  SnapshotValid :: bool
  Snapshot_data :: string
  SnapshotTerm :: int
  SnapshotIndex :: int

record 'c Raft =
  me :: int
  npeers :: nat
  persisted :: "'c gob list option"
  "term" :: int
  votedFor :: int
  st :: State
  ts :: int
  log :: "'c LogEntry option list"
  commitIdx :: int
  appliedIdx :: int
  disam :: "'c ApplyMsg list"
  nextForServer :: "int list"
  atServer :: "int list"
  msgFlag :: bool
  snapshot :: string
  snapshotIndex :: int

record voteCounter =
  votes :: int
  killed :: bool

record RequestVoteArgs =
  rva_Term :: int
  rva_CandidateId :: int
  rva_LastLogIndex :: int
  rva_LastLogTerm :: int

record RequestVoteReply =
  rvr_Term :: int
  VoteGranted :: bool

record 'c AppendEntriesArgs =
  aea_Term :: int
  aea_LeaderId :: int
  aea_LastLogIndex :: int
  aea_LastLogTerm :: int
  aea_Entries :: "'c LogEntry list"
  aea_LeaderCommitIdx :: int

record AppendEntriesReply =
  aer_Term :: int
  Success :: bool
  XTerm :: int
  XIndex :: int
  XLen :: int

record InstallSnapshotArgs =
  isa_Term :: int
  isa_LeaderId :: int
  isa_LastIncludedIndex :: int
  isa_LastIncludedTerm :: int
  isa_Data :: string

record InstallSnapshotReply =
  isr_Term :: int

definition hbMs :: int where
  "hbMs = 101"

definition minWait :: int where
  "minWait = hbMs * 2"

definition maxWait :: int where
  "maxWait = hbMs * 4"

abbreviation entry_at :: "'c Raft \<Rightarrow> int \<Rightarrow> 'c LogEntry outcome" where
  "entry_at rf i \<equiv> outcome_bind (nthl (log rf) i) deref"

subsection \<open>Persistence: persist, readPersist and persister.go\<close>

text \<open>
  The state file is written to a temporary file and renamed, so it holds the last state saved in
  full: \<open>persisted\<close>, \<open>None\<close> while there is no file. The encoder refuses a slice with a \<open>nil\<close> element.
\<close>

definition SaveRaftState :: "'c gob list \<Rightarrow> 'c Raft \<Rightarrow> 'c Raft" where
  "SaveRaftState state rf = rf\<lparr>persisted := Some state\<rparr>"

definition ReadRaftState :: "'c Raft \<Rightarrow> 'c gob list option" where
  "ReadRaftState rf = persisted rf"

definition persist :: "'c Raft \<Rightarrow> 'c Raft outcome" where
  "persist rf =
     (if snapshotIndex rf < 0 \<or> int (length (log rf)) < snapshotIndex rf
      then Fatal ''slice bounds out of range''
      else
        (let tail = drop (nat (snapshotIndex rf)) (log rf) in
         if None \<in> set tail then Fatal ''Couldn't encode, get better error checking''
         else
           Ret (SaveRaftState
             [GInt (term rf), GInt (votedFor rf), GInt (snapshotIndex rf), GLog (map the tail),
              GBytes (snapshot rf)] rf)))"

text \<open>
  \<open>readPersist\<close>: the state is decoded field by field, in the order it was written; \<open>make\<close> panics
  on a negative length.
\<close>

definition readPersist :: "'c gob list option \<Rightarrow> 'c Raft \<Rightarrow> 'c Raft outcome" where
  "readPersist data rf =
     (case data of
        None \<Rightarrow> Ret rf
      | Some [] \<Rightarrow> Ret rf
      | Some (GInt t # GInt vf # GInt si # GLog newLog # GBytes ss # _) \<Rightarrow>
          if si < 0 then Fatal ''makeslice: len out of range''
          else
            (let rf1 = rf\<lparr>term := t, votedFor := vf, snapshotIndex := si, snapshot := ss,
                   log := replicate (nat si) None @ map Some newLog, commitIdx := si, appliedIdx := si\<rparr>
             in
             outcome_bind
               (if 0 < si then
                  outcome_bind (nthl (log rf1) (si - 1)) (\<lambda>p.
                    if p \<noteq> None then Fatal ''Erroneous decode'' else Ret ())
                else Ret ()) (\<lambda>_.
             outcome_bind (nthl (log rf1) si) (\<lambda>e.
               if e = None then Fatal ''Erroneous decode'' else Ret rf1)))
      | Some _ \<Rightarrow> Fatal ''Couldn't decode, get better error checking'')"

subsection \<open>Helpers that run with the mutex held: fns.go\<close>

text \<open>\<open>doInstallSnapshot\<close>; its first loop is \<open>drop_entries\<close>.\<close>

fun drop_entries :: "int list \<Rightarrow> 'c LogEntry option list \<Rightarrow> 'c LogEntry option list outcome" where
  "drop_entries [] lg = Ret lg"
| "drop_entries (i # is) lg =
     (if int (length lg) = i then drop_entries is (lg @ [None])
      else outcome_bind (updl lg i None) (drop_entries is))"

definition doInstallSnapshot :: "int \<Rightarrow> int \<Rightarrow> string \<Rightarrow> bool \<Rightarrow> 'c Raft \<Rightarrow> 'c Raft outcome" where
  "doInstallSnapshot index trm ss changeCommit rf =
     outcome_bind (drop_entries [snapshotIndex rf..index - 1] (log rf)) (\<lambda>lg.
     outcome_bind
       (if int (length lg) = index then Ret (lg @ [Some \<lparr>Term = trm, Cmd = None\<rparr>])
        else outcome_bind (nthl lg index) (\<lambda>e.
               outcome_bind (deref e) (\<lambda>e. updl lg index (Some (e\<lparr>Term := trm\<rparr>))))) (\<lambda>lg'.
     let rf1 = rf\<lparr>log := lg', snapshot := ss, snapshotIndex := index\<rparr>;
         rf2 = (if changeCommit then rf1\<lparr>commitIdx := index, appliedIdx := index\<rparr> else rf1)
     in persist rf2))"

definition msgCommon :: "int \<Rightarrow> 'c Raft \<Rightarrow> (bool \<times> 'c Raft) outcome" where
  "msgCommon msgTerm rf =
     (if term rf < msgTerm then
        outcome_bind (persist (rf\<lparr>term := msgTerm\<rparr>)) (\<lambda>rf1. Ret (False, rf1\<lparr>st := follower\<rparr>))
      else Ret (True, rf))"

definition firstIndexForTerm :: "int \<Rightarrow> 'c Raft \<Rightarrow> int" where
  "firstIndexForTerm trm rf =
     (case find (\<lambda>i. \<exists>e. log rf ! i = Some e \<and> Term e = trm) [0..<length (log rf)] of
        None \<Rightarrow> - 1
      | Some i \<Rightarrow> int i)"

definition otherIsRecent :: "int \<Rightarrow> int \<Rightarrow> 'c Raft \<Rightarrow> bool outcome" where
  "otherIsRecent oi ot rf =
     (let mi = int (length (log rf)) - 1 in
      outcome_bind (entry_at rf mi) (\<lambda>e.
        let mt = Term e in
        if mt < ot then Ret True
        else if ot < mt then Ret False
        else if mi \<le> oi then Ret True
        else Ret False))"

fun collect_msgs :: "'c Raft \<Rightarrow> int list \<Rightarrow> 'c ApplyMsg list outcome" where
  "collect_msgs rf [] = Ret []"
| "collect_msgs rf (i # is) =
     outcome_bind (entry_at rf i) (\<lambda>le.
     outcome_bind (collect_msgs rf is) (\<lambda>ms.
       Ret (\<lparr>CommandValid = True, Command = Cmd le, CommandIndex = i, SnapshotValid = False,
             Snapshot_data = [], SnapshotTerm = 0, SnapshotIndex = 0\<rparr> # ms)))"

definition applyOutstanding :: "'c Raft \<Rightarrow> 'c Raft outcome" where
  "applyOutstanding rf =
     outcome_bind
       (if appliedIdx rf < commitIdx rf then collect_msgs rf [appliedIdx rf + 1..commitIdx rf] else Ret [])
       (\<lambda>msgs. Ret (rf\<lparr>appliedIdx := commitIdx rf, disam := disam rf @ msgs\<rparr>))"

definition leaderInit :: "'c Raft \<Rightarrow> 'c Raft" where
  "leaderInit rf =
     rf\<lparr>atServer := replicate (npeers rf) 0,
        nextForServer := replicate (npeers rf) (int (length (log rf)))\<rparr>"

subsection \<open>RPC handlers: raft.go\<close>

definition GetState :: "'c Raft \<Rightarrow> int \<times> bool" where
  "GetState rf = (term rf, st rf = leader)"

definition RequestVote :: "int \<Rightarrow> RequestVoteArgs \<Rightarrow> 'c Raft \<Rightarrow> (RequestVoteReply \<times> 'c Raft) outcome" where
  "RequestVote now args rf =
     outcome_bind (msgCommon (rva_Term args) rf) (\<lambda>(res, rf1).
     outcome_bind (if \<not> res then persist (rf1\<lparr>votedFor := - 1\<rparr>) else Ret rf1) (\<lambda>rf2.
     let no = \<lparr>rvr_Term = term rf2, VoteGranted = False\<rparr> in
     if rva_Term args < term rf2 then Ret (no, rf2)
     else
       outcome_bind (otherIsRecent (rva_LastLogIndex args) (rva_LastLogTerm args) rf2) (\<lambda>recent.
         if \<not> recent then Ret (no, rf2)
         else if votedFor rf2 = - 1 \<or> votedFor rf2 = rva_CandidateId args then
           outcome_bind (persist (rf2\<lparr>ts := now, votedFor := rva_CandidateId args\<rparr>)) (\<lambda>rf3.
             Ret (\<lparr>rvr_Term = term rf2, VoteGranted = True\<rparr>, rf3))
         else Ret (no, rf2))))"

definition AppendEntries ::
  "int \<Rightarrow> 'c AppendEntriesArgs \<Rightarrow> 'c Raft \<Rightarrow> (AppendEntriesReply \<times> 'c Raft) outcome"
where
  "AppendEntries now args rf =
     outcome_bind (msgCommon (aea_Term args) rf) (\<lambda>(_, rf1).
     let ok = \<lparr>aer_Term = term rf1, Success = True, XTerm = - 1, XIndex = - 1, XLen = - 1\<rparr>;
         lli = aea_LastLogIndex args
     in
     if aea_Term args < term rf1 then Ret (ok\<lparr>Success := False\<rparr>, rf1)
     else
       let rf2 = rf1\<lparr>ts := now, st := follower\<rparr> in
       if int (length (log rf2)) \<le> lli then
         Ret (ok\<lparr>Success := False, XLen := int (length (log rf2))\<rparr>, rf2)
       else
         outcome_bind (nthl (log rf2) lli) (\<lambda>p.
           case p of
             None \<Rightarrow> Ret (ok\<lparr>Success := False\<rparr>, rf2)
           | Some e \<Rightarrow>
               if Term e \<noteq> aea_LastLogTerm args then
                 Ret (ok\<lparr>Success := False, XTerm := Term e, XIndex := firstIndexForTerm (Term e) rf2\<rparr>, rf2)
               else
                 outcome_bind
                   (if lli + 1 < int (length (log rf2))
                    then persist (rf2\<lparr>log := take (nat (lli + 1)) (log rf2)\<rparr>) else Ret rf2) (\<lambda>rf3.
                 outcome_bind
                   (if aea_Entries args \<noteq> []
                    then persist (rf3\<lparr>log := log rf3 @ map Some (aea_Entries args)\<rparr>) else Ret rf3) (\<lambda>rf4.
                 outcome_bind
                   (if commitIdx rf4 < aea_LeaderCommitIdx args
                    then
                      (let lastEnt = int (length (log rf4)) - 1 in
                       applyOutstanding
                         (if lastEnt < aea_LeaderCommitIdx args then rf4\<lparr>commitIdx := lastEnt\<rparr>
                          else rf4\<lparr>commitIdx := aea_LeaderCommitIdx args\<rparr>))
                    else Ret rf4) (\<lambda>rf5. Ret (ok, rf5))))))"

definition InstallSnapshot ::
  "int \<Rightarrow> InstallSnapshotArgs \<Rightarrow> 'c Raft \<Rightarrow> (InstallSnapshotReply \<times> 'c Raft) outcome"
where
  "InstallSnapshot now args rf =
     outcome_bind (msgCommon (isa_Term args) rf) (\<lambda>(_, rf1).
     let reply = \<lparr>isr_Term = term rf1\<rparr> in
     if isa_Term args < term rf1 then Ret (reply, rf1)
     else
       Ret (reply, rf1\<lparr>ts := now, disam := disam rf1 @
         [\<lparr>CommandValid = False, Command = None, CommandIndex = 0, SnapshotValid = True,
           Snapshot_data = isa_Data args, SnapshotTerm = isa_LastIncludedTerm args,
           SnapshotIndex = isa_LastIncludedIndex args\<rparr>]\<rparr>))"

subsection \<open>The interface to the service: raft.go\<close>

definition Start :: "'c \<Rightarrow> 'c Raft \<Rightarrow> ((int \<times> int \<times> bool) \<times> 'c Raft) outcome" where
  "Start command rf =
     (if st rf \<noteq> leader then Ret ((- 1, - 1, False), rf)
      else
        outcome_bind (persist (rf\<lparr>log := log rf @ [Some \<lparr>Term = term rf, Cmd = Some command\<rparr>]\<rparr>)) (\<lambda>rf1.
          Ret ((int (length (log rf1)) - 1, term rf1, True), rf1\<lparr>msgFlag := True\<rparr>)))"

definition CondInstallSnapshot :: "int \<Rightarrow> int \<Rightarrow> string \<Rightarrow> 'c Raft \<Rightarrow> (bool \<times> 'c Raft) outcome" where
  "CondInstallSnapshot lastIncludedTerm lastIncludedIndex ss rf =
     outcome_bind (otherIsRecent lastIncludedIndex lastIncludedTerm rf) (\<lambda>recent.
       if \<not> recent then Ret (False, rf)
       else
         outcome_bind (doInstallSnapshot lastIncludedIndex lastIncludedTerm ss True rf) (\<lambda>rf1.
           Ret (True, rf1)))"

definition Snapshot :: "int \<Rightarrow> string \<Rightarrow> 'c Raft \<Rightarrow> 'c Raft outcome" where
  "Snapshot index ss rf =
     outcome_bind (entry_at rf index) (\<lambda>e. doInstallSnapshot index (Term e) ss False rf)"

text \<open>\<open>Make\<close>, for the server \<open>i\<close> of \<open>n\<close> whose state file holds \<open>file\<close>.\<close>

definition Make :: "int \<Rightarrow> nat \<Rightarrow> 'c gob list option \<Rightarrow> 'c Raft outcome" where
  "Make i n file =
     readPersist file
       \<lparr>me = i, npeers = n, persisted = file, term = 0, votedFor = - 1, st = follower, ts = 0,
        log = [Some \<lparr>Term = 0, Cmd = None\<rparr>], commitIdx = 0, appliedIdx = 0, disam = [],
        nextForServer = [], atServer = [], msgFlag = False, snapshot = [], snapshotIndex = 0\<rparr>"

subsection \<open>Elections: fns.go\<close>

definition countVote :: "voteCounter \<Rightarrow> voteCounter" where
  "countVote vc = vc\<lparr>votes := votes vc + 1\<rparr>"

definition getVotes :: "voteCounter \<Rightarrow> int" where
  "getVotes vc = (if killed vc then - 1 else votes vc)"

definition killVote :: "voteCounter \<Rightarrow> voteCounter" where
  "killVote vc = vc\<lparr>killed := True\<rparr>"

text \<open>
  \<open>runElection\<close> up to the release of the mutex: the ballot, and the counter with the server's own
  vote; a ballot goes to every other peer.
\<close>

definition election_ballot :: "'c Raft \<Rightarrow> RequestVoteArgs outcome" where
  "election_ballot rf =
     outcome_bind (entry_at rf (int (length (log rf)) - 1)) (\<lambda>e.
       Ret \<lparr>rva_Term = term rf, rva_CandidateId = me rf,
            rva_LastLogIndex = int (length (log rf)) - 1, rva_LastLogTerm = Term e\<rparr>)"

definition new_counter :: "'c Raft \<Rightarrow> voteCounter" where
  "new_counter rf =
     (let vc = \<lparr>votes = 0, killed = False\<rparr> in
      if 0 \<le> me rf \<and> me rf < int (npeers rf) then countVote vc else vc)"

text \<open>The goroutine of a ballot, once the reply is there.\<close>

definition ballot_reply ::
  "RequestVoteReply \<Rightarrow> 'c Raft \<Rightarrow> voteCounter \<Rightarrow> ('c Raft \<times> voteCounter) outcome"
where
  "ballot_reply rvr rf vc =
     outcome_bind (msgCommon (rvr_Term rvr) rf) (\<lambda>(ok, rf1).
       Ret (rf1, if \<not> ok then killVote vc else if VoteGranted rvr then countVote vc else vc))"

text \<open>One look at the counter in the polling loop; the flag says that the loop ends.\<close>

definition election_poll :: "voteCounter \<Rightarrow> 'c Raft \<Rightarrow> bool \<times> 'c Raft" where
  "election_poll vc rf =
     (let voteCount = getVotes vc in
      if voteCount < 0 \<or> st rf = follower then (True, rf)
      else if int (npeers rf) div 2 < voteCount then (True, leaderInit (rf\<lparr>st := leader\<rparr>))
      else (False, rf))"

text \<open>
  \<open>beCandidate\<close>: one round of its loop, up to the call of \<open>runElection\<close>; the first round follows
  the assignment of \<open>candidate\<close> without releasing the mutex, and a later round finds the server a
  candidate.
\<close>

definition candidate_round :: "'c Raft \<Rightarrow> 'c Raft outcome" where
  "candidate_round rf = persist (rf\<lparr>st := candidate, votedFor := me rf, term := term rf + 1\<rparr>)"

subsection \<open>Leaders: fns.go\<close>

datatype 'c heartbeat = SendAE int "'c AppendEntriesArgs" | SendIS int InstallSnapshotArgs

fun deref_all :: "'a option list \<Rightarrow> 'a list outcome" where
  "deref_all [] = Ret []"
| "deref_all (p # ps) =
     outcome_bind (deref p) (\<lambda>e. outcome_bind (deref_all ps) (\<lambda>es. Ret (e # es)))"

text \<open>The body of the loop of \<open>doHeartbeat\<close> for peer \<open>i\<close>: the call it starts, if any.\<close>

definition heartbeat_peer :: "int \<Rightarrow> 'c Raft \<Rightarrow> ('c heartbeat list \<times> 'c Raft) outcome" where
  "heartbeat_peer i rf =
     (if i = me rf then
        outcome_bind (updl (atServer rf) (me rf) (int (length (log rf)) - 1)) (\<lambda>as.
        outcome_bind (updl (nextForServer rf) (me rf) (int (length (log rf)))) (\<lambda>ns.
          Ret ([], rf\<lparr>atServer := as, nextForServer := ns\<rparr>)))
      else
        outcome_bind (nthl (nextForServer rf) i) (\<lambda>next.
        let lli = next - 1 in
        outcome_bind (nthl (log rf) lli) (\<lambda>p.
          case p of
            Some e \<Rightarrow>
              outcome_bind (deref_all (drop (nat (lli + 1)) (log rf))) (\<lambda>ents.
                Ret ([SendAE i \<lparr>aea_Term = term rf, aea_LeaderId = me rf, aea_LastLogIndex = lli,
                        aea_LastLogTerm = Term e, aea_Entries = ents,
                        aea_LeaderCommitIdx = commitIdx rf\<rparr>], rf))
          | None \<Rightarrow>
              outcome_bind (entry_at rf (snapshotIndex rf)) (\<lambda>e.
                Ret ([SendIS i \<lparr>isa_Term = term rf, isa_LeaderId = me rf,
                        isa_LastIncludedIndex = snapshotIndex rf, isa_LastIncludedTerm = Term e,
                        isa_Data = snapshot rf\<rparr>], rf)))))"

fun heartbeat_peers :: "nat list \<Rightarrow> 'c Raft \<Rightarrow> ('c heartbeat list \<times> 'c Raft) outcome" where
  "heartbeat_peers [] rf = Ret ([], rf)"
| "heartbeat_peers (i # is) rf =
     outcome_bind (heartbeat_peer (int i) rf) (\<lambda>(hs, rf1).
     outcome_bind (heartbeat_peers is rf1) (\<lambda>(hs', rf2). Ret (hs @ hs', rf2)))"

definition doHeartbeat :: "int \<Rightarrow> 'c Raft \<Rightarrow> ('c heartbeat list \<times> 'c Raft) outcome" where
  "doHeartbeat now rf = heartbeat_peers [0..<npeers rf] (rf\<lparr>ts := now\<rparr>)"

text \<open>The goroutines of a heartbeat, once the reply is there.\<close>

definition ae_reply ::
  "int \<Rightarrow> 'c AppendEntriesArgs \<Rightarrow> AppendEntriesReply \<Rightarrow> 'c Raft \<Rightarrow> 'c Raft outcome"
where
  "ae_reply j aea aer rf =
     outcome_bind (msgCommon (aer_Term aer) rf) (\<lambda>(ok, rf1).
       if \<not> ok then Ret rf1
       else if \<not> Success aer then
         if 0 < XTerm aer then
           (let ni = firstIndexForTerm (XTerm aer) rf1 in
            outcome_bind (updl (nextForServer rf1) j (if 0 < ni then ni else XIndex aer)) (\<lambda>ns.
              Ret (rf1\<lparr>nextForServer := ns\<rparr>)))
         else if 0 < XLen aer then
           outcome_bind (updl (nextForServer rf1) j (XLen aer)) (\<lambda>ns. Ret (rf1\<lparr>nextForServer := ns\<rparr>))
         else Ret rf1
       else
         (let at = aea_LastLogIndex aea + int (length (aea_Entries aea)) in
          outcome_bind (updl (atServer rf1) j at) (\<lambda>as.
          outcome_bind (updl (nextForServer rf1) j (at + 1)) (\<lambda>ns.
            Ret (rf1\<lparr>atServer := as, nextForServer := ns\<rparr>)))))"

definition is_reply ::
  "int \<Rightarrow> InstallSnapshotArgs \<Rightarrow> InstallSnapshotReply \<Rightarrow> 'c Raft \<Rightarrow> 'c Raft outcome"
where
  "is_reply j isa isr rf =
     outcome_bind (msgCommon (isr_Term isr) rf) (\<lambda>(ok, rf1).
       if \<not> ok then Ret rf1
       else
         outcome_bind (updl (nextForServer rf1) j (isa_LastIncludedIndex isa + 1)) (\<lambda>ns.
           Ret (rf1\<lparr>nextForServer := ns\<rparr>)))"

text \<open>\<open>rvwCommits\<close>: one round of its loop; the flag says that the loop ends.\<close>

definition median_index :: "nat \<Rightarrow> int" where
  "median_index n = (if even n then int n div 2 else (int n - 1) div 2)"

definition rvwCommits_round :: "'c Raft \<Rightarrow> (bool \<times> 'c Raft) outcome" where
  "rvwCommits_round rf =
     (if st rf \<noteq> leader then Ret (True, rf)
      else
        (let sorted = sort (atServer rf) in
         outcome_bind (nthl sorted (median_index (length sorted))) (\<lambda>median.
           if commitIdx rf < median then
             outcome_bind (entry_at rf median) (\<lambda>e.
               if term rf = Term e then
                 outcome_bind (applyOutstanding (rf\<lparr>commitIdx := median\<rparr>)) (\<lambda>rf1. Ret (False, rf1))
               else Ret (False, rf))
           else Ret (False, rf))))"

subsection \<open>The timer: ticker of raft.go\<close>

text \<open>
  The sections of an iteration that hold the mutex. The first gives the time to compare with and
  how long to sleep (in ns; \<open>None\<close> for the random interval of a follower); the second says whether
  the server runs for leader, the third, after a candidacy if there was one, whether it sends a
  heartbeat.
\<close>

definition ticker_sleep :: "int \<Rightarrow> 'c Raft \<Rightarrow> (int \<times> int option) \<times> 'c Raft" where
  "ticker_sleep now rf =
     (let rf1 = rf\<lparr>ts := now\<rparr> in
      if st rf1 = follower then ((now, None), rf1)
      else if msgFlag rf1 then ((now, Some (hbMs * 1000000 div 4)), rf1\<lparr>msgFlag := False\<rparr>)
      else ((now, Some (hbMs * 1000000)), rf1))"

definition ticker_wake :: "int \<Rightarrow> 'c Raft \<Rightarrow> bool \<times> 'c Raft" where
  "ticker_wake currentTime rf =
     (if st rf = follower \<and> ts rf = currentTime then (True, rf\<lparr>st := candidate\<rparr>) else (False, rf))"

definition ticker_leads :: "int \<Rightarrow> 'c Raft \<Rightarrow> bool" where
  "ticker_leads currentTime rf \<longleftrightarrow> st rf = leader \<and> ts rf = currentTime"

end
