(* ===== verification/Raft_Inv.thy ===== *)
theory Raft_Inv
  imports Raft
begin

section \<open>Invariants of a consensus server\<close>

text \<open>
  The shape of the log (\<open>raft_wf\<close>: the entries below the snapshot are \<open>nil\<close>, and no others), the
  agreement of the state file with the state (\<open>saved\<close>), that no operation of the module panics in
  such a state and every one of them keeps it, and that a restart from the state file gives the
  persistent state back.
\<close>

subsection \<open>The invariant\<close>

definition raft_wf :: "'c Raft \<Rightarrow> bool" where
  "raft_wf rf \<longleftrightarrow>
     0 \<le> snapshotIndex rf \<and> snapshotIndex rf < int (length (log rf)) \<and>
     (\<forall>i < length (log rf). log rf ! i = None \<longleftrightarrow> int i < snapshotIndex rf) \<and>
     snapshotIndex rf \<le> appliedIdx rf \<and> appliedIdx rf = commitIdx rf"

definition encoded :: "'c Raft \<Rightarrow> 'c gob list" where
  "encoded rf =
     [GInt (term rf), GInt (votedFor rf), GInt (snapshotIndex rf),
      GLog (map the (drop (nat (snapshotIndex rf)) (log rf))), GBytes (snapshot rf)]"

definition saved :: "'c Raft \<Rightarrow> bool" where
  "saved rf \<longleftrightarrow> persisted rf = Some (encoded rf) \<or>
     persisted rf = None \<and> term rf = 0 \<and> votedFor rf = - 1 \<and> log rf = [Some \<lparr>Term = 0, Cmd = None\<rparr>] \<and>
     snapshotIndex rf = 0 \<and> snapshot rf = []"

definition raft_ok :: "'c Raft \<Rightarrow> bool" where
  "raft_ok rf \<longleftrightarrow> raft_wf rf \<and> saved rf"

lemma raft_wfD:
  assumes "raft_wf rf"
  shows "0 \<le> snapshotIndex rf" "snapshotIndex rf < int (length (log rf))"
    "i < length (log rf) \<Longrightarrow> log rf ! i = None \<longleftrightarrow> int i < snapshotIndex rf"
    "snapshotIndex rf \<le> appliedIdx rf" "appliedIdx rf = commitIdx rf"
  using assms by (auto simp: raft_wf_def)

lemma raft_wf_tail:
  assumes "raft_wf rf" shows "None \<notin> set (drop (nat (snapshotIndex rf)) (log rf))"
proof
  assume "None \<in> set (drop (nat (snapshotIndex rf)) (log rf))"
  then obtain j where j: "j < length (log rf) - nat (snapshotIndex rf)"
    "drop (nat (snapshotIndex rf)) (log rf) ! j = None"
    by (auto simp: in_set_conv_nth)
  then have "log rf ! (nat (snapshotIndex rf) + j) = None" by simp
  moreover have "nat (snapshotIndex rf) + j < length (log rf)" using j(1) by simp
  ultimately show False using raft_wfD(1,3) [OF assms] by fastforce
qed

lemma raft_wf_cong:
  "snapshotIndex rf' = snapshotIndex rf \<Longrightarrow> log rf' = log rf \<Longrightarrow> appliedIdx rf' = appliedIdx rf \<Longrightarrow>
   commitIdx rf' = commitIdx rf \<Longrightarrow> raft_wf rf' = raft_wf rf"
  by (simp add: raft_wf_def)

lemma persist_wf: "raft_wf rf \<Longrightarrow> persist rf = Ret (rf\<lparr>persisted := Some (encoded rf)\<rparr>)"
  using raft_wf_tail [of rf] raft_wfD(1,2) [of rf]
  by (simp add: persist_def SaveRaftState_def encoded_def Let_def)

lemma persist_ok:
  assumes "raft_wf rf"
  shows "returns (persist rf) (\<lambda>rf'. rf' = rf\<lparr>persisted := Some (encoded rf)\<rparr> \<and> raft_ok rf')"
  using assms by (simp add: persist_wf raft_ok_def saved_def encoded_def raft_wf_def)

lemma entry_at_wf:
  assumes "raft_wf rf" "snapshotIndex rf \<le> i" "i < int (length (log rf))"
  shows "\<exists>e. log rf ! nat i = Some e \<and> entry_at rf i = Ret e"
proof -
  have "log rf ! nat i \<noteq> None"
    using raft_wfD(1) [OF assms(1)] raft_wfD(3) [OF assms(1), of "nat i"] assms(2,3) by auto
  with assms raft_wfD(1) [OF assms(1)] show ?thesis
    by (auto simp: nthl_def deref_def)
qed

lemma last_entry_wf:
  assumes "raft_wf rf"
  shows "\<exists>e. log rf ! (length (log rf) - 1) = Some e \<and> entry_at rf (int (length (log rf)) - 1) = Ret e"
  using entry_at_wf [OF assms, of "int (length (log rf)) - 1"] raft_wfD(2) [OF assms]
  by (simp add: nat_diff_distrib')

subsection \<open>The helpers\<close>

text \<open>Changes that do not touch the log or the persistent state.\<close>

lemma raft_ok_simps [simp]:
  "raft_ok (rf\<lparr>st := x\<rparr>) = raft_ok rf" "raft_ok (rf\<lparr>ts := y\<rparr>) = raft_ok rf"
  "raft_ok (rf\<lparr>disam := d\<rparr>) = raft_ok rf" "raft_ok (rf\<lparr>msgFlag := f\<rparr>) = raft_ok rf"
  "raft_ok (rf\<lparr>atServer := as\<rparr>) = raft_ok rf" "raft_ok (rf\<lparr>nextForServer := ns\<rparr>) = raft_ok rf"
  by (simp_all add: raft_ok_def raft_wf_def saved_def encoded_def)

lemma msgCommon_ok:
  assumes "raft_ok rf"
  shows "returns (msgCommon t rf) (\<lambda>(ok, rf').
    raft_ok rf' \<and> ok = (t \<le> term rf) \<and> term rf' = max t (term rf) \<and> votedFor rf' = votedFor rf \<and>
    log rf' = log rf \<and> commitIdx rf' = commitIdx rf \<and> appliedIdx rf' = appliedIdx rf \<and>
    snapshotIndex rf' = snapshotIndex rf \<and> npeers rf' = npeers rf \<and> me rf' = me rf \<and>
    atServer rf' = atServer rf \<and> nextForServer rf' = nextForServer rf \<and> disam rf' = disam rf \<and>
    st rf' = (if t \<le> term rf then st rf else follower) \<and> (t \<le> term rf \<longrightarrow> rf' = rf))"
proof (cases "term rf < t")
  case True
  have "raft_wf (rf\<lparr>term := t\<rparr>)" using assms by (simp add: raft_ok_def raft_wf_def)
  with persist_ok [OF this] True show ?thesis
    by (auto simp: msgCommon_def persist_wf)
qed (use assms in \<open>simp add: msgCommon_def\<close>)

lemma otherIsRecent_ok:
  assumes "raft_wf rf" "log rf ! (length (log rf) - 1) = Some e"
  shows "otherIsRecent oi ot rf =
    Ret (Term e < ot \<or> Term e = ot \<and> int (length (log rf)) - 1 \<le> oi)"
  using last_entry_wf [OF assms(1)] assms(2) by (auto simp: otherIsRecent_def Let_def)

text \<open>The message that delivers entry \<open>i\<close> of a log.\<close>

definition cmd_msg :: "'c LogEntry option list \<Rightarrow> int \<Rightarrow> 'c ApplyMsg" where
  "cmd_msg lg i = \<lparr>CommandValid = True, Command = Cmd (the (lg ! nat i)), CommandIndex = i,
     SnapshotValid = False, Snapshot_data = [], SnapshotTerm = 0, SnapshotIndex = 0\<rparr>"

lemma collect_msgs_ok:
  assumes "raft_wf rf" "\<forall>i \<in> set is. snapshotIndex rf \<le> i \<and> i < int (length (log rf))"
  shows "collect_msgs rf is = Ret (map (cmd_msg (log rf)) is)"
  using assms(2)
proof (induction "is")
  case (Cons i "is")
  with entry_at_wf [OF assms(1), of i] show ?case by (auto simp: cmd_msg_def)
qed simp

lemma applyOutstanding_ok:
  assumes "raft_wf (rf\<lparr>commitIdx := appliedIdx rf\<rparr>)" "commitIdx rf < int (length (log rf))"
  shows "applyOutstanding rf = Ret (rf\<lparr>appliedIdx := commitIdx rf,
    disam := disam rf @ map (cmd_msg (log rf)) [appliedIdx rf + 1..commitIdx rf]\<rparr>)"
proof -
  let ?rf = "rf\<lparr>commitIdx := appliedIdx rf\<rparr>"
  have same: "collect_msgs rf is = collect_msgs ?rf is" for "is"
    by (induction "is") simp_all
  have "\<forall>i \<in> set [appliedIdx rf + 1..commitIdx rf]. snapshotIndex ?rf \<le> i \<and> i < int (length (log ?rf))"
    using raft_wfD(4) [OF assms(1)] assms(2) by auto
  from collect_msgs_ok [OF assms(1) this] show ?thesis
    by (auto simp: applyOutstanding_def same)
qed

lemma drop_entries_ok:
  fixes lg :: "'c LogEntry option list"
  assumes "0 \<le> a" "nat a \<le> length lg" "a \<le> b"
  shows "drop_entries [a..b - 1] lg =
    Ret (take (nat a) lg @ replicate (nat (b - a)) None @ drop (nat b) lg)"
  using assms
proof (induction "nat (b - a)" arbitrary: a lg)
  case 0
  then show ?case by simp
next
  case (Suc k)
  then have ab: "a < b" and k: "k = nat (b - (a + 1))" by auto
  have upt: "[a..b - 1] = a # [a + 1..b - 1]" using ab by (simp add: upto_rec1)
  have rep: "replicate (nat (b - a)) (None :: 'c LogEntry option) = None # replicate (nat (b - (a + 1))) None"
    using Suc(2) k by (metis replicate_Suc)
  have Sa: "nat (a + 1) = Suc (nat a)" using Suc.prems(1) by simp
  show ?case
  proof (cases "length lg = nat a")
    case True
    then have "drop_entries [a..b - 1] lg = drop_entries [a + 1..b - 1] (lg @ [None])"
      using Suc.prems(1) upt by simp
    also have "\<dots> = Ret (take (nat (a + 1)) (lg @ [None]) @ replicate (nat (b - (a + 1))) None @
        drop (nat b) (lg @ [None]))"
      using k Suc.prems True ab by (intro Suc.hyps(1)) auto
    finally show ?thesis using True ab Suc.prems(1) rep Sa by simp
  next
    case False
    then have lt: "nat a < length lg" using Suc.prems(2) by simp
    then have "a < int (length lg)" using Suc.prems(1) by (simp add: nat_less_iff)
    then have "drop_entries [a..b - 1] lg = drop_entries [a + 1..b - 1] (lg[nat a := None])"
      using Suc.prems(1) upt by (simp add: updl_def)
    also have "\<dots> = Ret (take (nat (a + 1)) (lg[nat a := None]) @ replicate (nat (b - (a + 1))) None @
        drop (nat b) (lg[nat a := None]))"
      using k Suc.prems lt ab by (intro Suc.hyps(1)) auto
    finally show ?thesis
      using lt ab Suc.prems(1) rep Sa by (simp add: take_Suc_conv_app_nth)
  qed
qed

lemma doInstallSnapshot_ok:
  assumes "raft_wf rf" "snapshotIndex rf \<le> index" "index \<le> appliedIdx rf \<or> chg"
    and "chg \<or> index < int (length (log rf))"
  shows "returns (doInstallSnapshot index trm ss chg rf) (\<lambda>rf'. raft_ok rf' \<and>
    snapshotIndex rf' = index \<and> snapshot rf' = ss \<and> term rf' = term rf \<and> votedFor rf' = votedFor rf \<and>
    st rf' = st rf \<and> me rf' = me rf \<and> npeers rf' = npeers rf \<and> disam rf' = disam rf \<and>
    commitIdx rf' = (if chg then index else commitIdx rf) \<and>
    length (log rf') = max (nat index + 1) (length (log rf)) \<and>
    Term (the (log rf' ! nat index)) = trm \<and>
    drop (nat index + 1) (log rf') = drop (nat index + 1) (log rf))"
proof -
  note D = raft_wfD [OF assms(1)]
  let ?n = "nat index"
  let ?lg = "replicate ?n None @ drop ?n (log rf)"
  have si: "nat (snapshotIndex rf) \<le> length (log rf)" using D(1,2) by simp
  have "take (nat (snapshotIndex rf)) (log rf) = replicate (nat (snapshotIndex rf)) None"
    using D(1,3) si by (intro nth_equalityI) auto
  moreover have "replicate (nat (snapshotIndex rf)) None @ replicate (nat (index - snapshotIndex rf)) None
      = (replicate ?n None :: 'c LogEntry option list)"
    using assms(2) D(1) by (simp add: replicate_add [symmetric] nat_add_distrib [symmetric])
  ultimately have drop: "drop_entries [snapshotIndex rf..index - 1] (log rf) = Ret ?lg"
    using drop_entries_ok [OF D(1) si assms(2)] by (metis append.assoc)
  show ?thesis
  proof (cases "length (log rf) \<le> ?n")
    case True
    then have chg: chg using assms(2,4) D(1) by auto
    let ?lg' = "replicate ?n None @ [Some \<lparr>Term = trm, Cmd = None\<rparr>]"
    let ?rf = "rf\<lparr>log := ?lg', snapshot := ss, snapshotIndex := index, commitIdx := index, appliedIdx := index\<rparr>"
    have wf: "raft_wf ?rf"
      using assms(2) D(1) by (auto simp: raft_wf_def nth_append)
    have "doInstallSnapshot index trm ss chg rf = persist ?rf"
      using True chg assms(2) D(1) by (simp add: doInstallSnapshot_def drop Let_def)
    then show ?thesis
      using persist_ok [OF wf] True chg by (simp add: persist_wf [OF wf] nth_append)
  next
    case False
    then obtain e where e: "log rf ! ?n = Some e"
      using D(3) [of ?n] assms(2) D(1) by auto
    let ?lg' = "?lg[?n := Some (e\<lparr>Term := trm\<rparr>)]"
    let ?rf = "if chg then rf\<lparr>log := ?lg', snapshot := ss, snapshotIndex := index, commitIdx := index, appliedIdx := index\<rparr>
      else rf\<lparr>log := ?lg', snapshot := ss, snapshotIndex := index\<rparr>"
    have len: "length ?lg = length (log rf)" using False by simp
    have nth: "?lg' ! i = None \<longleftrightarrow> int i < index" if "i < length (log rf)" for i
      using that False D(1) D(3) [of i] assms(2) by (auto simp: nth_append nth_list_update split: if_splits)
    have wf: "raft_wf ?rf"
      using assms(2,3) D False nth len by (auto simp: raft_wf_def)
    have "doInstallSnapshot index trm ss chg rf = persist ?rf"
      using False e assms(2) D(1) len
      by (auto simp: doInstallSnapshot_def drop Let_def nthl_def updl_def deref_def nth_append)
    moreover have "drop (?n + 1) ?lg' = drop (?n + 1) (log rf)"
      using False by (simp add: drop_update_cancel)
    ultimately show ?thesis
      using persist_ok [OF wf] False len by (auto simp: persist_wf [OF wf] nth_append)
  qed
qed

subsection \<open>The handlers\<close>

definition last_entry :: "'c Raft \<Rightarrow> 'c LogEntry" where
  "last_entry rf = the (log rf ! (length (log rf) - 1))"

definition recent :: "int \<Rightarrow> int \<Rightarrow> 'c Raft \<Rightarrow> bool" where
  "recent oi ot rf \<longleftrightarrow> Term (last_entry rf) < ot \<or>
     Term (last_entry rf) = ot \<and> int (length (log rf)) - 1 \<le> oi"

lemma otherIsRecent_wf: "raft_wf rf \<Longrightarrow> otherIsRecent oi ot rf = Ret (recent oi ot rf)"
  using last_entry_wf [of rf] otherIsRecent_ok [of rf] by (fastforce simp: recent_def last_entry_def)

lemma raft_wf_votedFor [simp]: "raft_wf (rf\<lparr>votedFor := v\<rparr>) = raft_wf rf"
  "raft_wf (rf\<lparr>ts := t\<rparr>) = raft_wf rf" "raft_wf (rf\<lparr>st := x\<rparr>) = raft_wf rf"
  "raft_wf (rf\<lparr>term := t\<rparr>) = raft_wf rf" "raft_wf (rf\<lparr>persisted := p\<rparr>) = raft_wf rf"
  by (simp_all add: raft_wf_def)

lemma persist_set:
  assumes "raft_wf rf"
  shows "persist rf = Ret (rf\<lparr>persisted := Some (encoded rf)\<rparr>)" "raft_ok (rf\<lparr>persisted := Some (encoded rf)\<rparr>)"
  using assms by (simp_all add: persist_wf raft_ok_def saved_def encoded_def)

lemma recent_cong: "log rf' = log rf \<Longrightarrow> recent oi ot rf' = recent oi ot rf"
  by (simp add: recent_def last_entry_def)

lemma RequestVote_ok:
  fixes rf :: "'c Raft" and args :: RequestVoteArgs
  defines "t \<equiv> max (rva_Term args) (term rf)"
    and "vf \<equiv> (if term rf < rva_Term args then - 1 else votedFor rf)"
  defines "grant \<equiv> rva_Term args = t \<and> recent (rva_LastLogIndex args) (rva_LastLogTerm args) rf \<and>
    (vf = - 1 \<or> vf = rva_CandidateId args)"
  assumes ok: "raft_ok rf"
  shows "returns (RequestVote now args rf) (\<lambda>(rep, rf'). raft_ok rf' \<and>
    rep = \<lparr>rvr_Term = t, VoteGranted = grant\<rparr> \<and> term rf' = t \<and>
    votedFor rf' = (if grant then rva_CandidateId args else vf) \<and>
    st rf' = (if term rf < rva_Term args then follower else st rf) \<and>
    log rf' = log rf \<and> commitIdx rf' = commitIdx rf \<and> me rf' = me rf \<and> npeers rf' = npeers rf)"
proof -
  obtain r rf1 where m: "msgCommon (rva_Term args) rf = Ret (r, rf1)" and ok1: "raft_ok rf1"
    and r: "r = (rva_Term args \<le> term rf)" and f1: "term rf1 = t" "votedFor rf1 = votedFor rf" "log rf1 = log rf"
      "commitIdx rf1 = commitIdx rf" "me rf1 = me rf" "npeers rf1 = npeers rf"
      "st rf1 = (if rva_Term args \<le> term rf then st rf else follower)"
    using msgCommon_ok [OF ok, of "rva_Term args"] by (auto simp: returns_iff t_def)
  have wf1: "raft_wf rf1" using ok1 by (simp add: raft_ok_def)
  define rf2 where "rf2 = (if r then rf1 else rf1\<lparr>votedFor := - 1, persisted := Some (encoded (rf1\<lparr>votedFor := - 1\<rparr>))\<rparr>)"
  have step2: "(if \<not> r then persist (rf1\<lparr>votedFor := - 1\<rparr>) else Ret rf1) = Ret rf2" and ok2: "raft_ok rf2"
    using persist_set [of "rf1\<lparr>votedFor := - 1\<rparr>"] wf1 ok1 by (simp_all add: rf2_def)
  have f2: "term rf2 = t" "votedFor rf2 = vf" "log rf2 = log rf" "commitIdx rf2 = commitIdx rf" "me rf2 = me rf"
    "npeers rf2 = npeers rf" "st rf2 = st rf1"
    using f1 r by (simp_all add: rf2_def vf_def)
  have wf2: "raft_wf rf2" using ok2 by (simp add: raft_ok_def)
  note p3 = persist_set [of "rf2\<lparr>ts := now, votedFor := rva_CandidateId args\<rparr>"]
  show ?thesis
    unfolding RequestVote_def m outcome_bind.simps prod.case step2 Let_def otherIsRecent_wf [OF wf2]
      recent_cong [of rf2 rf, OF f2(3)]
    using p3 wf2 ok2 f2 f1(7) by (auto simp: grant_def t_def)
qed

lemma raft_wf_log_update:
  assumes "raft_wf rf" "snapshotIndex rf < int n" "n \<le> length (log rf)"
  shows "raft_wf (rf\<lparr>log := take n (log rf) @ map Some es\<rparr>)"
proof -
  have "(take n (log rf) @ map Some es) ! i = None \<longleftrightarrow> int i < snapshotIndex rf"
    if "i < length (take n (log rf) @ map Some es)" for i
    using that assms raft_wfD(3) [OF assms(1), of i] by (auto simp: nth_append)
  with assms show ?thesis by (simp add: raft_wf_def)
qed

text \<open>What a follower's log and commit index become when it accepts the entries of a leader.\<close>

definition ae_log :: "'c AppendEntriesArgs \<Rightarrow> 'c Raft \<Rightarrow> 'c LogEntry option list" where
  "ae_log args rf = take (nat (aea_LastLogIndex args + 1)) (log rf) @ map Some (aea_Entries args)"

definition ae_commit :: "'c AppendEntriesArgs \<Rightarrow> 'c Raft \<Rightarrow> int" where
  "ae_commit args rf =
     (if commitIdx rf < aea_LeaderCommitIdx args
      then min (int (length (ae_log args rf)) - 1) (aea_LeaderCommitIdx args) else commitIdx rf)"

definition ae_match :: "'c AppendEntriesArgs \<Rightarrow> 'c Raft \<Rightarrow> bool" where
  "ae_match args rf \<longleftrightarrow> term rf \<le> aea_Term args \<and> aea_LastLogIndex args < int (length (log rf)) \<and>
     (\<exists>e. log rf ! nat (aea_LastLogIndex args) = Some e \<and> Term e = aea_LastLogTerm args)"

lemma AppendEntries_match_ok:
  fixes rf :: "'c Raft" and args :: "'c AppendEntriesArgs"
  assumes ok: "raft_ok rf" and lli: "0 \<le> aea_LastLogIndex args" and match: "ae_match args rf"
  shows "returns (AppendEntries now args rf) (\<lambda>(rep, rf'). raft_ok rf' \<and>
    rep = \<lparr>aer_Term = aea_Term args, Success = True, XTerm = - 1, XIndex = - 1, XLen = - 1\<rparr> \<and>
    term rf' = aea_Term args \<and> votedFor rf' = votedFor rf \<and> st rf' = follower \<and>
    log rf' = ae_log args rf \<and> commitIdx rf' = ae_commit args rf \<and> me rf' = me rf \<and> npeers rf' = npeers rf \<and>
    disam rf' = disam rf @ map (cmd_msg (ae_log args rf)) [appliedIdx rf + 1..ae_commit args rf])"
proof -
  let ?n = "nat (aea_LastLogIndex args + 1)"
  let ?es = "aea_Entries args"
  obtain r rf1 where m: "msgCommon (aea_Term args) rf = Ret (r, rf1)" and ok1: "raft_ok rf1"
    and f1: "term rf1 = aea_Term args" "votedFor rf1 = votedFor rf" "log rf1 = log rf" "appliedIdx rf1 = appliedIdx rf"
      "commitIdx rf1 = commitIdx rf" "me rf1 = me rf" "npeers rf1 = npeers rf" "disam rf1 = disam rf"
    using msgCommon_ok [OF ok, of "aea_Term args"] match by (auto simp: returns_iff ae_match_def)
  define rf2 where "rf2 = rf1\<lparr>ts := now, st := follower\<rparr>"
  have ok2: "raft_ok rf2" using ok1 by (simp add: rf2_def)
  then have wf2: "raft_wf rf2" by (simp add: raft_ok_def)
  obtain e where e: "log rf2 ! nat (aea_LastLogIndex args) = Some e" "Term e = aea_LastLogTerm args"
    and len: "aea_LastLogIndex args < int (length (log rf2))"
    using match by (auto simp: ae_match_def rf2_def f1)
  have si: "snapshotIndex rf2 < int ?n" and n: "?n \<le> length (log rf2)"
    using raft_wfD(3) [OF wf2, of "nat (aea_LastLogIndex args)"] e(1) len lli by (auto simp: nat_less_iff)
  obtain rf3 where s3: "(if aea_LastLogIndex args + 1 < int (length (log rf2))
      then persist (rf2\<lparr>log := take ?n (log rf2)\<rparr>) else Ret rf2) = Ret rf3"
    and ok3: "raft_ok rf3" and f3: "rf3 = rf2\<lparr>log := take ?n (log rf2), persisted := persisted rf3\<rparr>"
  proof (cases "aea_LastLogIndex args + 1 < int (length (log rf2))")
    case True
    then show ?thesis
      using that persist_set [OF raft_wf_log_update [OF wf2 si n, of "[]"]] by simp
  next
    case False
    with n lli have "take ?n (log rf2) = log rf2" by simp
    with False that [of rf2] ok2 show ?thesis by simp
  qed
  have log3: "log rf3 = take ?n (log rf2)" "snapshotIndex rf3 = snapshotIndex rf2"
    by (subst f3, simp)+
  have wf3: "raft_wf rf3" using ok3 by (simp add: raft_ok_def)
  obtain rf4 where s4: "(if ?es \<noteq> [] then persist (rf3\<lparr>log := log rf3 @ map Some ?es\<rparr>) else Ret rf3) = Ret rf4"
    and ok4: "raft_ok rf4" and f4: "rf4 = rf2\<lparr>log := ae_log args rf, persisted := persisted rf4\<rparr>"
  proof (cases "?es = []")
    case True
    with that [of rf3] ok3 f3 show ?thesis by (simp add: ae_log_def rf2_def f1)
  next
    case False
    have "raft_wf (rf3\<lparr>log := log rf3 @ map Some ?es\<rparr>)"
      using raft_wf_log_update [OF wf3, of "length (log rf3)" ?es] raft_wfD(2) [OF wf3] by simp
    note p = persist_set [OF this]
    have "rf3\<lparr>log := log rf3 @ map Some ?es\<rparr> = rf2\<lparr>log := ae_log args rf, persisted := persisted rf3\<rparr>"
      by (subst f3) (simp add: log3 ae_log_def rf2_def f1)
    with p False that show ?thesis by simp
  qed
  have g4: "log rf4 = ae_log args rf" "commitIdx rf4 = commitIdx rf" "appliedIdx rf4 = appliedIdx rf"
    "snapshotIndex rf4 = snapshotIndex rf2" "disam rf4 = disam rf" "term rf4 = aea_Term args"
    "votedFor rf4 = votedFor rf" "st rf4 = follower" "me rf4 = me rf" "npeers rf4 = npeers rf"
    by (subst f4, simp add: rf2_def f1)+
  have wf4: "raft_wf rf4" using ok4 by (simp add: raft_ok_def)
  note D4 = raft_wfD [OF wf4]
  define rf5 where "rf5 = rf4\<lparr>commitIdx := ae_commit args rf, appliedIdx := ae_commit args rf,
    disam := disam rf @ map (cmd_msg (ae_log args rf)) [appliedIdx rf + 1..ae_commit args rf]\<rparr>"
  have s5: "(if commitIdx rf4 < aea_LeaderCommitIdx args
      then applyOutstanding (if int (length (log rf4)) - 1 < aea_LeaderCommitIdx args
             then rf4\<lparr>commitIdx := int (length (log rf4)) - 1\<rparr>
             else rf4\<lparr>commitIdx := aea_LeaderCommitIdx args\<rparr>)
      else Ret rf4) = Ret rf5"
  proof (cases "commitIdx rf4 < aea_LeaderCommitIdx args")
    case True
    let ?rf = "rf4\<lparr>commitIdx := ae_commit args rf\<rparr>"
    have "raft_wf (?rf\<lparr>commitIdx := appliedIdx ?rf\<rparr>)"
      using wf4 by (simp add: raft_wf_def)
    moreover have "commitIdx ?rf < int (length (log ?rf))"
      using True D4(1,2) g4(1,2) by (auto simp: ae_commit_def min_def)
    ultimately have "applyOutstanding ?rf = Ret rf5"
      by (subst applyOutstanding_ok) (simp_all add: rf5_def g4)
    moreover have "?rf = (if int (length (log rf4)) - 1 < aea_LeaderCommitIdx args
        then rf4\<lparr>commitIdx := int (length (log rf4)) - 1\<rparr> else rf4\<lparr>commitIdx := aea_LeaderCommitIdx args\<rparr>)"
      using True g4(1,2) by (simp add: ae_commit_def min_def)
    ultimately show ?thesis using True by simp
  next
    case False
    then have "ae_commit args rf = commitIdx rf4" "appliedIdx rf4 = commitIdx rf4"
      using g4(2) D4(5) by (simp_all add: ae_commit_def)
    with False g4 show ?thesis by (simp add: rf5_def)
  qed
  have ok5: "raft_ok rf5"
    using ok4 D4 g4 by (auto simp: raft_ok_def raft_wf_def saved_def encoded_def rf5_def ae_commit_def)
  have run: "AppendEntries now args rf = Ret (\<lparr>aer_Term = aea_Term args, Success = True, XTerm = - 1, XIndex = - 1,
      XLen = - 1\<rparr>, rf5)"
    unfolding AppendEntries_def m outcome_bind.simps prod.case Let_def f1(1) rf2_def [symmetric]
    using e len lli s3 s4 s5 by (simp add: nthl_def)
  show ?thesis
    unfolding run using ok5 by (simp add: rf5_def g4)
qed

lemma AppendEntries_mismatch_ok:
  fixes rf :: "'c Raft" and args :: "'c AppendEntriesArgs"
  assumes ok: "raft_ok rf" and lli: "0 \<le> aea_LastLogIndex args" and match: "\<not> ae_match args rf"
  shows "returns (AppendEntries now args rf) (\<lambda>(rep, rf'). raft_ok rf' \<and> \<not> Success rep \<and>
    aer_Term rep = term rf' \<and> term rf' = max (aea_Term args) (term rf) \<and> votedFor rf' = votedFor rf \<and>
    log rf' = log rf \<and> commitIdx rf' = commitIdx rf \<and> disam rf' = disam rf \<and>
    (term rf \<le> aea_Term args \<longrightarrow> st rf' = follower) \<and> (aea_Term args < term rf \<longrightarrow> st rf' = st rf) \<and>
    me rf' = me rf \<and> npeers rf' = npeers rf)"
proof -
  obtain r rf1 where m: "msgCommon (aea_Term args) rf = Ret (r, rf1)" and ok1: "raft_ok rf1"
    and f1: "term rf1 = max (aea_Term args) (term rf)" "votedFor rf1 = votedFor rf" "log rf1 = log rf"
      "commitIdx rf1 = commitIdx rf" "me rf1 = me rf" "npeers rf1 = npeers rf" "disam rf1 = disam rf"
      "aea_Term args < term rf \<longrightarrow> st rf1 = st rf"
    using msgCommon_ok [OF ok, of "aea_Term args"] by (auto simp: returns_iff)
  show ?thesis
    unfolding AppendEntries_def m outcome_bind.simps prod.case Let_def
    using f1 ok1 match lli
    by (cases "log rf ! nat (aea_LastLogIndex args)") (auto simp: ae_match_def nthl_def)
qed

subsection \<open>Every operation keeps the invariant\<close>

text \<open>
  The atomic sections of a server. The conditions under which one may run are in \<open>ev_enabled\<close>:
  replies come from peers of a server that has been a leader, a heartbeat needs the indices of
  the next entries to lie in the log, and the service takes snapshots of what it has applied.
\<close>

datatype 'c raft_ev =
    EvRequestVote int RequestVoteArgs
  | EvAppendEntries int "'c AppendEntriesArgs"
  | EvInstallSnapshot int InstallSnapshotArgs
  | EvStart 'c
  | EvSnapshot int string
  | EvCondInstallSnapshot int int string
  | EvSleep int
  | EvWake int
  | EvCandidate
  | EvBallotReply RequestVoteReply voteCounter
  | EvPoll voteCounter
  | EvHeartbeat int
  | EvAEReply int "'c AppendEntriesArgs" AppendEntriesReply
  | EvISReply int InstallSnapshotArgs InstallSnapshotReply
  | EvRvwCommits

fun raft_exec :: "'c raft_ev \<Rightarrow> 'c Raft \<Rightarrow> 'c Raft outcome" where
  "raft_exec (EvRequestVote now args) rf = outcome_bind (RequestVote now args rf) (\<lambda>r. Ret (snd r))"
| "raft_exec (EvAppendEntries now args) rf = outcome_bind (AppendEntries now args rf) (\<lambda>r. Ret (snd r))"
| "raft_exec (EvInstallSnapshot now args) rf = outcome_bind (InstallSnapshot now args rf) (\<lambda>r. Ret (snd r))"
| "raft_exec (EvStart c) rf = outcome_bind (Start c rf) (\<lambda>r. Ret (snd r))"
| "raft_exec (EvSnapshot i ss) rf = Snapshot i ss rf"
| "raft_exec (EvCondInstallSnapshot t i ss) rf = outcome_bind (CondInstallSnapshot t i ss rf) (\<lambda>r. Ret (snd r))"
| "raft_exec (EvSleep now) rf = Ret (snd (ticker_sleep now rf))"
| "raft_exec (EvWake t) rf = Ret (snd (ticker_wake t rf))"
| "raft_exec EvCandidate rf = candidate_round rf"
| "raft_exec (EvBallotReply rvr vc) rf = outcome_bind (ballot_reply rvr rf vc) (\<lambda>r. Ret (fst r))"
| "raft_exec (EvPoll vc) rf = Ret (snd (election_poll vc rf))"
| "raft_exec (EvHeartbeat now) rf = outcome_bind (doHeartbeat now rf) (\<lambda>r. Ret (snd r))"
| "raft_exec (EvAEReply j aea aer) rf = ae_reply j aea aer rf"
| "raft_exec (EvISReply j isa isr) rf = is_reply j isa isr rf"
| "raft_exec EvRvwCommits rf = outcome_bind (rvwCommits_round rf) (\<lambda>r. Ret (snd r))"

definition tracks_peers :: "'c Raft \<Rightarrow> bool" where
  "tracks_peers rf \<longleftrightarrow> length (atServer rf) = npeers rf \<and> length (nextForServer rf) = npeers rf"

fun ev_enabled :: "'c raft_ev \<Rightarrow> 'c Raft \<Rightarrow> bool" where
  "ev_enabled (EvAppendEntries now args) rf = (0 \<le> aea_LastLogIndex args)"
| "ev_enabled (EvSnapshot i ss) rf =
     (snapshotIndex rf \<le> i \<and> i \<le> appliedIdx rf \<and> i < int (length (log rf)))"
| "ev_enabled (EvCondInstallSnapshot t i ss) rf = (snapshotIndex rf \<le> i)"
| "ev_enabled (EvHeartbeat now) rf =
     (tracks_peers rf \<and> 0 \<le> me rf \<and> me rf < int (npeers rf) \<and>
      (\<forall>n \<in> set (nextForServer rf). 1 \<le> n \<and> n \<le> int (length (log rf))))"
| "ev_enabled (EvAEReply j aea aer) rf = (tracks_peers rf \<and> 0 \<le> j \<and> j < int (npeers rf))"
| "ev_enabled (EvISReply j isa isr) rf = (tracks_peers rf \<and> 0 \<le> j \<and> j < int (npeers rf))"
| "ev_enabled EvRvwCommits rf =
     (0 < npeers rf \<and> tracks_peers rf \<and> (\<forall>a \<in> set (atServer rf). a < int (length (log rf))))"
| "ev_enabled _ rf = True"

lemma Start_ok:
  assumes "raft_ok rf"
  shows "returns (Start c rf) (\<lambda>(r, rf'). raft_ok rf' \<and> term rf' = term rf \<and> votedFor rf' = votedFor rf \<and>
    st rf' = st rf \<and> me rf' = me rf \<and> npeers rf' = npeers rf \<and> commitIdx rf' = commitIdx rf \<and>
    (if st rf = leader
     then r = (int (length (log rf)), term rf, True) \<and> log rf' = log rf @ [Some \<lparr>Term = term rf, Cmd = Some c\<rparr>]
     else r = (- 1, - 1, False) \<and> rf' = rf))"
proof (cases "st rf = leader")
  case True
  have wf: "raft_wf rf" using assms by (simp add: raft_ok_def)
  have "raft_wf (rf\<lparr>log := log rf @ [Some \<lparr>Term = term rf, Cmd = Some c\<rparr>]\<rparr>)"
    using raft_wf_log_update [OF wf, of "length (log rf)" "[\<lparr>Term = term rf, Cmd = Some c\<rparr>]"] raft_wfD(2) [OF wf]
    by simp
  from persist_set [OF this] True show ?thesis by (simp add: Start_def)
qed (use assms in \<open>simp add: Start_def\<close>)

lemma deref_all_ok: "None \<notin> set ps \<Longrightarrow> deref_all ps = Ret (map the ps)"
proof (induction ps)
  case (Cons p ps)
  then show ?case by (cases p) (auto simp: deref_def)
qed simp

lemma heartbeat_peers_ok:
  assumes "raft_ok rf" "tracks_peers rf" "0 \<le> me rf" "me rf < int (npeers rf)"
    "\<forall>n \<in> set (nextForServer rf). 1 \<le> n \<and> n \<le> int (length (log rf))" "\<forall>i \<in> set is. i < npeers rf"
  shows "returns (heartbeat_peers is rf) (\<lambda>(hs, rf').
    rf' = rf\<lparr>atServer := atServer rf', nextForServer := nextForServer rf'\<rparr>)"
  using assms
proof (induction "is" arbitrary: rf)
  case (Cons i "is")
  have wf: "raft_wf rf" using Cons.prems(1) by (simp add: raft_ok_def)
  have len: "1 \<le> int (length (log rf))" using raft_wfD(1,2) [OF wf] by simp
  show ?case
  proof (cases "int i = me rf")
    case True
    let ?rf = "rf\<lparr>atServer := (atServer rf)[i := int (length (log rf)) - 1],
      nextForServer := (nextForServer rf)[i := int (length (log rf))]\<rparr>"
    have nx: "\<forall>n \<in> set (nextForServer ?rf). 1 \<le> n \<and> n \<le> int (length (log ?rf))"
      using Cons.prems(5) len set_update_subset_insert [of "nextForServer rf" i] by fastforce
    have "returns (heartbeat_peers is ?rf) (\<lambda>(hs, rf').
        rf' = ?rf\<lparr>atServer := atServer rf', nextForServer := nextForServer rf'\<rparr>)"
      by (rule Cons.IH) (use Cons.prems nx in \<open>auto simp: tracks_peers_def\<close>)
    moreover have "heartbeat_peer (int i) rf = Ret ([], ?rf)"
      using True [symmetric] Cons.prems(2-4) by (simp add: heartbeat_peer_def updl_def tracks_peers_def)
    ultimately show ?thesis by (auto simp: returns_iff)
  next
    case False
    let ?n = "nextForServer rf ! i"
    have i: "i < length (nextForServer rf)" using Cons.prems(2,6) by (simp add: tracks_peers_def)
    then have n: "1 \<le> ?n" "?n \<le> int (length (log rf))" using Cons.prems(5) nth_mem by blast+
    have hb: "\<exists>hs. heartbeat_peer (int i) rf = Ret (hs, rf)"
    proof (cases "log rf ! nat (?n - 1)")
      case None
      then show ?thesis
        using i n False entry_at_wf [OF wf, of "snapshotIndex rf"] raft_wfD(1,2) [OF wf]
        by (auto simp: heartbeat_peer_def nthl_def Let_def)
    next
      case (Some e)
      then have "snapshotIndex rf \<le> ?n - 1"
        using raft_wfD(3) [OF wf, of "nat (?n - 1)"] n by (auto simp: nat_less_iff)
      then have le: "nat (snapshotIndex rf) \<le> nat ?n" by simp
      then have "None \<notin> set (drop (nat ?n) (log rf))"
        using raft_wf_tail [OF wf] set_drop_subset_set_drop [OF le, of "log rf"] by blast
      from deref_all_ok [OF this] Some i n False show ?thesis
        by (auto simp: heartbeat_peer_def nthl_def Let_def)
    qed
    have "returns (heartbeat_peers is rf) (\<lambda>(hs, rf').
        rf' = rf\<lparr>atServer := atServer rf', nextForServer := nextForServer rf'\<rparr>)"
      by (rule Cons.IH) (use Cons.prems in auto)
    with hb show ?thesis by (auto simp: returns_iff)
  qed
qed simp

text \<open>
  How an atomic section other than a vote or the outcome of an election may move a server: the
  term does not go down, a leader or candidate of a term was one before, and a new term finds it
  a follower.
\<close>

definition quiet :: "'c Raft \<Rightarrow> 'c Raft \<Rightarrow> bool" where
  "quiet rf rf' \<longleftrightarrow> raft_ok rf' \<and> me rf' = me rf \<and> npeers rf' = npeers rf \<and> votedFor rf' = votedFor rf \<and>
     (term rf' = term rf \<and> (st rf' = st rf \<or> st rf' = follower) \<or> term rf < term rf' \<and> st rf' = follower)"

lemma quiet_msgCommon:
  assumes "raft_ok rf"
  shows "returns (msgCommon t rf) (\<lambda>(ok, rf'). quiet rf rf' \<and> ok = (t \<le> term rf) \<and>
    log rf' = log rf \<and> atServer rf' = atServer rf \<and> nextForServer rf' = nextForServer rf \<and>
    term rf' = max t (term rf))"
  by (rule returns_mono [OF msgCommon_ok [OF assms, of t]]) (auto simp: quiet_def max_def)

lemma updl_ok: "0 \<le> j \<Longrightarrow> j < int (length xs) \<Longrightarrow> updl xs j x = Ret (xs[nat j := x])"
  by (simp add: updl_def)

fun quiet_ev :: "'c raft_ev \<Rightarrow> bool" where
  "quiet_ev (EvRequestVote _ _) = False"
| "quiet_ev (EvWake _) = False"
| "quiet_ev EvCandidate = False"
| "quiet_ev (EvPoll _) = False"
| "quiet_ev _ = True"

lemma median_index_range: "0 < n \<Longrightarrow> 0 \<le> median_index n" "0 < n \<Longrightarrow> median_index n < int n"
  unfolding median_index_def by presburger+

lemma rvwCommits_quiet:
  assumes ok: "raft_ok rf" and en: "ev_enabled EvRvwCommits rf"
  shows "returns (rvwCommits_round rf) (\<lambda>r. quiet rf (snd r))"
proof (cases "st rf = leader")
  case True
  have wf: "raft_wf rf" using ok by (simp add: raft_ok_def)
  note D = raft_wfD [OF wf]
  let ?s = "sort (atServer rf)"
  let ?i = "median_index (length ?s)"
  have n: "0 < length ?s" using en by (simp add: tracks_peers_def)
  then have i: "0 \<le> ?i" "?i < int (length ?s)" by (rule median_index_range)+
  then have mem: "?s ! nat ?i \<in> set (atServer rf)" by (metis nat_less_iff nth_mem set_sort)
  then have lt: "?s ! nat ?i < int (length (log rf))" using en by simp
  have nth: "nthl ?s ?i = Ret (?s ! nat ?i)" using i by (simp add: nthl_def)
  show ?thesis
  proof (cases "commitIdx rf < ?s ! nat ?i")
    case False
    with True ok nth show ?thesis by (simp add: rvwCommits_round_def Let_def quiet_def)
  next
    case gt: True
    let ?rf = "rf\<lparr>commitIdx := ?s ! nat ?i\<rparr>"
    obtain e where e: "entry_at rf (?s ! nat ?i) = Ret e"
      using entry_at_wf [OF wf, of "?s ! nat ?i"] D gt lt by auto
    have "raft_wf (?rf\<lparr>commitIdx := appliedIdx ?rf\<rparr>)" using wf by (simp add: raft_wf_def)
    then have "applyOutstanding ?rf = Ret (?rf\<lparr>appliedIdx := commitIdx ?rf,
        disam := disam ?rf @ map (cmd_msg (log ?rf)) [appliedIdx ?rf + 1..commitIdx ?rf]\<rparr>)"
      using lt by (intro applyOutstanding_ok) simp_all
    moreover have "raft_wf (rf\<lparr>commitIdx := ?s ! nat ?i, appliedIdx := ?s ! nat ?i\<rparr>)"
      using wf gt D(4,5) by (simp add: raft_wf_def)
    ultimately show ?thesis
      using True ok nth e gt
      by (auto simp: rvwCommits_round_def Let_def quiet_def raft_ok_def saved_def encoded_def raft_wf_def)
  qed
qed (use ok in \<open>simp add: rvwCommits_round_def quiet_def\<close>)

lemma raft_exec_quiet:
  assumes ok: "raft_ok rf" and en: "ev_enabled e rf" and q: "quiet_ev e"
  shows "returns (raft_exec e rf) (quiet rf)"
proof -
  have wf: "raft_wf rf" using ok by (simp add: raft_ok_def)
  show ?thesis
  proof (cases e)
    case (EvAppendEntries now args)
    show ?thesis
    proof (cases "ae_match args rf")
      case True
      then have "returns (AppendEntries now args rf) (\<lambda>r. quiet rf (snd r))"
        by (intro returns_mono [OF AppendEntries_match_ok [OF ok]])
          (use en EvAppendEntries in \<open>auto simp: quiet_def ae_match_def\<close>)
      then show ?thesis by (simp add: EvAppendEntries)
    next
      case False
      then have "returns (AppendEntries now args rf) (\<lambda>r. quiet rf (snd r))"
        by (intro returns_mono [OF AppendEntries_mismatch_ok [OF ok]])
          (use en EvAppendEntries in \<open>auto simp: quiet_def max_def split: if_splits\<close>)
      then show ?thesis by (simp add: EvAppendEntries)
    qed
  next
    case (EvInstallSnapshot now args)
    then show ?thesis
      using quiet_msgCommon [OF ok, of "isa_Term args"]
      by (auto simp: InstallSnapshot_def Let_def returns_iff quiet_def)
  next
    case (EvStart c)
    have "returns (Start c rf) (\<lambda>r. quiet rf (snd r))"
      by (rule returns_mono [OF Start_ok [OF ok]]) (auto simp: quiet_def)
    then show ?thesis by (simp add: EvStart)
  next
    case (EvSnapshot i ss)
    obtain x where "entry_at rf i = Ret x" using entry_at_wf [OF wf, of i] en EvSnapshot by auto
    moreover have "returns (doInstallSnapshot i t ss False rf) (quiet rf)" for t
      by (rule returns_mono [OF doInstallSnapshot_ok [OF wf]]) (use en EvSnapshot in \<open>auto simp: quiet_def\<close>)
    ultimately show ?thesis by (simp add: EvSnapshot Snapshot_def)
  next
    case (EvCondInstallSnapshot t i ss)
    have "returns (doInstallSnapshot i t ss True rf) (quiet rf)"
      by (rule returns_mono [OF doInstallSnapshot_ok [OF wf]])
        (use en EvCondInstallSnapshot in \<open>auto simp: quiet_def\<close>)
    then show ?thesis
      using ok by (auto simp: EvCondInstallSnapshot CondInstallSnapshot_def otherIsRecent_wf [OF wf] quiet_def returns_iff)
  next
    case (EvSleep now)
    then show ?thesis using ok by (auto simp: ticker_sleep_def Let_def quiet_def)
  next
    case (EvBallotReply rvr vc)
    then show ?thesis
      using quiet_msgCommon [OF ok, of "rvr_Term rvr"] by (auto simp: ballot_reply_def returns_iff)
  next
    case (EvHeartbeat now)
    have "returns (heartbeat_peers [0..<npeers rf] (rf\<lparr>ts := now\<rparr>)) (\<lambda>r. quiet rf (snd r))"
    proof (rule returns_mono [OF heartbeat_peers_ok])
      fix x :: "'a heartbeat list \<times> 'a Raft"
      assume "case x of (hs, rf') \<Rightarrow> rf' = rf\<lparr>ts := now, atServer := atServer rf', nextForServer := nextForServer rf'\<rparr>"
      then obtain hs as ns where "x = (hs, rf\<lparr>ts := now, atServer := as, nextForServer := ns\<rparr>)"
        by (cases x) auto
      then show "quiet rf (snd x)" using ok by (simp add: quiet_def)
    qed (use en ok EvHeartbeat in \<open>auto simp: tracks_peers_def\<close>)
    then show ?thesis by (simp add: EvHeartbeat doHeartbeat_def)
  next
    case (EvAEReply j aea aer)
    have j: "0 \<le> j" "j < int (length (atServer rf))" "j < int (length (nextForServer rf))"
      using en EvAEReply by (auto simp: tracks_peers_def)
    show ?thesis
      using quiet_msgCommon [OF ok, of "aer_Term aer"] j
      by (auto simp: EvAEReply ae_reply_def Let_def returns_iff quiet_def updl_ok)
  next
    case (EvISReply j isa isr)
    have j: "0 \<le> j" "j < int (length (nextForServer rf))"
      using en EvISReply by (auto simp: tracks_peers_def)
    show ?thesis
      using quiet_msgCommon [OF ok, of "isr_Term isr"] j
      by (auto simp: EvISReply is_reply_def Let_def returns_iff quiet_def updl_ok)
  next
    case EvRvwCommits
    then show ?thesis using rvwCommits_quiet [OF ok] en by simp
  qed (use q in simp_all)
qed

lemma candidate_round_ok:
  assumes "raft_ok rf"
  shows "returns (candidate_round rf) (\<lambda>rf'. raft_ok rf' \<and> term rf' = term rf + 1 \<and> votedFor rf' = me rf \<and>
    st rf' = candidate \<and> me rf' = me rf \<and> npeers rf' = npeers rf \<and> log rf' = log rf)"
proof -
  have "raft_wf (rf\<lparr>st := candidate, votedFor := me rf, term := term rf + 1\<rparr>)"
    using assms by (simp add: raft_ok_def raft_wf_def)
  from persist_set [OF this] show ?thesis by (simp add: candidate_round_def)
qed

lemma raft_exec_ok:
  assumes ok: "raft_ok rf" and en: "ev_enabled e rf"
  shows "returns (raft_exec e rf) (\<lambda>rf'. raft_ok rf' \<and> term rf \<le> term rf' \<and> me rf' = me rf \<and> npeers rf' = npeers rf)"
proof (cases "quiet_ev e")
  case True
  show ?thesis
    by (rule returns_mono [OF raft_exec_quiet [OF ok en True]]) (auto simp: quiet_def)
next
  case False
  then show ?thesis
  proof (cases e)
    case (EvRequestVote now args)
    then show ?thesis using RequestVote_ok [OF ok, of now args] by (auto simp: returns_iff)
  next
    case EvCandidate
    then show ?thesis using candidate_round_ok [OF ok] by (auto simp: returns_iff)
  next
    case (EvPoll vc)
    then show ?thesis using ok by (auto simp: election_poll_def Let_def leaderInit_def)
  next
    case (EvWake t)
    then show ?thesis using ok by (auto simp: ticker_wake_def)
  qed simp_all
qed

text \<open>Sequences of atomic sections.\<close>

fun raft_run :: "'c raft_ev list \<Rightarrow> 'c Raft \<Rightarrow> 'c Raft outcome" where
  "raft_run [] rf = Ret rf"
| "raft_run (e # es) rf = outcome_bind (raft_exec e rf) (raft_run es)"

fun evs_enabled :: "'c raft_ev list \<Rightarrow> 'c Raft \<Rightarrow> bool" where
  "evs_enabled [] rf = True"
| "evs_enabled (e # es) rf =
     (ev_enabled e rf \<and> (case raft_exec e rf of Ret rf' \<Rightarrow> evs_enabled es rf' | Fatal _ \<Rightarrow> True))"

lemma raft_run_ok:
  "raft_ok rf \<Longrightarrow> evs_enabled es rf \<Longrightarrow> returns (raft_run es rf) (\<lambda>rf'. raft_ok rf' \<and> term rf \<le> term rf')"
proof (induction es arbitrary: rf)
  case (Cons e es)
  obtain rf1 where rf1: "raft_exec e rf = Ret rf1" "raft_ok rf1" "term rf \<le> term rf1"
    using raft_exec_ok [of rf e] Cons.prems by (auto simp: returns_iff)
  have "returns (raft_run es rf1) (\<lambda>rf'. raft_ok rf' \<and> term rf1 \<le> term rf')"
    by (rule Cons.IH) (use Cons.prems rf1 in auto)
  then have "returns (raft_run es rf1) (\<lambda>rf'. raft_ok rf' \<and> term rf \<le> term rf')"
    by (rule returns_mono) (use rf1(3) in auto)
  with rf1 show ?case by simp
qed simp

lemma Make_fresh: "Make i n None = Ret \<lparr>me = i, npeers = n, persisted = None, term = 0, votedFor = - 1,
    st = follower, ts = 0, log = [Some \<lparr>Term = 0, Cmd = None\<rparr>], commitIdx = 0, appliedIdx = 0, disam = [],
    nextForServer = [], atServer = [], msgFlag = False, snapshot = [], snapshotIndex = 0\<rparr>"
  by (simp add: Make_def readPersist_def)

lemma raft_ok_fresh: "Make i n None = Ret rf \<Longrightarrow> raft_ok rf"
  by (auto simp: Make_fresh raft_ok_def raft_wf_def saved_def)

lemma Make_restores:
  assumes "raft_ok rf"
  shows "returns (Make i n (persisted rf)) (\<lambda>rf'. raft_ok rf' \<and> persisted rf' = persisted rf \<and>
    term rf' = term rf \<and> votedFor rf' = votedFor rf \<and> log rf' = log rf \<and> snapshot rf' = snapshot rf \<and>
    snapshotIndex rf' = snapshotIndex rf \<and> commitIdx rf' = snapshotIndex rf \<and> st rf' = follower \<and>
    me rf' = i \<and> npeers rf' = n)"
proof -
  have wf: "raft_wf rf" and "saved rf" using assms by (auto simp: raft_ok_def)
  note D = raft_wfD [OF wf]
  from \<open>saved rf\<close> consider (new) "persisted rf = None" "term rf = 0" "votedFor rf = - 1"
      "log rf = [Some \<lparr>Term = 0, Cmd = None\<rparr>]" "snapshotIndex rf = 0" "snapshot rf = []"
    | (old) "persisted rf = Some (encoded rf)"
    by (auto simp: saved_def)
  then show ?thesis
  proof cases
    case new
    then show ?thesis by (simp add: Make_fresh raft_ok_def raft_wf_def saved_def)
  next
    case old
    let ?n = "nat (snapshotIndex rf)"
    have "map Some (map the (drop ?n (log rf))) = drop ?n (log rf)"
      by (rule map_Some_the [OF raft_wf_tail [OF wf]])
    moreover have "take ?n (log rf) = replicate ?n None"
      using D(1-3) by (intro nth_equalityI) auto
    ultimately have lg: "replicate ?n None @ map Some (map the (drop ?n (log rf))) = log rf"
      by (metis append_take_drop_id)
    have at: "log rf ! ?n \<noteq> None" using D(1,2) D(3) [of ?n] by auto
    have prev: "log rf ! (?n - Suc 0) = None" if "0 < snapshotIndex rf"
    proof -
      have "?n - Suc 0 < length (log rf)" "int (?n - Suc 0) < snapshotIndex rf" using D(2) that by auto
      with D(3) show ?thesis by blast
    qed
    let ?rf = "\<lparr>me = i, npeers = n, persisted = persisted rf, term = term rf, votedFor = votedFor rf,
      st = follower, ts = 0, log = log rf, commitIdx = snapshotIndex rf, appliedIdx = snapshotIndex rf,
      disam = [], nextForServer = [], atServer = [], msgFlag = False, snapshot = snapshot rf,
      snapshotIndex = snapshotIndex rf\<rparr>"
    have "0 < snapshotIndex rf \<Longrightarrow> nthl (log rf) (snapshotIndex rf - 1) = Ret None"
      using prev D(1,2) by (simp add: nthl_def nat_diff_distrib)
    moreover have "nthl (log rf) (snapshotIndex rf) = Ret (log rf ! ?n)"
      using D(1,2) by (simp add: nthl_def)
    ultimately have "Make i n (persisted rf) = Ret ?rf"
      unfolding Make_def readPersist_def old using lg D(1) at by (auto simp: encoded_def Let_def)
    moreover have "raft_ok ?rf"
      using wf old by (simp add: raft_ok_def raft_wf_def saved_def encoded_def)
    ultimately show ?thesis by simp
  qed
qed

subsection \<open>Properties\<close>


definition witness_server :: "string Raft" where
  "witness_server = \<lparr>me = 0, npeers = 3, persisted = None, term = 0, votedFor = - 1,
    st = follower, ts = 0, log = [Some \<lparr>Term = 0, Cmd = None\<rparr>], commitIdx = 0, appliedIdx = 0, disam = [],
    nextForServer = [], atServer = [], msgFlag = False, snapshot = [], snapshotIndex = 0\<rparr>"

definition witness_events :: "string raft_ev list" where
  "witness_events =
     [EvWake 0, EvCandidate, EvPoll \<lparr>votes = 2, killed = False\<rparr>, EvStart ''a'', EvHeartbeat 5,
      EvAEReply 1 \<lparr>aea_Term = 1, aea_LeaderId = 0, aea_LastLogIndex = 0, aea_LastLogTerm = 0,
        aea_Entries = [\<lparr>Term = 1, Cmd = Some ''a''\<rparr>], aea_LeaderCommitIdx = 0\<rparr>
        \<lparr>aer_Term = 1, Success = True, XTerm = - 1, XIndex = - 1, XLen = - 1\<rparr>,
      EvRvwCommits, EvSnapshot 1 ''s'']"

lemmas raft_exec_defs = ticker_wake_def candidate_round_def persist_def SaveRaftState_def election_poll_def
  getVotes_def leaderInit_def Start_def doHeartbeat_def heartbeat_peer_def nthl_def updl_def deref_def
  ae_reply_def msgCommon_def rvwCommits_round_def median_index_def applyOutstanding_def Snapshot_def
  doInstallSnapshot_def Let_def


text \<open>
  C18: the vote. A server that is in a state it can be in answers a ballot of term \<open>T\<close> with the
  larger of the terms and grants it exactly when the ballot is of that term, the candidate's log
  is at least as recent as its own, and it has not voted for anyone else in this term; it
  remembers the vote, and a ballot changes neither its log nor its commit index.
\<close>

theorem RequestVote_grants:
  fixes rf :: "'c Raft" and args :: RequestVoteArgs
  defines "t \<equiv> max (rva_Term args) (term rf)"
    and "vf \<equiv> (if term rf < rva_Term args then - 1 else votedFor rf)"
  defines "grant \<equiv> rva_Term args = t \<and> recent (rva_LastLogIndex args) (rva_LastLogTerm args) rf \<and>
    (vf = - 1 \<or> vf = rva_CandidateId args)"
  assumes "raft_ok rf"
  shows "\<exists>rf'. RequestVote now args rf = Ret (\<lparr>rvr_Term = t, VoteGranted = grant\<rparr>, rf') \<and> raft_ok rf' \<and>
    term rf' = t \<and> votedFor rf' = (if grant then rva_CandidateId args else vf) \<and>
    log rf' = log rf \<and> commitIdx rf' = commitIdx rf"
  using RequestVote_ok [OF assms(4), of now args] unfolding t_def vf_def grant_def returns_iff by blast

theorem RequestVote_grants_witness:
  "\<exists>rf'. RequestVote 9 \<lparr>rva_Term = 1, rva_CandidateId = 2, rva_LastLogIndex = 0, rva_LastLogTerm = 0\<rparr> witness_server
      = Ret (\<lparr>rvr_Term = 1, VoteGranted = True\<rparr>, rf') \<and> votedFor rf' = 2"
proof -
  have "raft_ok witness_server"
    by (simp add: witness_server_def raft_ok_def raft_wf_def saved_def)
  from RequestVote_grants [OF this, of 9 "\<lparr>rva_Term = 1, rva_CandidateId = 2, rva_LastLogIndex = 0, rva_LastLogTerm = 0\<rparr>"]
  show ?thesis
    by (auto simp: witness_server_def recent_def last_entry_def)
qed

text \<open>
  C19: a follower accepts the entries of a leader exactly when the leader's term is not old and its
  own log has the entry before them with the same term; then its log is its own up to that entry
  followed by the leader's entries, the commit index follows the leader's as far as the log goes,
  and the newly committed commands are delivered in order, each once. Otherwise it refuses and
  its log and commit index stay.
\<close>

theorem AppendEntries_accepts:
  fixes rf :: "'c Raft" and args :: "'c AppendEntriesArgs"
  assumes "raft_ok rf" and "0 \<le> aea_LastLogIndex args"
  shows "\<exists>rep rf'. AppendEntries now args rf = Ret (rep, rf') \<and> raft_ok rf' \<and>
    Success rep = ae_match args rf \<and> aer_Term rep = max (aea_Term args) (term rf) \<and> votedFor rf' = votedFor rf \<and>
    log rf' = (if ae_match args rf then ae_log args rf else log rf) \<and>
    commitIdx rf' = (if ae_match args rf then ae_commit args rf else commitIdx rf) \<and>
    disam rf' = (if ae_match args rf
      then disam rf @ map (cmd_msg (ae_log args rf)) [appliedIdx rf + 1..ae_commit args rf] else disam rf)"
proof (cases "ae_match args rf")
  case True
  then have "term rf \<le> aea_Term args" by (simp add: ae_match_def)
  with True AppendEntries_match_ok [OF assms True, of now] show ?thesis
    by (auto simp: returns_iff)
next
  case False
  with AppendEntries_mismatch_ok [OF assms False, of now] show ?thesis
    by (fastforce simp: returns_iff)
qed

theorem AppendEntries_accepts_witness:
  "\<exists>rep rf'. AppendEntries 9 \<lparr>aea_Term = 1, aea_LeaderId = 1, aea_LastLogIndex = 0, aea_LastLogTerm = 0,
      aea_Entries = [\<lparr>Term = 1, Cmd = Some ''a''\<rparr>], aea_LeaderCommitIdx = 1\<rparr> witness_server = Ret (rep, rf') \<and>
    Success rep \<and> log rf' = [Some \<lparr>Term = 0, Cmd = None\<rparr>, Some \<lparr>Term = 1, Cmd = Some ''a''\<rparr>] \<and> commitIdx rf' = 1"
proof -
  have "raft_ok witness_server"
    by (simp add: witness_server_def raft_ok_def raft_wf_def saved_def)
  from AppendEntries_accepts [OF this, of "\<lparr>aea_Term = 1, aea_LeaderId = 1, aea_LastLogIndex = 0, aea_LastLogTerm = 0,
      aea_Entries = [\<lparr>Term = 1, Cmd = Some ''a''\<rparr>], aea_LeaderCommitIdx = 1\<rparr>" 9]
  show ?thesis
    by (auto simp: witness_server_def ae_match_def ae_log_def ae_commit_def)
qed

end
