(* ===== verification/KvServer.thy ===== *)
theory KvServer
  imports Kv Raft_Inv
begin

section \<open>The key-value server: src/kvraft, server.go, snapshot.go and bcast.go\<close>

text \<open>
  The server applies the commands the consensus module delivers, each once for a client that
  retries it, answers the requests that wait for them, and takes and installs snapshots. The
  loops that read channels are modelled by the step they do for one message. The encoding of a
  snapshot as bytes is the business of \<open>encoding/gob\<close>: \<open>encode\<close> and \<open>decode\<close> are arguments, as is the bytes
  in bytes of a state file.
\<close>

subsection \<open>State\<close>

record KVServer =
  kvm :: kvmap
  unwritten :: "uint \<rightharpoonup> bool"
  unseen :: "uint \<rightharpoonup> bool"
  lastSeq :: "uint \<rightharpoonup> uint"
  maxraftsz :: int
  topidx :: int

record SnapshotRec =
  ss_Kvm :: kvmap
  ss_Unwritten :: "uint \<rightharpoonup> bool"
  ss_Unseen :: "uint \<rightharpoonup> bool"
  ss_Last :: "uint \<rightharpoonup> uint"

type_synonym raft = "RequestArgs Raft"

subsection \<open>Applying a delivered command: manageApplyCh\<close>

definition note_client :: "RequestArgs \<Rightarrow> KVServer \<Rightarrow> KVServer" where
  "note_client cmd srv =
     (case lastSeq srv (ClientId cmd) of
        Some v \<Rightarrow>
          if v \<noteq> Seq cmd
          then srv\<lparr>unseen := (unseen srv)(v := None), lastSeq := (lastSeq srv)(ClientId cmd \<mapsto> Seq cmd)\<rparr>
          else srv
      | None \<Rightarrow> srv\<lparr>lastSeq := (lastSeq srv)(ClientId cmd \<mapsto> Seq cmd)\<rparr>)"

definition note_seq :: "RequestArgs \<Rightarrow> KVServer \<Rightarrow> KVServer" where
  "note_seq cmd srv =
     (if unwritten srv (Seq cmd) = None \<and> unseen srv (Seq cmd) = None
      then srv\<lparr>unwritten := (unwritten srv)(Seq cmd \<mapsto> True), unseen := (unseen srv)(Seq cmd \<mapsto> True)\<rparr>
      else srv)"

definition failing :: "RequestArgs \<Rightarrow> RequestArgs" where
  "failing cmd = (if Code cmd = AcquireOp then cmd\<lparr>Code := FailingAcquireOp\<rparr> else cmd\<lparr>Code := FailingLockedOp\<rparr>)"

definition applyCommand :: "RequestArgs \<Rightarrow> KVServer \<Rightarrow> (RequestArgs \<times> KVServer) outcome" where
  "applyCommand cmd srv0 =
     (let srv = note_seq cmd (note_client cmd srv0) in
      if unwritten srv (Seq cmd) \<noteq> None then
        outcome_bind (commitOp (kvm srv) cmd) (\<lambda>(err, m).
          Ret (if err \<noteq> None then failing cmd else cmd,
               srv\<lparr>kvm := m, unwritten := (unwritten srv)(Seq cmd := None)\<rparr>))
      else
        Ret (if \<not> checkHoldLock (kvm srv) cmd then failing cmd else cmd, srv))"

subsection \<open>Snapshots: snapshot.go\<close>

definition RaftStateSize :: "(RequestArgs gob list \<Rightarrow> int) \<Rightarrow> raft \<Rightarrow> int" where
  "RaftStateSize bytes rf = (case persisted rf of None \<Rightarrow> - 1 | Some f \<Rightarrow> bytes f)"

definition shouldSnapshot :: "(RequestArgs gob list \<Rightarrow> int) \<Rightarrow> KVServer \<Rightarrow> raft \<Rightarrow> bool" where
  "shouldSnapshot bytes srv rf =
     (if maxraftsz srv < 0 then False else maxraftsz srv - 1 \<le> RaftStateSize bytes rf)"

definition snapshot_of :: "KVServer \<Rightarrow> SnapshotRec" where
  "snapshot_of srv =
     \<lparr>ss_Kvm = kvm srv, ss_Unwritten = unwritten srv, ss_Unseen = unseen srv, ss_Last = lastSeq srv\<rparr>"

definition restore :: "SnapshotRec \<Rightarrow> KVServer \<Rightarrow> KVServer" where
  "restore s srv =
     srv\<lparr>kvm := ss_Kvm s, unwritten := ss_Unwritten s, unseen := ss_Unseen s, lastSeq := ss_Last s\<rparr>"

definition takeSnapshot :: "(SnapshotRec \<Rightarrow> string) \<Rightarrow> KVServer \<Rightarrow> raft \<Rightarrow> raft outcome" where
  "takeSnapshot encode srv rf = Snapshot (topidx srv) (encode (snapshot_of srv)) rf"

definition considerApplyMsg ::
  "(string \<Rightarrow> SnapshotRec option) \<Rightarrow> RequestArgs ApplyMsg \<Rightarrow> KVServer \<Rightarrow> raft \<Rightarrow> (KVServer \<times> raft) outcome"
where
  "considerApplyMsg decode v srv rf =
     (case decode (Snapshot_data v) of
        None \<Rightarrow> Fatal ''Get better decode error checking!''
      | Some s \<Rightarrow>
          outcome_bind (CondInstallSnapshot (SnapshotTerm v) (SnapshotIndex v) (Snapshot_data v) rf) (\<lambda>(ok, rf1).
            Ret (if ok then restore s srv else srv, rf1)))"

text \<open>\<open>pullLatestSnapshot\<close> skips through the state file of the consensus module to the snapshot.\<close>

definition pullLatestSnapshot ::
  "(string \<Rightarrow> SnapshotRec option) \<Rightarrow> RequestArgs gob list option \<Rightarrow> KVServer \<Rightarrow> KVServer outcome"
where
  "pullLatestSnapshot decode file srv =
     (case file of
        None \<Rightarrow> Ret srv
      | Some [] \<Rightarrow> Ret srv
      | Some (GInt t # GInt vf # GInt si # GLog lg # GBytes ss # _) \<Rightarrow>
          (case decode ss of None \<Rightarrow> Ret srv | Some s \<Rightarrow> Ret (restore s srv))
      | Some _ \<Rightarrow> Fatal ''Get better decode error checking 1!'')"

text \<open>
  One message of the apply channel; the result is the message published to the waiting requests,
  if any.
\<close>

definition manageApply ::
  "(SnapshotRec \<Rightarrow> string) \<Rightarrow> (string \<Rightarrow> SnapshotRec option) \<Rightarrow> (RequestArgs gob list \<Rightarrow> int) \<Rightarrow>
   RequestArgs ApplyMsg \<Rightarrow> KVServer \<Rightarrow> raft \<Rightarrow> (RequestArgs ApplyMsg option \<times> KVServer \<times> raft) outcome"
where
  "manageApply encode decode bytes v srv rf =
     (if SnapshotValid v then
        outcome_bind (considerApplyMsg decode v srv rf) (\<lambda>(srv1, rf1). Ret (None, srv1, rf1))
      else if CommandValid v then
        (case Command v of
           None \<Rightarrow> Fatal ''interface conversion''
         | Some cmd \<Rightarrow>
             outcome_bind (applyCommand cmd srv) (\<lambda>(cmd1, srv1).
             let srv2 = srv1\<lparr>topidx := CommandIndex v\<rparr> in
             outcome_bind (if shouldSnapshot bytes srv2 rf then takeSnapshot encode srv2 rf else Ret rf) (\<lambda>rf1.
               Ret (if unseen srv2 (Seq cmd) \<noteq> None then Some (v\<lparr>Command := Some cmd1\<rparr>) else None, srv2, rf1))))
      else Ret (None, srv, rf))"

definition StartKVServer ::
  "(string \<Rightarrow> SnapshotRec option) \<Rightarrow> int \<Rightarrow> nat \<Rightarrow> RequestArgs gob list option \<Rightarrow> int \<Rightarrow> (KVServer \<times> raft) outcome"
where
  "StartKVServer decode i n file maxraftstate =
     outcome_bind (pullLatestSnapshot decode file
       \<lparr>kvm = Map.empty, unwritten = Map.empty, unseen = Map.empty, lastSeq = Map.empty, maxraftsz = 0, topidx = 0\<rparr>) (\<lambda>srv.
     outcome_bind (Make i n file) (\<lambda>rf. Ret (srv\<lparr>maxraftsz := maxraftstate\<rparr>, rf)))"

subsection \<open>Answering a request: Request\<close>

datatype req_step = Reply RequestReply | Rerequest | Wait

text \<open>
  \<open>Request\<close> hands the command to the consensus module, which gives it an index, and then looks at
  every published message \<open>v\<close> until the one with that index.
\<close>

definition request_start :: "RequestArgs \<Rightarrow> raft \<Rightarrow> ((RequestReply + int) \<times> raft) outcome" where
  "request_start args rf =
     outcome_bind (Start args rf) (\<lambda>((idx, _, isLdr), rf1).
       Ret (if \<not> isLdr then Inl \<lparr>reply_Seq = Seq args, reply_E = ErrWrongLeader, reply_Value = []\<rparr> else Inr idx, rf1))"

definition request_msg :: "RequestArgs \<Rightarrow> int \<Rightarrow> RequestArgs ApplyMsg \<Rightarrow> bool \<Rightarrow> KVServer \<Rightarrow> req_step outcome" where
  "request_msg args idx v amLeader srv =
     (let reply = (\<lambda>e val. Reply \<lparr>reply_Seq = Seq args, reply_E = e, reply_Value = val\<rparr>) in
      if \<not> amLeader then Ret (reply ErrWrongLeader [])
      else if CommandIndex v = idx then
        (case Command v of
           None \<Rightarrow> Fatal ''interface conversion''
         | Some cmd \<Rightarrow>
             if Seq cmd \<noteq> Seq args then Ret Rerequest
             else if Code cmd = FailingAcquireOp then Ret (reply ErrLockHeld [])
             else if Code cmd = FailingLockedOp then Ret (reply ErrLockNotHeld [])
             else if Code args = GetOp then
               (case kvm srv (Key args) of Some k \<Rightarrow> Ret (reply OK k) | None \<Rightarrow> Ret (reply ErrNoKey []))
             else Ret (reply OK []))
      else Ret Wait)"

subsection \<open>Publishing: bcast.go\<close>

record 'ch bcast =
  net :: "int \<rightharpoonup> 'ch"
  nsub :: uint

definition mkBcast :: "'ch bcast" where
  "mkBcast = \<lparr>net = Map.empty, nsub = 0\<rparr>"

text \<open>\<open>sub\<close> draws random numbers (\<open>rnd k\<close> is the \<open>k\<close>-th) until one is not in use.\<close>

partial_function (option) fresh_id :: "(nat \<Rightarrow> int) \<Rightarrow> (int \<rightharpoonup> 'ch) \<Rightarrow> nat \<Rightarrow> int option" where
  "fresh_id rnd m k = (if m (rnd k) = None then Some (rnd k) else fresh_id rnd m (Suc k))"

definition sub :: "(nat \<Rightarrow> int) \<Rightarrow> 'ch \<Rightarrow> 'ch bcast \<Rightarrow> (int \<times> 'ch bcast) option" where
  "sub rnd c b =
     (case fresh_id rnd (net b) 0 of
        None \<Rightarrow> None
      | Some i \<Rightarrow> Some (i, b\<lparr>net := (net b)(i \<mapsto> c), nsub := nsub b + 1\<rparr>))"

text \<open>The channels that are closed already are a set; closing one twice panics.\<close>

definition unsub :: "int \<Rightarrow> 'ch set \<times> 'ch bcast \<Rightarrow> ('ch set \<times> 'ch bcast) outcome" where
  "unsub i = (\<lambda>(closed, b).
     case net b i of
       None \<Rightarrow> Fatal ''close of nil channel''
     | Some c \<Rightarrow>
         if c \<in> closed then Fatal ''close of closed channel''
         else Ret (insert c closed, b\<lparr>net := (net b)(i := None), nsub := nsub b - 1\<rparr>))"

subsection \<open>Retried commands\<close>

text \<open>The commands of a log, applied in order; what they answer is dropped.\<close>

fun applyLog :: "RequestArgs list \<Rightarrow> KVServer \<Rightarrow> KVServer outcome" where
  "applyLog [] srv = Ret srv"
| "applyLog (cmd # cmds) srv = outcome_bind (applyCommand cmd srv) (\<lambda>(_, srv'). applyLog cmds srv')"

lemma applyLog_append [simp]:
  "applyLog (xs @ ys) srv = outcome_bind (applyLog xs srv) (applyLog ys)"
  proof (induction xs arbitrary: srv)
  case (Cons cmd xs)
  then show ?case by (cases "applyCommand cmd srv") auto
qed simp

definition new_server :: KVServer where
  "new_server = \<lparr>kvm = Map.empty, unwritten = Map.empty, unseen = Map.empty, lastSeq = Map.empty,
     maxraftsz = 0, topidx = 0\<rparr>"

text \<open>
  A log in which a sequence number names one command, and a client sends no copy of a command
  after it has gone on to its next one.
\<close>

definition one_at_a_time :: "RequestArgs list \<Rightarrow> bool" where
  "one_at_a_time cmds \<longleftrightarrow>
     (\<forall>i j. i < j \<and> j < length cmds \<and> Seq (cmds ! i) = Seq (cmds ! j) \<longrightarrow>
        cmds ! i = cmds ! j \<and>
        (\<forall>k. i < k \<and> k < j \<and> ClientId (cmds ! k) = ClientId (cmds ! i) \<longrightarrow> Seq (cmds ! k) = Seq (cmds ! i)))"

definition first_copies :: "RequestArgs list \<Rightarrow> RequestArgs list" where
  "first_copies cmds = rev (remdups (rev cmds))"

lemma first_copies_simps [simp]:
  "first_copies [] = []"
  "first_copies (cmds @ [cmd]) = (if cmd \<in> set cmds then first_copies cmds else first_copies cmds @ [cmd])"
  by (simp_all add: first_copies_def)

text \<open>The last sequence number of a client.\<close>

definition client_last :: "RequestArgs list \<Rightarrow> uint \<rightharpoonup> uint" where
  "client_last cmds = foldl (\<lambda>m cmd. m(ClientId cmd \<mapsto> Seq cmd)) Map.empty cmds"

lemma client_last_simps [simp]:
  "client_last [] = Map.empty"
  "client_last (cmds @ [cmd]) = (client_last cmds)(ClientId cmd \<mapsto> Seq cmd)"
  by (simp_all add: client_last_def)

lemma one_at_a_timeD:
  assumes "one_at_a_time cmds" "i < j" "j < length cmds" "Seq (cmds ! i) = Seq (cmds ! j)"
  shows "cmds ! i = cmds ! j"
    and "i < k \<Longrightarrow> k < j \<Longrightarrow> ClientId (cmds ! k) = ClientId (cmds ! i) \<Longrightarrow> Seq (cmds ! k) = Seq (cmds ! i)"
  using assms unfolding one_at_a_time_def by blast+

lemma one_at_a_time_prefix:
  assumes "one_at_a_time (cmds @ cmds')"
  shows "one_at_a_time cmds"
  unfolding one_at_a_time_def
proof safe
  fix i j assume *: "i < j" "j < length cmds" "Seq (cmds ! i) = Seq (cmds ! j)"
  note D = one_at_a_timeD [OF assms *(1)]
  show "cmds ! i = cmds ! j" using D(1) * by (simp add: nth_append)
  fix k assume "i < k" "k < j" "ClientId (cmds ! k) = ClientId (cmds ! i)"
  then show "Seq (cmds ! k) = Seq (cmds ! i)" using D(2) [of k] * by (simp add: nth_append)
qed

lemma client_last_SomeD:
  "client_last cmds c = Some s \<Longrightarrow> \<exists>i < length cmds. ClientId (cmds ! i) = c \<and> Seq (cmds ! i) = s \<and>
     (\<forall>k. i < k \<and> k < length cmds \<longrightarrow> ClientId (cmds ! k) \<noteq> c)"
proof (induction cmds rule: rev_induct)
  case (snoc x xs)
  show ?case
  proof (cases "ClientId x = c")
    case True
    with snoc.prems show ?thesis by (auto intro!: exI [of _ "length xs"])
  next
    case False
    with snoc obtain i where "i < length xs" "ClientId (xs ! i) = c" "Seq (xs ! i) = s"
      "\<forall>k. i < k \<and> k < length xs \<longrightarrow> ClientId (xs ! k) \<noteq> c" by auto
    with False show ?thesis
      by (intro exI [of _ i]) (auto simp: nth_append less_Suc_eq)
  qed
qed simp

lemma client_last_NoneD: "client_last cmds c = None \<Longrightarrow> x \<in> set cmds \<Longrightarrow> ClientId x \<noteq> c"
  by (induction cmds rule: rev_induct) (auto split: if_splits)

text \<open>On such a log, a command is a copy exactly when it is the last one its client sent.\<close>

lemma copy_is_last:
  assumes "one_at_a_time (xs @ [x])"
  shows "client_last xs c = Some (Seq x) \<longleftrightarrow> c = ClientId x \<and> x \<in> set xs"
proof
  assume "client_last xs c = Some (Seq x)"
  then obtain i where i: "i < length xs" "ClientId (xs ! i) = c" "Seq (xs ! i) = Seq x"
    using client_last_SomeD by blast
  with one_at_a_timeD(1) [OF assms, of i "length xs"] have "xs ! i = x"
    by (simp add: nth_append)
  with i show "c = ClientId x \<and> x \<in> set xs" by (metis nth_mem)
next
  assume *: "c = ClientId x \<and> x \<in> set xs"
  then obtain s where s: "client_last xs c = Some s" using client_last_NoneD [of xs c x] by (cases "client_last xs c") auto
  from * obtain j where j: "j < length xs" "xs ! j = x" by (metis in_set_conv_nth)
  from s obtain i where i: "i < length xs" "ClientId (xs ! i) = c" "Seq (xs ! i) = s"
    "\<forall>k. i < k \<and> k < length xs \<longrightarrow> ClientId (xs ! k) \<noteq> c" using client_last_SomeD by blast
  have "j \<le> i" using i(4) j * by (metis not_le)
  moreover have "Seq (xs ! i) = Seq x" if "j < i"
    using one_at_a_timeD(2) [OF assms, of j "length xs" i] j i that * by (simp add: nth_append)
  ultimately have "s = Seq x" using i(3) j(2) by (cases "j = i") auto
  with s show "client_last xs c = Some (Seq x)" by simp
qed

text \<open>The bookkeeping after a log: nothing is unwritten, and unseen are the last commands of the clients.\<close>

definition books :: "RequestArgs list \<Rightarrow> KVServer \<Rightarrow> bool" where
  "books cmds srv \<longleftrightarrow> unwritten srv = Map.empty \<and> lastSeq srv = client_last cmds \<and>
     dom (unseen srv) = ran (client_last cmds)"

lemma note_books:
  assumes books: "books xs srv" and one: "one_at_a_time (xs @ [x])"
  defines "srv' \<equiv> note_seq x (note_client x srv)"
  shows "unwritten srv' = (if x \<in> set xs then Map.empty else [Seq x \<mapsto> True])"
    and "books (xs @ [x]) (srv'\<lparr>unwritten := Map.empty\<rparr>)"
    and "kvm srv' = kvm srv"
proof -
  note copy = copy_is_last [OF one]
  have un: "unwritten srv = Map.empty" and last: "lastSeq srv = client_last xs"
    and seen: "dom (unseen srv) = ran (client_last xs)" using books by (auto simp: books_def)
  have inj: "c = c'" if last: "client_last xs c = Some s" "client_last xs c' = Some s" for c c' s
  proof -
    obtain i j where ij: "i < length xs" "ClientId (xs ! i) = c" "Seq (xs ! i) = s"
      "j < length xs" "ClientId (xs ! j) = c'" "Seq (xs ! j) = s"
      using last [THEN client_last_SomeD] by blast
    note D = one_at_a_timeD(1) [OF one_at_a_time_prefix [OF one]]
    from ij D [of i j] D [of j i] show "c = c'" by (cases i j rule: linorder_cases) auto
  qed
  show "kvm srv' = kvm srv"
    by (simp add: srv'_def note_seq_def note_client_def split: option.splits)
  have ran: "s \<in> ran (client_last xs) \<longleftrightarrow> (\<exists>c. client_last xs c = Some s)" for s by (simp add: ran_def)
  have new: "unseen srv (Seq x) = None \<longleftrightarrow> x \<notin> set xs"
  proof -
    have "unseen srv (Seq x) \<noteq> None \<longleftrightarrow> (\<exists>c. client_last xs c = Some (Seq x))"
      using seen ran [of "Seq x"] by blast
    with copy show ?thesis by blast
  qed
  show "unwritten srv' = (if x \<in> set xs then Map.empty else [Seq x \<mapsto> True])"
    using un last new copy by (auto simp: srv'_def note_seq_def note_client_def split: option.splits)
  show "books (xs @ [x]) (srv'\<lparr>unwritten := Map.empty\<rparr>)"
  proof (cases "x \<in> set xs")
    case True
    with copy have L: "client_last xs (ClientId x) = Some (Seq x)" by simp
    with new True un last seen show ?thesis
      by (auto simp: books_def srv'_def note_seq_def note_client_def fun_upd_idem)
  next
    case False
    with copy have L: "client_last xs (ClientId x) \<noteq> Some (Seq x)" by simp
    show ?thesis
    proof (cases "client_last xs (ClientId x)")
      case None
      with False new un last seen show ?thesis
        by (auto simp: books_def srv'_def note_seq_def note_client_def ran_map_upd)
    next
      case (Some v)
      then have "ran ((client_last xs)(ClientId x \<mapsto> Seq x)) = insert (Seq x) (ran (client_last xs) - {v})"
        using inj by (auto simp: ran_def split: if_splits) (metis option.inject)
      with Some L False new un last seen show ?thesis
        by (auto simp: books_def srv'_def note_seq_def note_client_def)
    qed
  qed
qed

lemma applyCommand_books:
  assumes "books xs srv" and "one_at_a_time (xs @ [x])"
  shows "x \<in> set xs \<Longrightarrow> returns (applyCommand x srv) (\<lambda>(_, srv'). kvm srv' = kvm srv \<and> books (xs @ [x]) srv')"
    and "x \<notin> set xs \<Longrightarrow> applyCommand x srv = outcome_bind (commitOp (kvm srv) x) (\<lambda>(err, m).
           Ret (if err \<noteq> None then failing x else x,
             (note_seq x (note_client x srv))\<lparr>kvm := m, unwritten := Map.empty\<rparr>))"
  using note_books [OF assms] by (auto simp: applyCommand_def Let_def books_def)

lemma commitAll_snoc:
  "commitAll m (cmds @ [cmd]) = outcome_bind (commitAll m cmds) (\<lambda>m'. outcome_bind (commitOp m' cmd) (\<lambda>r. Ret (snd r)))"
proof (induction cmds arbitrary: m)
  case Nil
  then show ?case by simp
next
  case (Cons c cmds)
  then show ?case by (cases "commitOp m c") auto
qed

lemma applyLog_first_copies:
  assumes "one_at_a_time cmds"
  shows "case applyLog cmds new_server of
      Ret srv \<Rightarrow> commitAll Map.empty (first_copies cmds) = Ret (kvm srv) \<and> books cmds srv
    | Fatal e \<Rightarrow> commitAll Map.empty (first_copies cmds) = Fatal e"
  using assms
proof (induction cmds rule: rev_induct)
  case Nil
  then show ?case by (simp add: new_server_def books_def)
next
  case (snoc x xs)
  have IH: "case applyLog xs new_server of
      Ret srv \<Rightarrow> commitAll Map.empty (first_copies xs) = Ret (kvm srv) \<and> books xs srv
    | Fatal e \<Rightarrow> commitAll Map.empty (first_copies xs) = Fatal e"
    using snoc.IH one_at_a_time_prefix [OF snoc.prems] by simp
  show ?case
  proof (cases "applyLog xs new_server")
    case (Ret srv)
    with IH have IH': "commitAll Map.empty (first_copies xs) = Ret (kvm srv)" "books xs srv" by simp_all
    note step = applyCommand_books [OF IH'(2) snoc.prems] note_books(2) [OF IH'(2) snoc.prems]
    show ?thesis
    proof (cases "x \<in> set xs")
      case True
      with step(1) obtain r where "applyCommand x srv = Ret r" "kvm (snd r) = kvm srv" "books (xs @ [x]) (snd r)"
        by (auto simp: returns_iff)
      with Ret IH' True show ?thesis by (cases r) simp
    next
      case False
      with Ret IH' step show ?thesis
        by (cases "commitOp (kvm srv) x") (auto simp: commitAll_snoc books_def)
    qed
  qed (use IH in \<open>simp add: commitAll_snoc\<close>)
qed


text \<open>
  C12: commands are applied exactly once. On a log in which every client is done with a command
  before it sends the next, whatever number of copies of it its retries left in the log, the
  store ends up exactly as if the first copy of every command had been applied and no other; and
  the server panics on the one log exactly when the store does on the other.
\<close>

theorem retries_applied_once:
  assumes "one_at_a_time cmds"
  shows "outcome_bind (applyLog cmds new_server) (\<lambda>srv. Ret (kvm srv)) = commitAll Map.empty (first_copies cmds)"
  using applyLog_first_copies [OF assms] by (cases "applyLog cmds new_server") auto

definition witness_log :: "RequestArgs list" where
  "witness_log =
     [\<lparr>ClientId = 7, Seq = 1, Code = AcquireOp, Key = ''5'', Value = ''100''\<rparr>,
      \<lparr>ClientId = 7, Seq = 2, Code = AppendOp, Key = ''5'', Value = ''a''\<rparr>,
      \<lparr>ClientId = 8, Seq = 3, Code = AppendOp, Key = ''5'', Value = ''b''\<rparr>,
      \<lparr>ClientId = 7, Seq = 2, Code = AppendOp, Key = ''5'', Value = ''a''\<rparr>]"

theorem retries_applied_once_witness:
  "outcome_bind (applyLog witness_log new_server) (\<lambda>srv. Ret (kvm srv)) =
     commitAll Map.empty (take 3 witness_log)"
proof -
  have "one_at_a_time witness_log"
    by (auto simp: one_at_a_time_def witness_log_def less_Suc_eq nth_Cons' numeral_eq_Suc)
  from retries_applied_once [OF this] show ?thesis
    by (simp add: first_copies_def witness_log_def)
qed

lemma checkHoldLock_held:
  "m (lock_key (Key cmd)) = Some (fmt_d (ClientId cmd) @ CHR ''/'' # t) \<Longrightarrow> checkHoldLock m cmd"
  by (simp add: checkHoldLock_def go_simps mget_def)

lemma lock_key_not_self [simp]: "lock_key k \<noteq> k" "k \<noteq> lock_key k"
  by (auto simp: lock_key_def dest: arg_cong [where f = length])

text \<open>
  C36: the memory for retries holds one command per client. When a copy of a command arrives after
  the client's next command, which the handler causes when it puts a command into the log again
  because another one took its place, it is applied a second time: an append is duplicated.
\<close>

theorem late_copy_applied_again:
  fixes c s0 s1 s2 :: uint
  assumes "s1 \<noteq> s2" and "s0 \<noteq> s1"
  shows "returns (applyLog [RequestArgs.make c s0 AcquireOp k t, RequestArgs.make c s1 AppendOp k a,
      RequestArgs.make c s2 AppendOp k b, RequestArgs.make c s1 AppendOp k a] new_server)
    (\<lambda>srv. kvm srv k = Some (a @ b @ a))"
  using assms
  by (auto simp: RequestArgs.defs applyCommand_def note_client_def note_seq_def new_server_def
      commitOp_def lock_value_def checkHoldLock_held Let_def mget_def)

theorem late_copy_applied_again_witness:
  "returns (applyLog [RequestArgs.make 7 1 AcquireOp ''5'' ''100'', RequestArgs.make 7 2 AppendOp ''5'' ''a'',
     RequestArgs.make 7 3 AppendOp ''5'' ''b'', RequestArgs.make 7 2 AppendOp ''5'' ''a''] new_server)
    (\<lambda>srv. kvm srv ''5'' = Some ''aba'')"
  using late_copy_applied_again [of 2 3 1 7 "''5''" "''100''" "''a''" "''b''"] by simp

text \<open>
  A retried release is answered wrongly. The first copy of a client's release succeeds and
  frees the lock; a further copy finds the lock free and is answered as a lock that was not
  held, so that a client whose first reply was lost is told that its release failed.
\<close>

theorem retried_release_fails:
  fixes c s0 s1 :: uint
  assumes "s0 \<noteq> s1" and "rel = RequestArgs.make c s1 ReleaseOp k v"
  shows "returns (applyLog [RequestArgs.make c s0 AcquireOp k t] new_server) (\<lambda>srv0.
    returns (applyCommand rel srv0) (\<lambda>(cmd1, srv1). cmd1 = rel \<and> mget (kvm srv1) (lock_key k) = [] \<and>
    returns (applyCommand rel srv1) (\<lambda>(cmd2, srv2). cmd2 = rel\<lparr>Code := FailingLockedOp\<rparr> \<and> kvm srv2 = kvm srv1)))"
  using assms
  by (auto simp: RequestArgs.defs applyCommand_def note_client_def note_seq_def new_server_def
      commitOp_def lock_value_def checkHoldLock_held Let_def mget_def failing_def checkHoldLock_def go_simps)

theorem retried_release_fails_witness:
  "returns (applyLog [RequestArgs.make 7 1 AcquireOp ''5'' ''100''] new_server) (\<lambda>srv0.
    returns (applyCommand (RequestArgs.make 7 2 ReleaseOp ''5'' '''') srv0) (\<lambda>(cmd1, srv1).
    returns (applyCommand (RequestArgs.make 7 2 ReleaseOp ''5'' '''') srv1) (\<lambda>(cmd2, srv2). Code cmd2 = FailingLockedOp)))"
  using retried_release_fails [of 1 2 "RequestArgs.make 7 2 ReleaseOp ''5'' ''''" 7 "''5''" "''''" "''100''"]
  by (auto simp: returns_iff)

subsection \<open>The answer to a request\<close>

definition answer :: "bool \<Rightarrow> akv \<Rightarrow> RequestArgs \<Rightarrow> Err \<times> string" where
  "answer done a args =
     (if \<not> done then (if Code args = AcquireOp then ErrLockHeld else ErrLockNotHeld, [])
      else if Code args = GetOp then
        (case akv_data a (Key args) of None \<Rightarrow> (ErrNoKey, []) | Some v \<Rightarrow> (OK, v))
      else (OK, []))"

lemma applyCommand_fresh:
  assumes "unwritten srv = Map.empty" "unseen srv (Seq cmd) = None"
  shows "applyCommand cmd srv = outcome_bind (commitOp (kvm srv) cmd) (\<lambda>(err, m).
    Ret (if err \<noteq> None then failing cmd else cmd, (note_seq cmd (note_client cmd srv))\<lparr>kvm := m, unwritten := Map.empty\<rparr>))"
  and "unseen (note_seq cmd (note_client cmd srv)) (Seq cmd) \<noteq> None"
proof -
  have noted: "unwritten (note_seq cmd (note_client cmd srv)) = [Seq cmd \<mapsto> True]"
    "unseen (note_seq cmd (note_client cmd srv)) (Seq cmd) = Some True" "kvm (note_seq cmd (note_client cmd srv)) = kvm srv"
    using assms by (auto simp: note_seq_def note_client_def split: option.splits)
  then show "applyCommand cmd srv = outcome_bind (commitOp (kvm srv) cmd) (\<lambda>(err, m).
      Ret (if err \<noteq> None then failing cmd else cmd, (note_seq cmd (note_client cmd srv))\<lparr>kvm := m, unwritten := Map.empty\<rparr>))"
    and "unseen (note_seq cmd (note_client cmd srv)) (Seq cmd) \<noteq> None"
    by (simp_all add: applyCommand_def Let_def ex_bool_eq)
qed

lemma Snapshot_returns:
  assumes "raft_ok rf" "snapshotIndex rf \<le> i" "i \<le> appliedIdx rf" "i < int (length (log rf))"
  shows "returns (Snapshot i ss rf) raft_ok"
proof -
  have "ev_enabled (EvSnapshot i ss) rf" using assms by simp
  from raft_exec_ok [OF assms(1) this] show ?thesis by (auto simp: returns_iff)
qed

text \<open>
  C11: a request is answered by the abstract store. A command that is delivered for the first time,
  on a data key, is applied and published without a panic, whether or not a snapshot is due; the
  store has its effect, and the handler that waits for it on the leader answers what the abstract
  store says: done or which lock is in the way, and for a get the value of the key.
\<close>

theorem request_answered:
  assumes "lock_wf (kvm srv)" and "unwritten srv = Map.empty"
    and "unseen srv (Seq args) = None" and "data_key (Key args)" and "Code args \<notin> {FailingAcquireOp, FailingLockedOp}"
    and "raft_ok rf" and "snapshotIndex rf \<le> i" and "i \<le> appliedIdx rf" and "i < int (length (log rf))"
    and "v = \<lparr>CommandValid = True, Command = Some args, CommandIndex = i, SnapshotValid = False,
      Snapshot_data = [], SnapshotTerm = 0, SnapshotIndex = 0\<rparr>"
  shows "returns (manageApply encode decode bytes v srv rf) (\<lambda>(out, srv', rf').
    raft_ok rf' \<and> lock_wf (kvm srv') \<and> unwritten srv' = Map.empty \<and>
    (\<exists>m done. out = Some m \<and> akv_op (kv_abs (kvm srv)) args = (done, kv_abs (kvm srv')) \<and>
      request_msg args i m True srv' = Ret (Reply \<lparr>reply_Seq = Seq args,
        reply_E = fst (answer done (kv_abs (kvm srv')) args), reply_Value = snd (answer done (kv_abs (kvm srv')) args)\<rparr>)))"
proof -
  obtain err kvm' where op: "commitOp (kvm srv) args = Ret (err, kvm')" "lock_wf kvm'"
    "akv_op (kv_abs (kvm srv)) args = (err = None, kv_abs kvm')"
    using commitOp_step [OF assms(1,4)] by blast
  let ?cmd = "if err \<noteq> None then failing args else args"
  let ?srv = "(note_seq args (note_client args srv))\<lparr>kvm := kvm', unwritten := Map.empty, topidx := i\<rparr>"
  note fresh = applyCommand_fresh [OF assms(2,3)]
  have app: "applyCommand args srv = Ret (?cmd, (note_seq args (note_client args srv))\<lparr>kvm := kvm', unwritten := Map.empty\<rparr>)"
    using fresh(1) op(1) by simp
  have "returns (Snapshot i ss rf) raft_ok" for ss
    using assms(6-9) by (rule Snapshot_returns)
  then have snap: "returns (if shouldSnapshot bytes ?srv rf then takeSnapshot encode ?srv rf else Ret rf) raft_ok"
    using assms(6) by (simp add: takeSnapshot_def)
  have "akv_data (kv_abs kvm') (Key args) = kvm' (Key args)" using assms(4) by (simp add: kv_abs_def)
  then have "request_msg args i (v\<lparr>Command := Some ?cmd\<rparr>) True ?srv = Ret (Reply \<lparr>reply_Seq = Seq args,
      reply_E = fst (answer (err = None) (kv_abs kvm') args), reply_Value = snd (answer (err = None) (kv_abs kvm') args)\<rparr>)"
    using assms(5,10) by (auto simp: request_msg_def answer_def failing_def Let_def split: option.splits)
  with snap app fresh(2) op assms(10) show ?thesis
    by (auto simp: manageApply_def Let_def returns_iff)
qed

theorem request_answered_witness:
  "returns (manageApply (\<lambda>_. []) (\<lambda>_. None) (\<lambda>_. 0)
     \<lparr>CommandValid = True, Command = Some (witness_cmd AcquireOp ''5'' ''100''), CommandIndex = 0, SnapshotValid = False,
      Snapshot_data = [], SnapshotTerm = 0, SnapshotIndex = 0\<rparr>
     new_server \<lparr>me = 0, npeers = 3, persisted = None, term = 0, votedFor = - 1, st = follower, ts = 0,
       log = [Some \<lparr>Term = 0, Cmd = None\<rparr>], commitIdx = 0, appliedIdx = 0, disam = [], nextForServer = [],
       atServer = [], msgFlag = False, snapshot = [], snapshotIndex = 0\<rparr>)
   (\<lambda>(out, srv', rf'). lock_wf (kvm srv') \<and> out \<noteq> None)"
proof (rule returns_mono [OF request_answered])
  show "raft_ok (\<lparr>me = 0, npeers = 3, persisted = None, term = 0, votedFor = - 1, st = follower, ts = 0,
       log = [Some \<lparr>Term = 0, Cmd = None\<rparr>], commitIdx = 0, appliedIdx = 0, disam = [], nextForServer = [],
       atServer = [], msgFlag = False, snapshot = [], snapshotIndex = 0\<rparr> :: raft)"
    by (rule raft_ok_fresh [of 0 3]) (simp add: Make_fresh)
qed (auto simp: new_server_def witness_cmd_def data_key_def)

text \<open>A subscription ends once a number that is not in use is drawn, and the handler finds it there.\<close>

lemma fresh_id_returns:
  assumes "m (rnd k) = None" "j \<le> k"
  shows "\<exists>i. fresh_id rnd m j = Some (rnd i) \<and> m (rnd i) = None"
  using assms(2)
proof (induction "k - j" arbitrary: j)
  case 0
  then show ?case using assms(1) by (subst fresh_id.simps) (auto intro: exI [of _ k])
next
  case (Suc d)
  show ?case
  proof (cases "m (rnd j) = None")
    case True
    then show ?thesis by (subst fresh_id.simps) (auto intro: exI [of _ j])
  next
    case False
    from Suc have "\<exists>i. fresh_id rnd m (Suc j) = Some (rnd i) \<and> m (rnd i) = None" by simp
    moreover have "fresh_id rnd m j = fresh_id rnd m (Suc j)" using False by (auto simp: fresh_id.simps [of rnd m j])
    ultimately show ?thesis by simp
  qed
qed

text \<open>
  Subscriptions to the published messages. If one of the numbers drawn is not in use, the
  subscription returns one that was not, changes no other subscription, and its end restores the
  table and the count; a second end of the same subscription panics.
\<close>

theorem sub_unsub:
  assumes "net b (rnd k) = None" and "c \<notin> closed"
  shows "\<exists>i b'. sub rnd c b = Some (i, b') \<and> net b i = None \<and> net b' = (net b)(i \<mapsto> c) \<and>
    unsub i (closed, b') = Ret (insert c closed, b) \<and> (\<exists>e. outcome_bind (unsub i (closed, b')) (unsub i) = Fatal e)"
proof -
  obtain j where "fresh_id rnd (net b) 0 = Some (rnd j)" "net b (rnd j) = None"
    using fresh_id_returns [of "net b" rnd k 0] assms by auto
  then show ?thesis
    by (intro exI [of _ "rnd j"] exI [of _ "b\<lparr>net := (net b)(rnd j \<mapsto> c), nsub := nsub b + 1\<rparr>"])
      (simp add: sub_def unsub_def fun_upd_idem assms(2))
qed

theorem sub_unsub_witness:
  "\<exists>i b'. sub (\<lambda>k. int k) CHR ''c'' (mkBcast\<lparr>net := [0 \<mapsto> CHR ''d'']\<rparr>) = Some (i, b') \<and> net b' i = Some CHR ''c'' \<and>
     net b' 0 = Some CHR ''d''"
  using sub_unsub [of "mkBcast\<lparr>net := [0 \<mapsto> CHR ''d'']\<rparr>" "\<lambda>k. int k" 1 "CHR ''c''" "{}"]
  by (auto simp: mkBcast_def split: if_splits)

end
