(* ===== verification/Jrnl.thy ===== *)
theory Jrnl
  imports Bio
begin

section \<open>The journal: src/jrnl\<close>

text \<open>
  A redo log over the block layer. The superblock (block 2) holds, as text separated by slashes, a
  bitmap of the log segments in use, the number of outstanding transactions and the commit flag.
  Segment \<open>i\<close> is the 100 blocks from \<open>3 + 100 * i\<close>; a log block holds the number and the data of the
  block it will be copied to, and whether it is the last of its segment. This theory holds the
  definitions, in the order of \<open>dat.go\<close>, \<open>parse.go\<close>, \<open>replay.go\<close>, \<open>txn.go\<close> and \<open>sb.go\<close>, and the
  properties of the on-disk formats; \<open>Jrnl_Replay\<close> and \<open>Jrnl_Txn\<close> hold the properties of the
  operations. The diagnostic prints are left out.
\<close>

subsection \<open>Data: dat.go\<close>

record logBlock =
  lnr :: uint
  rnr :: uint
  rdata :: string
  last_flag :: bool

record logSB =
  bitmap :: string
  cnt :: uint
  commit_flag :: uint

definition sbNr :: uint where
  "sbNr = 2"

definition logStart :: uint where
  "logStart = 3"

definition blkPerSys :: uint where
  "blkPerSys = 100"

definition sysPerLog :: uint where
  "sysPerLog = 1000"

definition EndJrnl :: uint where
  "EndJrnl = blkPerSys * sysPerLog + 3"

record TxnHandle =
  blkSeg :: uint
  offset :: uint

subsection \<open>Parsing and printing: parse.go\<close>

definition parseSb :: "Block \<Rightarrow> logSB" where
  "parseSb blk =
     (let lst = Split (Data blk) CHR ''/'' in
      if length lst \<noteq> 3 then \<lparr>bitmap = [], cnt = 0, commit_flag = 0\<rparr>
      else
        (let c = fst (ParseUint (lst ! 1) 10 64);
             cmt = fst (ParseUint (lst ! 2) 10 64)
         in \<lparr>bitmap = lst ! 0, cnt = of_nat c, commit_flag = of_nat cmt\<rparr>))"

definition flattenSb :: "logSB \<Rightarrow> Block" where
  "flattenSb sb =
     \<lparr>Nr = sbNr,
      Data = bitmap sb @ ''/'' @ fmt_d (cnt sb) @ ''/'' @ fmt_d (commit_flag sb)\<rparr>"

definition parseLb :: "Block \<Rightarrow> logBlock" where
  "parseLb blk =
     (let lst = Split (Data blk) CHR ''/'' in
      if length lst < 3 then \<lparr>lnr = Nr blk, rnr = 0, rdata = [], last_flag = False\<rparr>
      else
        \<lparr>lnr = Nr blk, rnr = of_nat (fst (ParseUint (lst ! 0) 10 64)), rdata = lst ! 1,
         last_flag = (lst ! 2 = ''1'')\<rparr>)"

definition flattenLb :: "logBlock \<Rightarrow> Block" where
  "flattenLb lb =
     (let ls = (if last_flag lb then ''1'' else ''0'') in
      \<lparr>Nr = lnr lb, Data = fmt_d (rnr lb) @ ''/'' @ rdata lb @ ''/'' @ ls\<rparr>)"

subsection \<open>Replay and commit: replay.go\<close>

definition getLogSegmentStart :: "uint \<Rightarrow> uint" where
  "getLogSegmentStart seg = seg * blkPerSys + logStart"

text \<open>The loop of \<open>replayLogSegment\<close>; both \<open>goto retry\<close> and the next iteration are recursive calls.\<close>

partial_function (option) replayFrom ::
  "'s Disk \<Rightarrow> logSB \<Rightarrow> uint \<Rightarrow> 's \<Rightarrow> (goerr outcome \<times> 's) option"
where
  "replayFrom dsk sb lbn s =
     io_bind (Bget dsk lbn) (\<lambda>blk.
     let lb = parseLb blk;
         db = \<lparr>Nr = rnr lb, Data = rdata lb\<rparr>
     in
     io_bind (Brelse dsk (flattenLb lb)) (\<lambda>_.
     io_bind (Bpush dsk db) (\<lambda>err.
     io_bind (Brenew dsk (flattenSb sb)) (\<lambda>berr.
       if berr \<noteq> OK then io_return (Some ''lost the superblock lock'')
       else if err \<noteq> OK then io_bind (Bget dsk (rnr lb)) (\<lambda>_. replayFrom dsk sb lbn)
       else
         io_bind (Brelse dsk db) (\<lambda>_.
           if last_flag lb then io_return None else replayFrom dsk sb (lbn + 1)))))) s"

definition replayLogSegment :: "'s Disk \<Rightarrow> logSB \<Rightarrow> uint \<Rightarrow> ('s, goerr) io" where
  "replayLogSegment dsk sb sgmt = replayFrom dsk sb (getLogSegmentStart sgmt)"

fun replay_range :: "'s Disk \<Rightarrow> logSB \<Rightarrow> (nat \<times> nat) list \<Rightarrow> ('s, goerr) io" where
  "replay_range dsk sb [] = io_return None"
| "replay_range dsk sb ((i, v) # rest) =
     (if v = of_char CHR ''1'' then
        io_bind (replayLogSegment dsk sb (of_nat i)) (\<lambda>err.
          if err \<noteq> None then io_return (Some ''lock lease expired'')
          else replay_range dsk sb rest)
      else replay_range dsk sb rest)"

definition replay :: "'s Disk \<Rightarrow> logSB \<Rightarrow> ('s, goerr) io" where
  "replay dsk sb = replay_range dsk sb (range_string (bitmap sb))"

definition zero_bitmap :: string where
  "zero_bitmap = replicate (unat sysPerLog) CHR ''0''"

definition commit :: "'s Disk \<Rightarrow> logSB \<Rightarrow> ('s, goerr \<times> logSB) io" where
  "commit dsk sb =
     (let sb1 = sb\<lparr>commit_flag := 1\<rparr> in
      io_bind (Bpush dsk (flattenSb sb1)) (\<lambda>err.
        if err \<noteq> OK then io_return (Some ''lock lease expired'', sb1)
        else
          io_bind (replay dsk sb1) (\<lambda>rerr.
            if rerr \<noteq> None then io_return (Some ''lock lease expired'', sb1)
            else
              (let sb2 = sb1\<lparr>commit_flag := 0, bitmap := zero_bitmap\<rparr> in
               io_bind (Bpush dsk (flattenSb sb2)) (\<lambda>err2.
                 if err2 \<noteq> OK then io_return (Some ''lock lease expired'', sb2)
                 else io_return (None, sb2))))))"

definition resurrect :: "'s Disk \<Rightarrow> logSB \<Rightarrow> ('s, goerr \<times> logSB) io" where
  "resurrect dsk sb =
     io_bind (replay dsk sb) (\<lambda>err.
       if err \<noteq> None then io_return (err, sb)
       else
         (let sb1 = sb\<lparr>commit_flag := 0, bitmap := zero_bitmap, cnt := 0\<rparr> in
          io_bind (Bpush dsk (flattenSb sb1)) (\<lambda>berr.
            if berr \<noteq> OK then io_return (Some ''lock lease expired'', sb1)
            else io_return (None, sb1))))"

subsection \<open>Transactions: txn.go\<close>

partial_function (option) writeLogBlock ::
  "'s Disk \<Rightarrow> uint \<Rightarrow> Block \<Rightarrow> 's \<Rightarrow> (unit outcome \<times> 's) option"
where
  "writeLogBlock dsk lbn blk s =
     io_bind (Bget dsk lbn) (\<lambda>b.
     let ilb = parseLb b;
         nlb = flattenLb (ilb\<lparr>last_flag := False, rnr := Nr blk, rdata := Data blk\<rparr>)
     in
     io_bind (Bpush dsk nlb) (\<lambda>err.
       if err \<noteq> OK then writeLogBlock dsk lbn blk
       else io_bind (Brelse dsk nlb) (\<lambda>_. io_return ()))) s"

definition WriteBlock :: "'s Disk \<Rightarrow> TxnHandle \<Rightarrow> Block \<Rightarrow> ('s, goerr \<times> TxnHandle) io" where
  "WriteBlock dsk t blk =
     (if blkPerSys \<le> offset t then io_return (Some ''too many blocks written'', t)
      else
        (let lbn = getLogSegmentStart (blkSeg t) + offset t in
         io_bind (writeLogBlock dsk lbn blk) (\<lambda>_.
           io_return (None, t\<lparr>offset := offset t + 1\<rparr>))))"

text \<open>\<open>ob := []rune(s); ob[i] = c; s = string(ob)\<close>, which panics when \<open>i\<close> is out of range.\<close>

definition set_rune :: "string \<Rightarrow> nat \<Rightarrow> char \<Rightarrow> string outcome" where
  "set_rune s i c =
     (let ob = runes_of_string s in
      if i < length ob then Ret (string_of_runes (ob[i := of_char c]))
      else Fatal ''index out of range'')"

definition find_rune :: "char \<Rightarrow> string \<Rightarrow> nat option" where
  "find_rune c s = map_option fst (find (\<lambda>(i, r). r = of_char c) (range_string s))"

partial_function (option) BeginTransaction ::
  "'s Disk \<Rightarrow> 's \<Rightarrow> (TxnHandle outcome \<times> 's) option"
where
  "BeginTransaction dsk s =
     io_bind (Bget dsk sbNr) (\<lambda>blk.
     let sb = parseSb blk in
     if 0 < commit_flag sb then
       io_bind (Brelse dsk (flattenSb sb)) (\<lambda>_. BeginTransaction dsk)
     else
       (case find_rune CHR ''0'' (bitmap sb) of
          None \<Rightarrow> io_bind (Brelse dsk (flattenSb sb)) (\<lambda>_. BeginTransaction dsk)
        | Some i \<Rightarrow>
            io_bind (io_of_outcome (set_rune (bitmap sb) i CHR ''1'')) (\<lambda>bm.
            let nsb = flattenSb (sb\<lparr>bitmap := bm, cnt := cnt sb + 1\<rparr>) in
            io_bind (Bpush dsk nsb) (\<lambda>err.
              if err \<noteq> OK then BeginTransaction dsk
              else
                io_bind (Brelse dsk nsb) (\<lambda>_.
                  io_return \<lparr>blkSeg = of_nat i, offset = 0\<rparr>))))) s"

partial_function (option) markLast :: "'s Disk \<Rightarrow> TxnHandle \<Rightarrow> 's \<Rightarrow> (unit outcome \<times> 's) option" where
  "markLast dsk t s =
     (let lbn0 = getLogSegmentStart (blkSeg t) + offset t - 1;
          lbn = (if offset t = 0 then lbn0 + 1 else lbn0)
      in
      io_bind (Bget dsk lbn) (\<lambda>b.
      let nlb = flattenLb ((parseLb b)\<lparr>last_flag := True\<rparr>) in
      io_bind (Bpush dsk nlb) (\<lambda>err.
        if err \<noteq> OK then markLast dsk t
        else io_bind (Brelse dsk nlb) (\<lambda>_. io_return ())))) s"

text \<open>\<open>hasValid\<close>: some rune of the bitmap differs from \<open>'0'\<close>.\<close>

definition hasValid :: "string \<Rightarrow> bool" where
  "hasValid bm = (\<exists>r \<in> set (runes_of_string bm). r \<noteq> of_char CHR ''0'')"

partial_function (option) endRetry :: "'s Disk \<Rightarrow> 's \<Rightarrow> (unit outcome \<times> 's) option" where
  "endRetry dsk s =
     io_bind (Bget dsk sbNr) (\<lambda>blk.
     let sb0 = parseSb blk in
     if 0 < commit_flag sb0 then
       io_bind (Brelse dsk (flattenSb sb0)) (\<lambda>_. endRetry dsk)
     else
       let sb = sb0\<lparr>cnt := cnt sb0 - 1\<rparr> in
       if cnt sb = 0 \<and> hasValid (bitmap sb) then
         io_bind (commit dsk sb) (\<lambda>r.
           if fst r \<noteq> None then endRetry dsk
           else io_bind (Brelse dsk (flattenSb (snd r))) (\<lambda>_. io_return ()))
       else
         io_bind (Bpush dsk (flattenSb sb)) (\<lambda>err.
           if err \<noteq> OK then endRetry dsk
           else io_bind (Brelse dsk (flattenSb sb)) (\<lambda>_. io_return ()))) s"

definition EndTransaction :: "'s Disk \<Rightarrow> TxnHandle \<Rightarrow> bool \<Rightarrow> ('s, unit) io" where
  "EndTransaction dsk t abt = io_bind (markLast dsk t) (\<lambda>_. endRetry dsk)"

partial_function (option) abortRetry :: "'s Disk \<Rightarrow> TxnHandle \<Rightarrow> 's \<Rightarrow> (unit outcome \<times> 's) option" where
  "abortRetry dsk t s =
     io_bind (Bget dsk sbNr) (\<lambda>blk.
     let sb = parseSb blk in
     if 0 < commit_flag sb then
       io_bind (Brelse dsk (flattenSb sb)) (\<lambda>_. abortRetry dsk t)
     else
       io_bind (io_of_outcome (set_rune (bitmap sb) (unat (blkSeg t)) CHR ''0'')) (\<lambda>bm.
       let nsb = flattenSb (sb\<lparr>bitmap := bm\<rparr>) in
       io_bind (Bpush dsk nsb) (\<lambda>err.
         if err \<noteq> OK then abortRetry dsk t
         else io_bind (Brelse dsk nsb) (\<lambda>_. io_return ())))) s"

definition AbortTransaction :: "'s Disk \<Rightarrow> TxnHandle \<Rightarrow> ('s, unit) io" where
  "AbortTransaction dsk t = io_bind (abortRetry dsk t) (\<lambda>_. EndTransaction dsk t True)"

subsection \<open>Start-up: sb.go\<close>

partial_function (option) InitSb :: "'s Disk \<Rightarrow> 's \<Rightarrow> (unit outcome \<times> 's) option" where
  "InitSb dsk s =
     io_bind (Bget dsk sbNr) (\<lambda>blk.
     let sb = parseSb blk in
     if 0 < commit_flag sb then
       io_bind (resurrect dsk sb) (\<lambda>r.
         if fst r \<noteq> None then InitSb dsk
         else io_bind (Brelse dsk (flattenSb sb)) (\<lambda>_. io_return ()))
     else
       let nsb = flattenSb (sb\<lparr>bitmap := zero_bitmap, cnt := 0, commit_flag := 0\<rparr>) in
       io_bind (Bpush dsk nsb) (\<lambda>err.
         if err \<noteq> OK then InitSb dsk
         else io_bind (Brelse dsk nsb) (\<lambda>_. io_return ()))) s"

subsection \<open>The on-disk formats\<close>

lemma parseSb_flattenSb [simp]:
  "CHR ''/'' \<notin> set (bitmap sb) \<Longrightarrow> parseSb (flattenSb sb) = sb"
  by (simp add: parseSb_def flattenSb_def go_simps)

lemma parseLb_flattenLb [simp]:
  "CHR ''/'' \<notin> set (rdata lb) \<Longrightarrow> parseLb (flattenLb lb) = lb"
  by (simp add: parseLb_def flattenLb_def go_simps)

lemma Nr_flattenSb [simp]: "Nr (flattenSb sb) = sbNr"
  by (simp add: flattenSb_def)

lemma Nr_flattenLb [simp]: "Nr (flattenLb lb) = lnr lb"
  by (simp add: flattenLb_def Let_def)

lemma lnr_parseLb [simp]: "lnr (parseLb blk) = Nr blk"
  by (simp add: parseLb_def Let_def)

text \<open>
  With a slash in the data the log block does not come back: the data is cut at the first slash
  and the flag is read from the rest.
\<close>

lemma parseLb_flattenLb_slash:
  assumes "CHR ''/'' \<notin> set a"
  shows "parseLb (flattenLb \<lparr>lnr = l, rnr = r, rdata = a @ ''/'' @ b, last_flag = f\<rparr>)
    = \<lparr>lnr = l, rnr = r, rdata = a,
       last_flag = (hd (Split (b @ ''/'' @ (if f then ''1'' else ''0'')) CHR ''/'') = ''1'')\<rparr>"
  using assms by (simp add: parseLb_def flattenLb_def go_simps hd_conv_nth)

lemma rdata_parseLb_noslash: "CHR ''/'' \<notin> set (rdata (parseLb blk))"
  using Split_parts [OF nth_mem, of 1 "Data blk" "CHR ''/''"] by (auto simp: parseLb_def Let_def)

text \<open>
  C30: the text form of a log block gives the log block back exactly when its data holds no slash.
\<close>

theorem parseLb_roundtrip_iff:
  "parseLb (flattenLb lb) = lb \<longleftrightarrow> CHR ''/'' \<notin> set (rdata lb)"
  by (metis parseLb_flattenLb rdata_parseLb_noslash)

end
