(* ===== verification/Jrnl_Replay.thy ===== *)
theory Jrnl_Replay
  imports Jrnl "HOL-Library.Sublist"
begin

section \<open>Replaying the log\<close>

text \<open>
  What the log on disk stands for (\<open>seg_log\<close>: the writes of one segment; \<open>logged\<close>: those of all
  segments of a bitmap, in the order of the segments), and that \<open>replayLogSegment\<close> and \<open>replay\<close>
  perform exactly these writes, whatever data blocks the client has locked, with every
  intermediate state a prefix of them.
\<close>

subsection \<open>Block numbers\<close>

text \<open>The blocks below 2 and from \<open>EndJrnl\<close> on are data blocks; the others belong to the journal.\<close>

definition data_blk :: "uint \<Rightarrow> bool" where
  "data_blk n \<longleftrightarrow> unat n < 2 \<or> 100003 \<le> unat n"

definition log_blk :: "uint \<Rightarrow> bool" where
  "log_blk n \<longleftrightarrow> 3 \<le> unat n \<and> unat n < 100003"

lemmas jrnl_consts = sbNr_def logStart_def blkPerSys_def sysPerLog_def EndJrnl_def

lemma not_data_sbNr [simp]: "\<not> data_blk sbNr"
  by (simp add: data_blk_def sbNr_def)

lemma not_log_sbNr [simp]: "\<not> log_blk sbNr"
  by (simp add: log_blk_def sbNr_def)

lemma data_not_log: "data_blk n \<Longrightarrow> \<not> log_blk n"
  by (auto simp: data_blk_def log_blk_def)

lemma unat_EndJrnl: "unat EndJrnl = 100003"
  by (simp add: jrnl_consts)

definition seg_start :: "nat \<Rightarrow> uint" where
  "seg_start i = getLogSegmentStart (of_nat i)"

lemma unat_seg_start: "i < 1000 \<Longrightarrow> unat (seg_start i) = 100 * i + 3"
  by (simp add: seg_start_def getLogSegmentStart_def jrnl_consts unat_word_ariths unat_of_nat)

lemma unat_plus_small:
  "unat (n :: uint) + k < 2 ^ 64 \<Longrightarrow> unat (n + of_nat k) = unat n + k"
  by (simp add: unat_word_ariths unat_of_nat)

lemma unat_inc: "unat (n :: uint) < 100003 \<Longrightarrow> unat (n + 1) = Suc (unat n)"
  using unat_plus_small [of n 1] by simp

subsection \<open>The writes a log stands for\<close>

type_synonym wr = "uint \<times> string"

definition apply_writes :: "wr list \<Rightarrow> (uint \<Rightarrow> string) \<Rightarrow> uint \<Rightarrow> string" where
  "apply_writes ws V = fold (\<lambda>(n, d) V. V(n := d)) ws V"

lemma apply_writes_Nil [simp]: "apply_writes [] V = V"
  by (simp add: apply_writes_def)

lemma apply_writes_Cons [simp]: "apply_writes ((n, d) # ws) V = apply_writes ws (V(n := d))"
  by (simp add: apply_writes_def)

lemma apply_writes_append [simp]: "apply_writes (xs @ ys) V = apply_writes ys (apply_writes xs V)"
  by (simp add: apply_writes_def)

lemma apply_writes_other: "n \<notin> fst ` set ws \<Longrightarrow> apply_writes ws V n = V n"
  by (induction ws arbitrary: V) auto

lemma apply_writes_cong:
  "n \<in> fst ` set ws \<or> V n = W n \<Longrightarrow> apply_writes ws V n = apply_writes ws W n"
proof (induction ws arbitrary: V W)
  case (Cons w ws)
  obtain a b where w: "w = (a, b)" by (cases w)
  have "n \<in> fst ` set ws \<or> (V(a := b)) n = (W(a := b)) n"
    using Cons.prems w by auto
  then have "apply_writes ws (V(a := b)) n = apply_writes ws (W(a := b)) n"
    by (rule Cons.IH)
  with w show ?case by simp
qed simp

text \<open>Repeating the whole log after any part of it has been applied gives the same result.\<close>

lemma apply_writes_idem:
  assumes "set xs \<subseteq> set ws"
  shows "apply_writes ws (apply_writes xs V) = apply_writes ws V"
proof
  fix n
  show "apply_writes ws (apply_writes xs V) n = apply_writes ws V n"
    using assms apply_writes_other [of n xs V] by (intro apply_writes_cong) blast
qed

fun seg_log :: "(uint \<Rightarrow> string) \<Rightarrow> nat \<Rightarrow> uint \<Rightarrow> wr list option" where
  "seg_log V 0 lbn = None"
| "seg_log V (Suc k) lbn =
     (let lb = parseLb \<lparr>Nr = lbn, Data = V lbn\<rparr> in
      if last_flag lb then Some [(rnr lb, rdata lb)]
      else map_option ((#) (rnr lb, rdata lb)) (seg_log V k (lbn + 1)))"

text \<open>All writes go to data blocks.\<close>

definition data_writes :: "wr list \<Rightarrow> bool" where
  "data_writes ws = list_all (\<lambda>w. data_blk (fst w)) ws"

definition seg_ok :: "(uint \<Rightarrow> string) \<Rightarrow> nat \<Rightarrow> bool" where
  "seg_ok V i = (case seg_log V 100 (seg_start i) of None \<Rightarrow> False | Some ws \<Rightarrow> data_writes ws)"

definition seg_of :: "(uint \<Rightarrow> string) \<Rightarrow> nat \<Rightarrow> wr list" where
  "seg_of V i = (case seg_log V 100 (seg_start i) of None \<Rightarrow> [] | Some ws \<Rightarrow> ws)"

definition logged :: "(uint \<Rightarrow> string) \<Rightarrow> nat list \<Rightarrow> wr list" where
  "logged V is = concat (map (seg_of V) is)"

definition used_segs :: "string \<Rightarrow> nat list" where
  "used_segs bm = filter (\<lambda>i. bm ! i = CHR ''1'') [0..<length bm]"

lemma seg_log_cong:
  assumes "\<And>n. unat lbn \<le> unat n \<Longrightarrow> unat n < unat lbn + k \<Longrightarrow> V n = W n"
    and "unat lbn + k \<le> 100003"
  shows "seg_log V k lbn = seg_log W k lbn"
  using assms
proof (induction k arbitrary: lbn)
  case (Suc k)
  have "unat (lbn + 1) = Suc (unat lbn)"
    using Suc.prems(2) by (intro unat_inc) simp
  then have "seg_log V k (lbn + 1) = seg_log W k (lbn + 1)"
    using Suc.prems by (intro Suc.IH) auto
  moreover have "V lbn = W lbn" using Suc.prems(1) by simp
  ultimately show ?case by (simp add: Let_def)
qed simp

lemma seg_log_log_cong:
  assumes "\<And>n. log_blk n \<Longrightarrow> V n = W n" and "3 \<le> unat lbn" and "unat lbn + k \<le> 100003"
  shows "seg_log V k lbn = seg_log W k lbn"
  using assms by (intro seg_log_cong) (auto simp: log_blk_def)

lemma apply_writes_log_blk:
  "data_writes ws \<Longrightarrow> \<not> data_blk n \<Longrightarrow> apply_writes ws V n = V n"
  by (rule apply_writes_other) (auto simp: data_writes_def list_all_iff)

lemma seg_log_apply_writes:
  assumes "data_writes ws" and "3 \<le> unat lbn" and "unat lbn + k \<le> 100003"
  shows "seg_log (apply_writes ws V) k lbn = seg_log V k lbn"
  using assms by (intro seg_log_log_cong) (auto intro: apply_writes_log_blk dest: data_not_log)

lemma data_writes_simps [simp]:
  "data_writes []" "data_writes (w # ws) \<longleftrightarrow> data_blk (fst w) \<and> data_writes ws"
  "data_writes (xs @ ys) \<longleftrightarrow> data_writes xs \<and> data_writes ys"
  by (auto simp: data_writes_def)

lemma seg_of_apply_writes [simp]:
  "data_writes ws \<Longrightarrow> i < 1000 \<Longrightarrow> seg_of (apply_writes ws V) i = seg_of V i"
  "data_writes ws \<Longrightarrow> i < 1000 \<Longrightarrow> seg_ok (apply_writes ws V) i = seg_ok V i"
  by (simp_all add: seg_of_def seg_ok_def seg_log_apply_writes unat_seg_start)

lemma logged_simps [simp]: "logged V [] = []" "logged V (i # is) = seg_of V i @ logged V is"
  by (simp_all add: logged_def)

lemma logged_apply_writes [simp]:
  "data_writes ws \<Longrightarrow> \<forall>i \<in> set is. i < 1000 \<Longrightarrow> logged (apply_writes ws V) is = logged V is"
  by (induction "is") simp_all

lemma data_writes_seg: "seg_ok V i \<Longrightarrow> data_writes (seg_of V i)"
  by (simp add: seg_ok_def seg_of_def split: option.splits)

lemma data_writes_logged: "\<forall>i \<in> set is. seg_ok V i \<Longrightarrow> data_writes (logged V is)"
  by (induction "is") (simp_all add: data_writes_seg)

text \<open>The locks left after the writes \<open>ws\<close>: those of the blocks written are released.\<close>

definition held_after :: "wr list \<Rightarrow> (uint \<Rightarrow> bool) \<Rightarrow> uint \<Rightarrow> bool" where
  "held_after ws H n \<longleftrightarrow> H n \<and> n \<notin> fst ` set ws"

lemma held_after_simps [simp]:
  "held_after [] H = H"
  "held_after ws (H(n := False)) = held_after ((n, d) # ws) H"
  "held_after ys (held_after xs H) = held_after (xs @ ys) H"
  by (auto simp: held_after_def fun_eq_iff)

lemma held_after_data:
  "data_writes ws \<Longrightarrow> \<not> data_blk n \<Longrightarrow> held_after ws H n = H n"
  by (auto simp: held_after_def data_writes_def list_all_iff)

lemma held_after_single: "held_after [(n, d)] H = H(n := False)"
  by (auto simp: held_after_def fun_eq_iff)

lemma held_after_False [simp]: "\<not> H n \<Longrightarrow> \<not> held_after ws H n"
  by (simp add: held_after_def)

subsection \<open>replayLogSegment and replay perform the logged writes\<close>

context block_store
begin

definition log_unlocked :: "'s \<Rightarrow> bool" where
  "log_unlocked s \<longleftrightarrow> (\<forall>n. log_blk n \<longrightarrow> \<not> held s n)"

lemma replayFrom_step_held:
  fixes s :: 's and lbn :: uint
  defines "lb \<equiv> parseLb \<lparr>Nr = lbn, Data = val s lbn\<rparr>"
  assumes s: "okay s" "\<not> held s lbn" "held s sbNr" "held s (rnr lb)" "lbn \<noteq> sbNr" "lbn \<noteq> rnr lb"
    and safe: "safe C (val s)" "safe C ((val s)(rnr lb := rdata lb))"
    and "next": "\<And>s'. okay s' \<Longrightarrow> val s' = (val s)(rnr lb := rdata lb) \<Longrightarrow>
      held s' = (held s)(rnr lb := False) \<Longrightarrow>
      (if last_flag lb then Q None s' else wp (replayFrom dsk sb (lbn + 1)) Q C s')"
  shows "wp (replayFrom dsk sb lbn) Q C s"
proof -
  have lnr: "lnr lb = lbn" by (simp add: lb_def)
  show ?thesis
    by (subst replayFrom.simps [abs_def], unfold Let_def, intro wp_intro)
      (use s safe "next" lnr in \<open>auto simp: lb_def [symmetric] fun_upd_idem\<close>)
qed

lemma replayFrom_step:
  fixes s :: 's and lbn :: uint
  defines "lb \<equiv> parseLb \<lparr>Nr = lbn, Data = val s lbn\<rparr>"
  assumes s: "okay s" "\<not> held s lbn" "held s sbNr" "log_blk lbn" "data_blk (rnr lb)"
    and safe: "safe C (val s)" "safe C ((val s)(rnr lb := rdata lb))"
    and "next": "\<And>s'. okay s' \<Longrightarrow> val s' = (val s)(rnr lb := rdata lb) \<Longrightarrow>
      held s' = (held s)(rnr lb := False) \<Longrightarrow>
      (if last_flag lb then Q None s' else wp (replayFrom dsk sb (lbn + 1)) Q C s')"
  shows "wp (replayFrom dsk sb lbn) Q C s"
proof -
  have lnr: "lnr lb = lbn" by (simp add: lb_def)
  have neq: "lbn \<noteq> sbNr" "lbn \<noteq> rnr lb" "rnr lb \<noteq> sbNr"
    using s data_not_log by auto
  show ?thesis
  proof (cases "held s (rnr lb)")
    case True
    then show ?thesis
      unfolding lb_def using s safe neq "next"
      by (intro replayFrom_step_held) (simp_all add: lb_def)
  next
    case False
    have retry: "wp (replayFrom dsk sb lbn) Q C s'"
      if "okay s'" "val s' = val s" "held s' = (held s)(rnr lb := True)" for s'
      using that s safe neq "next"
      by (intro replayFrom_step_held) (simp_all add: lb_def)
    show ?thesis
      by (subst replayFrom.simps [abs_def], unfold Let_def, intro bind_Bpush_free wp_intro)
        (use s safe neq lnr False retry in \<open>auto simp: lb_def [symmetric] fun_upd_idem\<close>)
  qed
qed

lemma replayFrom_wp:
  assumes "okay s" "log_unlocked s" "held s sbNr"
    and "seg_log (val s) k lbn = Some ws" "data_writes ws"
    and "3 \<le> unat lbn" "unat lbn + k \<le> 100003"
    and "\<And>xs. prefix xs ws \<Longrightarrow> safe C (apply_writes xs (val s))"
    and "\<And>s'. okay s' \<Longrightarrow> val s' = apply_writes ws (val s) \<Longrightarrow> held s' = held_after ws (held s) \<Longrightarrow>
           Q None s'"
  shows "wp (replayFrom dsk sb lbn) Q C s"
  using assms
proof (induction k arbitrary: s lbn ws)
  case (Suc k)
  define lb where "lb = parseLb \<lparr>Nr = lbn, Data = val s lbn\<rparr>"
  obtain ws' where ws: "ws = (rnr lb, rdata lb) # ws'"
    and ws': "if last_flag lb then ws' = [] else seg_log (val s) k (lbn + 1) = Some ws'"
    using Suc.prems(4) by (auto simp: lb_def Let_def split: if_splits)
  have lbn: "log_blk lbn" "unat (lbn + 1) = Suc (unat lbn)"
    using Suc.prems(6,7) by (auto simp: log_blk_def intro: unat_inc)
  have data: "data_blk (rnr lb)" "data_writes ws'" "rnr lb \<noteq> sbNr"
    using Suc.prems(5) ws by auto
  have safe: "safe C (val s)" "safe C ((val s)(rnr lb := rdata lb))"
    using Suc.prems(8) [of "[]"] Suc.prems(8) [of "[(rnr lb, rdata lb)]"] ws
    by (simp_all add: fun_upd_def)
  show ?case
  proof (rule replayFrom_step [OF Suc.prems(1) _ Suc.prems(3) lbn(1)], goal_cases)
    case (5 s')
    note s' = 5 [folded lb_def]
    show ?case
    proof (cases "last_flag lb")
      case True
      with s' ws ws' Suc.prems(9) show ?thesis
        by (simp add: lb_def fun_upd_def held_after_single)
    next
      case False
      have "seg_log (val s') k (lbn + 1) = Some ws'"
        using ws' False Suc.prems(6,7) lbn(2) data(1)
          seg_log_apply_writes [of "[(rnr lb, rdata lb)]" "lbn + 1" k "val s"] s'(2) by simp
      moreover have "safe C (apply_writes xs (val s'))" if "prefix xs ws'" for xs
        using Suc.prems(8) [of "(rnr lb, rdata lb) # xs"] that ws s'(2) by simp
      moreover have "log_unlocked s'" "held s' sbNr"
        using Suc.prems(2,3) s'(3) data(3) by (auto simp: log_unlocked_def)
      ultimately have "wp (replayFrom dsk sb (lbn + 1)) Q C s'"
        using s' Suc.prems(6,7,9) lbn(2) data(2) ws by (intro Suc.IH) (auto simp del: fun_upd_apply)
      with False show ?thesis by (simp add: lb_def)
    qed
  qed (use Suc.prems lbn data safe in \<open>auto simp: lb_def log_unlocked_def\<close>)
qed simp

lemma replay_range_wp:
  fixes ps :: "(nat \<times> nat) list" and s :: 's
  defines "is \<equiv> map fst (filter (\<lambda>p. snd p = of_char CHR ''1'') ps)"
  assumes "okay s" "log_unlocked s" "held s sbNr"
    and "\<forall>i \<in> set is. i < 1000 \<and> seg_ok (val s) i"
    and "\<And>xs. prefix xs (logged (val s) is) \<Longrightarrow> safe C (apply_writes xs (val s))"
    and "\<And>s'. okay s' \<Longrightarrow> val s' = apply_writes (logged (val s) is) (val s) \<Longrightarrow>
           held s' = held_after (logged (val s) is) (held s) \<Longrightarrow> Q None s'"
  shows "wp (replay_range dsk sb ps) Q C s"
  using assms(2-) unfolding is_def
proof (induction ps arbitrary: s)
  case Nil
  then show ?case by simp
next
  case (Cons p ps)
  obtain i v where p: "p = (i, v)" by (cases p)
  let ?is = "map fst (filter (\<lambda>p. snd p = of_char CHR ''1'') ps)"
  show ?case
  proof (cases "v = of_char CHR ''1''")
    case False
    with Cons p show ?thesis by simp
  next
    case True
    have i: "i < 1000" "seg_ok (val s) i"
      using Cons.prems(4) p True by auto
    then obtain ws where ws: "seg_log (val s) 100 (seg_start i) = Some ws" "data_writes ws"
      "seg_of (val s) i = ws"
      by (auto simp: seg_ok_def seg_of_def split: option.splits)
    have "wp (replayFrom dsk sb (seg_start i))
      (\<lambda>err. wp (if err \<noteq> None then io_return (Some ''lock lease expired'') else replay_range dsk sb ps) Q C)
      C s"
    proof (rule replayFrom_wp [OF Cons.prems(1-3) ws(1,2)], goal_cases)
      case (4 s')
      have "wp (replay_range dsk sb ps) Q C s'"
      proof (rule Cons.IH, goal_cases)
        case (5 xs)
        then show ?case
          using Cons.prems(5) [of "ws @ xs"] p True 4(2) ws Cons.prems(4) by simp
      next
        case (6 s'')
        then show ?case
          using Cons.prems(6) [of s''] p True 4(2,3) ws Cons.prems(4) by simp
      qed (use 4 Cons.prems ws p True in
          \<open>auto simp: log_unlocked_def held_after_data dest: data_not_log\<close>)
      then show ?case by simp
    qed (use Cons.prems(5) i ws p True in \<open>auto simp: unat_seg_start intro: prefix_prefix\<close>)
    then show ?thesis
      using p True by (simp add: wp_bind replayLogSegment_def seg_start_def)
  qed
qed

end

end
