(* ===== verification/Jrnl_Txn.thy ===== *)
theory Jrnl_Txn
  imports Jrnl_Replay
begin

section \<open>The operations of the journal\<close>

text \<open>
  What every operation of the journal does to the blocks and to the locks, for any disk that
  satisfies \<open>block_store\<close>, and with the block contents at every point where the client may stop.
  The properties at the end are stated for the disks of the sources.
\<close>

subsection \<open>Superblocks\<close>

definition wf_bitmap :: "string \<Rightarrow> bool" where
  "wf_bitmap bm \<longleftrightarrow> length bm = 1000 \<and> set bm \<subseteq> {CHR ''0'', CHR ''1''}"

definition sb_on :: "(uint \<Rightarrow> string) \<Rightarrow> logSB" where
  "sb_on V = parseSb \<lparr>Nr = sbNr, Data = V sbNr\<rparr>"

definition set_sb :: "logSB \<Rightarrow> (uint \<Rightarrow> string) \<Rightarrow> uint \<Rightarrow> string" where
  "set_sb sb V = V(sbNr := Data (flattenSb sb))"

definition idle_sb :: logSB where
  "idle_sb = \<lparr>bitmap = zero_bitmap, cnt = 0, commit_flag = 0\<rparr>"

lemma wf_bitmapD: "wf_bitmap bm \<Longrightarrow> c \<in> set bm \<Longrightarrow> c = CHR ''0'' \<or> c = CHR ''1''"
  by (auto simp: wf_bitmap_def)

lemma wf_bitmap_ascii: "wf_bitmap bm \<Longrightarrow> ascii bm"
  unfolding ascii_def by (rule ballI, drule (1) wf_bitmapD) auto

lemma wf_bitmap_noslash [simp]: "wf_bitmap bm \<Longrightarrow> CHR ''/'' \<notin> set bm"
  by (auto dest: wf_bitmapD)

lemma length_wf_bitmap: "wf_bitmap bm \<Longrightarrow> length bm = 1000"
  by (simp add: wf_bitmap_def)

lemma wf_bitmap_update [simp]:
  "wf_bitmap bm \<Longrightarrow> c = CHR ''0'' \<or> c = CHR ''1'' \<Longrightarrow> wf_bitmap (bm[i := c])"
  unfolding wf_bitmap_def using set_update_subset_insert [of bm i c] by auto

lemma wf_zero_bitmap [simp]: "wf_bitmap zero_bitmap"
  by (simp add: wf_bitmap_def zero_bitmap_def sysPerLog_def)

lemma sb_on_set_sb [simp]: "CHR ''/'' \<notin> set (bitmap sb) \<Longrightarrow> sb_on (set_sb sb V) = sb"
proof -
  have "sb_on (set_sb sb V) = parseSb (flattenSb sb)"
    by (simp add: sb_on_def set_sb_def parseSb_def)
  then show "CHR ''/'' \<notin> set (bitmap sb) \<Longrightarrow> ?thesis" by simp
qed

lemma set_sb_other [simp]: "n \<noteq> sbNr \<Longrightarrow> set_sb sb V n = V n"
  by (simp add: set_sb_def)

lemma set_sb_set_sb [simp]: "set_sb sb (set_sb sb' V) = set_sb sb V"
  by (simp add: set_sb_def)

lemma sb_on_cong: "V sbNr = W sbNr \<Longrightarrow> sb_on V = sb_on W"
  by (simp add: sb_on_def)

lemma sb_on_apply_writes [simp]: "data_writes ws \<Longrightarrow> sb_on (apply_writes ws V) = sb_on V"
  by (intro sb_on_cong apply_writes_log_blk) simp_all

lemma parseSb_sb_on [simp]: "parseSb \<lparr>Nr = sbNr, Data = V sbNr\<rparr> = sb_on V"
  by (simp add: sb_on_def)

lemma Data_flattenSb_set: "V(sbNr := Data (flattenSb sb)) = set_sb sb V"
  by (simp add: set_sb_def)

lemma apply_writes_set_sb:
  assumes "data_writes ws"
  shows "apply_writes ws (set_sb sb V) = set_sb sb (apply_writes ws V)"
proof
  fix n
  show "apply_writes ws (set_sb sb V) n = set_sb sb (apply_writes ws V) n"
    using apply_writes_log_blk [OF assms not_data_sbNr] apply_writes_cong [of n ws "set_sb sb V" V]
    by (cases "n = sbNr") (simp_all add: set_sb_def)
qed

lemma seg_set_sb [simp]:
  "i < 1000 \<Longrightarrow> seg_ok (set_sb sb V) i = seg_ok V i"
  "i < 1000 \<Longrightarrow> seg_of (set_sb sb V) i = seg_of V i"
proof -
  assume i: "i < 1000"
  have "seg_log (set_sb sb V) 100 (seg_start i) = seg_log V 100 (seg_start i)"
  proof (rule seg_log_log_cong)
    show "log_blk n \<Longrightarrow> set_sb sb V n = V n" for n
      by (cases "n = sbNr") simp_all
  qed (use i in \<open>simp_all add: unat_seg_start\<close>)
  then show "seg_ok (set_sb sb V) i = seg_ok V i" "seg_of (set_sb sb V) i = seg_of V i"
    by (simp_all add: seg_ok_def seg_of_def)
qed

lemma logged_set_sb [simp]: "\<forall>i \<in> set is. i < 1000 \<Longrightarrow> logged (set_sb sb V) is = logged V is"
  by (induction "is") simp_all

subsection \<open>Bitmaps\<close>

lemma range_string_wf:
  "wf_bitmap bm \<Longrightarrow> range_string bm = zip [0..<length bm] (map of_char bm)"
  by (rule range_string_ascii [OF wf_bitmap_ascii])

lemma used_segs_range:
  assumes "wf_bitmap bm"
  shows "map fst (filter (\<lambda>p. snd p = of_char CHR ''1'') (range_string bm)) = used_segs bm"
proof -
  have "range_string bm = map (\<lambda>i. (i, of_char (bm ! i))) [0..<length bm]"
    unfolding range_string_wf [OF assms] by (rule nth_equalityI) auto
  then show ?thesis
    by (simp add: used_segs_def filter_map comp_def)
qed

lemma used_segs_less: "wf_bitmap bm \<Longrightarrow> i \<in> set (used_segs bm) \<Longrightarrow> i < 1000"
  by (auto simp: used_segs_def wf_bitmap_def)

lemma hasValid_wf: "wf_bitmap bm \<Longrightarrow> hasValid bm \<longleftrightarrow> used_segs bm \<noteq> []"
proof -
  assume wf: "wf_bitmap bm"
  have "hasValid bm \<longleftrightarrow> (\<exists>c \<in> set bm. c \<noteq> CHR ''0'')"
    by (simp add: hasValid_def runes_of_string_ascii [OF wf_bitmap_ascii [OF wf]])
  also have "\<dots> \<longleftrightarrow> (\<exists>c \<in> set bm. c = CHR ''1'')"
    using wf_bitmapD [OF wf] by auto
  also have "\<dots> \<longleftrightarrow> used_segs bm \<noteq> []"
    by (auto simp: used_segs_def filter_empty_conv in_set_conv_nth)
  finally show ?thesis .
qed

lemma set_rune_wf:
  assumes "wf_bitmap bm" and "i < 1000" and "of_char c < (128::nat)"
  shows "set_rune bm i c = Ret (bm[i := c])"
proof -
  have r: "runes_of_string bm = map of_char bm"
    by (rule runes_of_string_ascii [OF wf_bitmap_ascii [OF assms(1)]])
  have "ascii (bm[i := c])"
    using wf_bitmap_ascii [OF assms(1)] assms(3) set_update_subset_insert [of bm i c]
    unfolding ascii_def by blast
  then have "string_of_runes (map of_char (bm[i := c])) = bm[i := c]"
    by (subst string_of_runes_ascii) (auto simp: ascii_def map_idI)
  with assms r show ?thesis
    by (simp add: set_rune_def wf_bitmap_def map_update)
qed

text \<open>The first free segment, which \<open>BeginTransaction\<close> takes.\<close>

lemma find_rune_wf:
  assumes "wf_bitmap bm" and "i < 1000" and "bm ! i = CHR ''0''" and "\<forall>j < i. bm ! j \<noteq> CHR ''0''"
  shows "find_rune CHR ''0'' bm = Some i"
proof -
  have "range_string bm = map (\<lambda>i. (i, of_char (bm ! i))) [0..<length bm]"
    unfolding range_string_wf [OF assms(1)] by (rule nth_equalityI) auto
  moreover have "find (\<lambda>(i, r). r = (of_char CHR ''0'' :: nat))
      (map (\<lambda>i. (i, of_char (bm ! i))) [0..<length bm]) = Some (i, of_char CHR ''0'')"
    using assms length_wf_bitmap [OF assms(1)]
    by (subst find_Some_iff) (auto intro!: exI [of _ i])
  ultimately show ?thesis by (simp add: find_rune_def)
qed

lemma free_seg:
  assumes "wf_bitmap bm" and "used_segs bm \<noteq> [0..<1000]"
  obtains i where "i < 1000" and "bm ! i = CHR ''0''" and "\<forall>j < i. bm ! j \<noteq> CHR ''0''"
proof -
  have "\<exists>i. i < 1000 \<and> bm ! i = CHR ''0''"
  proof (rule ccontr)
    assume "\<nexists>i. i < 1000 \<and> bm ! i = CHR ''0''"
    then have "\<forall>i \<in> set [0..<length bm]. bm ! i = CHR ''1''"
      using wf_bitmapD [OF assms(1) nth_mem] length_wf_bitmap [OF assms(1)] by auto
    then have "used_segs bm = [0..<length bm]"
      by (simp add: used_segs_def)
    with assms length_wf_bitmap show False by simp
  qed
  then obtain i where "i < 1000 \<and> bm ! i = CHR ''0''" "\<forall>j < i. \<not> (j < 1000 \<and> bm ! j = CHR ''0'')"
    using exists_least_iff [of "\<lambda>i. i < 1000 \<and> bm ! i = CHR ''0''"] by blast
  then show ?thesis using that [of i] by auto
qed

subsection \<open>The operations over any disk\<close>

text \<open>The log block the code writes for a block of a transaction, and its marking as the last.\<close>

definition log_rec :: "uint \<Rightarrow> Block \<Rightarrow> bool \<Rightarrow> string" where
  "log_rec lbn b f = Data (flattenLb \<lparr>lnr = lbn, rnr = Nr b, rdata = Data b, last_flag = f\<rparr>)"

definition mark_rec :: "uint \<Rightarrow> string \<Rightarrow> string" where
  "mark_rec lbn d = Data (flattenLb ((parseLb \<lparr>Nr = lbn, Data = d\<rparr>)\<lparr>last_flag := True\<rparr>))"

definition last_lbn :: "TxnHandle \<Rightarrow> uint" where
  "last_lbn t = (if offset t = 0 then getLogSegmentStart (blkSeg t)
                 else getLogSegmentStart (blkSeg t) + offset t - 1)"

context block_store
begin

lemma replay_wp:
  assumes "okay s" "log_unlocked s" "held s sbNr" "wf_bitmap (bitmap sb)"
    and "\<forall>i \<in> set (used_segs (bitmap sb)). seg_ok (val s) i"
    and "\<And>xs. prefix xs (logged (val s) (used_segs (bitmap sb))) \<Longrightarrow> safe C (apply_writes xs (val s))"
    and "\<And>s'. okay s' \<Longrightarrow> val s' = apply_writes (logged (val s) (used_segs (bitmap sb))) (val s) \<Longrightarrow>
           held s' = held_after (logged (val s) (used_segs (bitmap sb))) (held s) \<Longrightarrow> wp (f None) Q C s'"
  shows "wp (io_bind (replay dsk sb) f) Q C s"
  unfolding wp_bind replay_def
  by (rule replay_range_wp, unfold used_segs_range [OF assms(4)])
    (use assms used_segs_less [OF assms(4)] in auto)

lemma wp_writeLogBlock [wp_intro]:
  assumes "okay s" "\<not> held s lbn" "safe C (val s)" "safe C ((val s)(lbn := log_rec lbn b False))"
    and "\<And>s'. okay s' \<Longrightarrow> val s' = (val s)(lbn := log_rec lbn b False) \<Longrightarrow> held s' = held s \<Longrightarrow>
           wp (f ()) Q C s'"
  shows "wp (io_bind (writeLogBlock dsk lbn b) f) Q C s"
  unfolding wp_bind
  by (subst writeLogBlock.simps [abs_def], unfold Let_def, intro wp_intro)
    (use assms in \<open>auto simp: log_rec_def fun_upd_idem flattenLb_def Let_def\<close>)

lemma wp_markLast [wp_intro]:
  assumes "okay s" "\<not> held s (last_lbn t)" "safe C (val s)"
    and "safe C ((val s)(last_lbn t := mark_rec (last_lbn t) (val s (last_lbn t))))"
    and "\<And>s'. okay s' \<Longrightarrow> val s' = (val s)(last_lbn t := mark_rec (last_lbn t) (val s (last_lbn t))) \<Longrightarrow>
           held s' = held s \<Longrightarrow> wp (f ()) Q C s'"
  shows "wp (io_bind (markLast dsk t) f) Q C s"
proof -
  have lbn: "(if offset t = 0 then getLogSegmentStart (blkSeg t) + offset t - 1 + 1
      else getLogSegmentStart (blkSeg t) + offset t - 1) = last_lbn t"
    by (simp add: last_lbn_def)
  show ?thesis
    unfolding wp_bind
    by (subst markLast.simps [abs_def], unfold Let_def lbn, intro wp_intro)
      (use assms in \<open>auto simp: mark_rec_def fun_upd_idem\<close>)
qed

lemma wp_BeginTransaction:
  assumes "okay s" "\<not> held s sbNr" "safe C (val s)"
    and sb: "commit_flag (sb_on (val s)) = 0" "wf_bitmap (bitmap (sb_on (val s)))"
    and i: "i < 1000" "bitmap (sb_on (val s)) ! i = CHR ''0''"
      "\<forall>j < i. bitmap (sb_on (val s)) ! j \<noteq> CHR ''0''"
    and sb': "sb' = (sb_on (val s))\<lparr>bitmap := (bitmap (sb_on (val s)))[i := CHR ''1''],
      cnt := cnt (sb_on (val s)) + 1\<rparr>" "safe C (set_sb sb' (val s))"
    and "\<And>s'. okay s' \<Longrightarrow> val s' = set_sb sb' (val s) \<Longrightarrow> held s' = held s \<Longrightarrow>
           wp (f \<lparr>blkSeg = of_nat i, offset = 0\<rparr>) Q C s'"
  shows "wp (io_bind (BeginTransaction dsk) f) Q C s"
proof -
  have r: "find_rune CHR ''0'' (bitmap (sb_on (val s))) = Some i"
    by (rule find_rune_wf [OF sb(2) i])
  have b: "set_rune (bitmap (sb_on (val s))) i CHR ''1'' = Ret ((bitmap (sb_on (val s)))[i := CHR ''1''])"
    by (rule set_rune_wf [OF sb(2) i(1)]) simp
  have sb'_eq: "(sb_on (val s))\<lparr>bitmap := (bitmap (sb_on (val s)))[i := CHR ''1''],
      cnt := cnt (sb_on (val s)) + 1\<rparr> = sb'"
    using sb' by simp
  show ?thesis
    unfolding wp_bind
    by (subst BeginTransaction.simps [abs_def], unfold Let_def, intro wp_intro)
      (use assms(1-3,9-) sb r b sb'_eq in \<open>auto simp: fun_upd_idem Data_flattenSb_set intro!: wp_intro\<close>)
qed

lemma wp_commit:
  fixes s :: 's and sb :: logSB
  defines "ws \<equiv> logged (val s) (used_segs (bitmap sb))"
  assumes s: "okay s" "log_unlocked s" "held s sbNr" "wf_bitmap (bitmap sb)"
    and segs: "\<forall>i \<in> set (used_segs (bitmap sb)). seg_ok (val s) i"
    and safe: "safe C (val s)"
      "\<And>xs. prefix xs ws \<Longrightarrow> safe C (apply_writes xs (set_sb (sb\<lparr>commit_flag := 1\<rparr>) (val s)))"
      "safe C (set_sb (sb\<lparr>commit_flag := 0, bitmap := zero_bitmap\<rparr>) (apply_writes ws (val s)))"
    and post: "\<And>sb' s'. okay s' \<Longrightarrow>
      val s' = set_sb (sb\<lparr>commit_flag := 0, bitmap := zero_bitmap\<rparr>) (apply_writes ws (val s)) \<Longrightarrow>
      held s' = held_after ws (held s) \<Longrightarrow> wp (f (None, sb')) Q C s'"
  shows "wp (io_bind (commit dsk sb) f) Q C s"
proof -
  let ?sb1 = "sb\<lparr>commit_flag := 1\<rparr>"
  let ?sb2 = "sb\<lparr>commit_flag := 0, bitmap := zero_bitmap\<rparr>"
  let ?g = "\<lambda>rerr. if rerr \<noteq> None then io_return (Some ''lock lease expired'', ?sb1)
     else io_bind (Bpush dsk (flattenSb ?sb2)) (\<lambda>err2.
       if err2 \<noteq> OK then io_return (Some ''lock lease expired'', ?sb2) else io_return (None, ?sb2))"
  have data: "data_writes ws"
    unfolding ws_def using segs by (rule data_writes_logged)
  have le: "\<forall>i \<in> set (used_segs (bitmap sb)). i < 1000"
    using used_segs_less [OF s(4)] by blast
  have ws1: "logged (set_sb ?sb1 (val s)) (used_segs (bitmap ?sb1)) = ws"
    using le by (simp add: ws_def)
  have "wp (io_bind (replay dsk ?sb1) ?g) (\<lambda>x. wp (f x) Q C) C s1"
    if s1: "okay s1" "val s1 = set_sb ?sb1 (val s)" "held s1 = held s" for s1
  proof (rule replay_wp, unfold s1 ws1, goal_cases)
    case (7 s')
    note s' = this
    have "held s' sbNr" using s' s(3) data by (simp add: held_after_data)
    then show ?case
      using s' safe(2) [of ws] safe(3) post data
      by (auto intro!: wp_intro simp: Data_flattenSb_set apply_writes_set_sb)
  qed (use s s1 segs safe le in \<open>auto simp: log_unlocked_def\<close>)
  note R = this
  have sb2: "?sb1\<lparr>commit_flag := 0, bitmap := zero_bitmap\<rparr> = ?sb2" by simp
  have "wp (commit dsk sb) (\<lambda>x. wp (f x) Q C) C s"
    unfolding commit_def Let_def sb2 using R
    by (intro bind_Bpush) (use s safe(1) in \<open>auto simp: Data_flattenSb_set\<close>)
  then show ?thesis by (simp add: wp_bind)
qed

text \<open>
  The end of a transaction: the counter goes down and nothing else changes, unless it was the last
  one outstanding and some segment is in use; then all the logged writes are performed.
\<close>

lemma wp_endRetry_dec:
  fixes s :: 's
  defines "sb \<equiv> (sb_on (val s))\<lparr>cnt := cnt (sb_on (val s)) - 1\<rparr>"
  assumes s: "okay s" "\<not> held s sbNr" "commit_flag (sb_on (val s)) = 0" "wf_bitmap (bitmap sb)"
    and nocommit: "cnt sb \<noteq> 0 \<or> used_segs (bitmap sb) = []"
    and safe: "safe C (val s)" "safe C (set_sb sb (val s))"
    and post: "\<And>s'. okay s' \<Longrightarrow> val s' = set_sb sb (val s) \<Longrightarrow> held s' = held s \<Longrightarrow> Q () s'"
  shows "wp (endRetry dsk) Q C s"
proof -
  have nc: "\<not> (cnt sb = 0 \<and> hasValid (bitmap sb))"
    using nocommit hasValid_wf [OF s(4)] by simp
  show ?thesis
    by (subst endRetry.simps [abs_def], unfold Let_def, intro wp_intro, unfold parseSb_sb_on sb_def [symmetric])
      (use s nc safe post in \<open>auto simp: Data_flattenSb_set fun_upd_idem\<close>)
qed

lemma wp_endRetry_commit:
  fixes s :: 's
  defines "bm \<equiv> bitmap (sb_on (val s))"
  defines "ws \<equiv> logged (val s) (used_segs bm)"
  assumes s: "okay s" "log_unlocked s" "\<not> held s sbNr" "wf_bitmap bm"
    and sb: "commit_flag (sb_on (val s)) = 0" "cnt (sb_on (val s)) = 1" "used_segs bm \<noteq> []"
    and segs: "\<forall>i \<in> set (used_segs bm). seg_ok (val s) i"
    and safe: "safe C (val s)" "safe C (set_sb idle_sb (apply_writes ws (val s)))"
      "\<And>xs. prefix xs ws \<Longrightarrow>
         safe C (set_sb \<lparr>bitmap = bm, cnt = 0, commit_flag = 1\<rparr> (apply_writes xs (val s)))"
    and post: "\<And>s'. okay s' \<Longrightarrow> val s' = set_sb idle_sb (apply_writes ws (val s)) \<Longrightarrow>
      held s' = held_after ws (held s) \<Longrightarrow> Q () s'"
  shows "wp (endRetry dsk) Q C s"
proof -
  let ?sb = "(sb_on (val s))\<lparr>cnt := cnt (sb_on (val s)) - 1\<rparr>"
  have sb_eqs: "?sb\<lparr>commit_flag := 1\<rparr> = \<lparr>bitmap = bm, cnt = 0, commit_flag = 1\<rparr>"
    "?sb\<lparr>commit_flag := 0, bitmap := zero_bitmap\<rparr> = idle_sb" "bitmap ?sb = bm" "cnt ?sb = 0"
    using sb by (simp_all add: bm_def idle_sb_def)
  have data: "data_writes xs" if "prefix xs ws" for xs
    using data_writes_logged [OF segs] that by (auto simp: ws_def prefix_def)
  have held: "held_after ws ((held s)(sbNr := True, sbNr := False)) = held_after ws (held s)"
    "(held_after ws ((held s)(sbNr := True)))(sbNr := False) = held_after ws (held s)"
    using s(3) by (auto simp: held_after_def fun_eq_iff)
  have "wp (io_bind (commit dsk ?sb) (\<lambda>r.
      if fst r \<noteq> None then endRetry dsk
      else io_bind (Brelse dsk (flattenSb (snd r))) (\<lambda>_. io_return ()))) Q C s1"
    if s1: "okay s1" "val s1 = val s" "held s1 = (held s)(sbNr := True)" for s1
  proof (rule wp_commit, unfold sb_eqs s1(2) ws_def [symmetric], goal_cases)
    case (9 sb' s')
    then show ?case
      using s1(3) safe(2) post held by (auto intro!: wp_intro)
  qed (use s s1 segs safe data in \<open>auto simp: log_unlocked_def apply_writes_set_sb\<close>)
  then show ?thesis
    by (subst endRetry.simps [abs_def], unfold Let_def, intro bind_Bget wp_ifI)
      (use s sb safe(1) sb_eqs hasValid_wf [OF s(4)] in auto)
qed

text \<open>Start-up: a committed log is replayed, any other is dropped.\<close>

lemma wp_InitSb_fresh:
  assumes s: "okay s" "\<not> held s sbNr" "commit_flag (sb_on (val s)) = 0"
    and safe: "safe C (val s)" "safe C (set_sb idle_sb (val s))"
    and post: "\<And>s'. okay s' \<Longrightarrow> val s' = set_sb idle_sb (val s) \<Longrightarrow> held s' = held s \<Longrightarrow> Q () s'"
  shows "wp (InitSb dsk) Q C s"
proof -
  have eq: "(sb_on (val s))\<lparr>bitmap := zero_bitmap, cnt := 0, commit_flag := 0\<rparr> = idle_sb"
    by (simp add: idle_sb_def)
  show ?thesis
    by (subst InitSb.simps [abs_def], unfold Let_def, intro wp_intro, unfold parseSb_sb_on eq)
      (use s safe post in \<open>auto simp: Data_flattenSb_set fun_upd_idem\<close>)
qed

lemma wp_InitSb_resurrect:
  fixes s :: 's
  defines "bm \<equiv> bitmap (sb_on (val s))"
  defines "ws \<equiv> logged (val s) (used_segs bm)"
  assumes s: "okay s" "log_unlocked s" "\<not> held s sbNr" "wf_bitmap bm" "0 < commit_flag (sb_on (val s))"
    and segs: "\<forall>i \<in> set (used_segs bm). seg_ok (val s) i"
    and safe: "\<And>xs. prefix xs ws \<Longrightarrow> safe C (apply_writes xs (val s))"
      "safe C (set_sb idle_sb (apply_writes ws (val s)))"
    and post: "\<And>s'. okay s' \<Longrightarrow> val s' = set_sb idle_sb (apply_writes ws (val s)) \<Longrightarrow>
      held s' = held_after ws (held s) \<Longrightarrow> Q () s'"
  shows "wp (InitSb dsk) Q C s"
proof -
  let ?sb = "sb_on (val s)"
  have eq: "?sb\<lparr>commit_flag := 0, bitmap := zero_bitmap, cnt := 0\<rparr> = idle_sb"
    by (simp add: idle_sb_def)
  have data: "data_writes ws"
    unfolding ws_def using segs by (rule data_writes_logged)
  have held: "(held_after ws ((held s)(sbNr := True)))(sbNr := False) = held_after ws (held s)"
    using s(3) by (auto simp: held_after_def fun_eq_iff)
  have "wp (io_bind (resurrect dsk ?sb) (\<lambda>r. if fst r \<noteq> None then InitSb dsk
      else io_bind (Brelse dsk (flattenSb ?sb)) (\<lambda>_. io_return ()))) Q C s1"
    if s1: "okay s1" "val s1 = val s" "held s1 = (held s)(sbNr := True)" for s1
    unfolding resurrect_def io_bind_assoc Let_def eq
  proof (rule replay_wp, unfold s1(2) bm_def [symmetric] ws_def [symmetric], goal_cases)
    case (7 s')
    have "held s' sbNr" using 7 s1(3) data by (simp add: held_after_data)
    then show ?case
      using 7 s1(3) safe(1) [of ws] safe(2) post held
      by (auto intro!: wp_intro simp: io_bind_assoc Data_flattenSb_set)
  qed (use s s1 segs safe in \<open>auto simp: log_unlocked_def\<close>)
  then show ?thesis
    by (subst InitSb.simps [abs_def], unfold Let_def, intro bind_Bget wp_ifI, unfold parseSb_sb_on)
      (use s safe(1) [of "[]"] in auto)
qed

lemma wp_abortRetry:
  fixes s :: 's and t :: TxnHandle
  defines "sb \<equiv> sb_on (val s)"
  defines "sb' \<equiv> sb\<lparr>bitmap := (bitmap sb)[unat (blkSeg t) := CHR ''0'']\<rparr>"
  assumes s: "okay s" "\<not> held s sbNr" "commit_flag sb = 0" "wf_bitmap (bitmap sb)" "unat (blkSeg t) < 1000"
    and safe: "safe C (val s)" "safe C (set_sb sb' (val s))"
    and post: "\<And>s'. okay s' \<Longrightarrow> val s' = set_sb sb' (val s) \<Longrightarrow> held s' = held s \<Longrightarrow> wp (f ()) Q C s'"
  shows "wp (io_bind (abortRetry dsk t) f) Q C s"
proof -
  have b: "set_rune (bitmap sb) (unat (blkSeg t)) CHR ''0'' = Ret ((bitmap sb)[unat (blkSeg t) := CHR ''0''])"
    by (rule set_rune_wf [OF s(4,5)]) simp
  show ?thesis
    unfolding wp_bind
    by (subst abortRetry.simps [abs_def], unfold Let_def, intro wp_intro, unfold parseSb_sb_on sb_def [symmetric])
      (use s b safe post in \<open>auto simp: sb'_def Data_flattenSb_set fun_upd_idem intro!: wp_intro\<close>)
qed

end

end
