(* ===== verification/Jrnl_Atomic.thy ===== *)
theory Jrnl_Atomic
  imports Jrnl_Txn
begin

section \<open>Transactions are atomic\<close>

text \<open>
  A client's transaction (begin, write the blocks, end), what it does when it runs to its end, and
  what is left when its machine stops at any point: after the next start-up either all the writes
  of the transaction are there or none.
\<close>

subsection \<open>A client's transaction\<close>

fun writeBlocks :: "'s Disk \<Rightarrow> TxnHandle \<Rightarrow> Block list \<Rightarrow> ('s, TxnHandle) io" where
  "writeBlocks dsk t [] = io_return t"
| "writeBlocks dsk t (b # bs) = io_bind (WriteBlock dsk t b) (\<lambda>r. writeBlocks dsk (snd r) bs)"

definition runTxn :: "'s Disk \<Rightarrow> Block list \<Rightarrow> ('s, unit) io" where
  "runTxn dsk bs =
     io_bind (BeginTransaction dsk) (\<lambda>t.
     io_bind (writeBlocks dsk t bs) (\<lambda>t'. EndTransaction dsk t' False))"

definition txn_writes :: "Block list \<Rightarrow> wr list" where
  "txn_writes bs = map (\<lambda>b. (Nr b, Data b)) bs"

definition txn_ok :: "Block list \<Rightarrow> bool" where
  "txn_ok bs \<longleftrightarrow> bs \<noteq> [] \<and> length bs \<le> 100 \<and>
     (\<forall>b \<in> set bs. data_blk (Nr b) \<and> CHR ''/'' \<notin> set (Data b))"

subsection \<open>Recovery as a function on the block contents\<close>

definition recoverable :: "(uint \<Rightarrow> string) \<Rightarrow> bool" where
  "recoverable V \<longleftrightarrow> commit_flag (sb_on V) = 0 \<or>
     (wf_bitmap (bitmap (sb_on V)) \<and> (\<forall>i \<in> set (used_segs (bitmap (sb_on V))). seg_ok V i))"

definition recovered :: "(uint \<Rightarrow> string) \<Rightarrow> uint \<Rightarrow> string" where
  "recovered V =
     (if commit_flag (sb_on V) = 0 then V
      else apply_writes (logged V (used_segs (bitmap (sb_on V)))) V)"

definition same_data :: "(uint \<Rightarrow> string) \<Rightarrow> (uint \<Rightarrow> string) \<Rightarrow> bool" where
  "same_data V W \<longleftrightarrow> (\<forall>n. data_blk n \<longrightarrow> V n = W n)"

text \<open>The contents \<open>V\<close> are recoverable, and recovery gives the data of \<open>W\<close>.\<close>

definition recovers_to :: "(uint \<Rightarrow> string) \<Rightarrow> (uint \<Rightarrow> string) \<Rightarrow> bool" where
  "recovers_to V W \<longleftrightarrow> recoverable V \<and> same_data (recovered V) W"

lemma recovers_to_uncommitted:
  "commit_flag (sb_on V) = 0 \<Longrightarrow> same_data V W \<Longrightarrow> recovers_to V W"
  by (simp add: recovers_to_def recoverable_def recovered_def)

lemma same_data_set_sb [simp]: "same_data (set_sb sb V) W = same_data V W"
  unfolding same_data_def by (metis not_data_sbNr set_sb_other)

lemma same_data_refl [simp]: "same_data V V"
  by (simp add: same_data_def)

lemma same_data_apply_writes: "same_data V W \<Longrightarrow> same_data (apply_writes ws V) (apply_writes ws W)"
  by (simp add: same_data_def apply_writes_cong)

text \<open>
  Once the superblock says \<open>commit\<close>, replaying the log after any part of it was performed gives
  the result of the whole log.
\<close>

lemma recovers_to_committed:
  fixes V :: "uint \<Rightarrow> string" and bm :: string
  defines "ws \<equiv> logged V (used_segs bm)"
  assumes bm: "wf_bitmap bm" and segs: "\<forall>i \<in> set (used_segs bm). seg_ok V i" and "c \<noteq> 0"
    and xs: "set xs \<subseteq> set ws"
  shows "recovers_to (set_sb \<lparr>bitmap = bm, cnt = k, commit_flag = c\<rparr> (apply_writes xs V)) (apply_writes ws V)"
proof -
  let ?V = "set_sb \<lparr>bitmap = bm, cnt = k, commit_flag = c\<rparr> (apply_writes xs V)"
  have le: "\<forall>i \<in> set (used_segs bm). i < 1000"
    using used_segs_less [OF bm] by blast
  have dws: "data_writes ws"
    unfolding ws_def using segs by (rule data_writes_logged)
  with xs have dxs: "data_writes xs"
    by (auto simp: data_writes_def list_all_iff)
  have "logged ?V (used_segs bm) = ws"
    using le dxs by (simp add: ws_def)
  then have "recovered ?V = set_sb \<lparr>bitmap = bm, cnt = k, commit_flag = c\<rparr> (apply_writes ws V)"
    using bm \<open>c \<noteq> 0\<close> dws xs by (simp add: recovered_def apply_writes_set_sb apply_writes_idem)
  moreover have "recoverable ?V"
    using bm segs le dxs by (simp add: recoverable_def)
  ultimately show ?thesis by (simp add: recovers_to_def)
qed

subsection \<open>What a transaction leaves in its log segment\<close>

lemma parseLb_log_rec:
  "CHR ''/'' \<notin> set (Data b) \<Longrightarrow>
     parseLb \<lparr>Nr = lbn, Data = log_rec lbn b f\<rparr> = \<lparr>lnr = lbn, rnr = Nr b, rdata = Data b, last_flag = f\<rparr>"
proof -
  assume *: "CHR ''/'' \<notin> set (Data b)"
  have "\<lparr>Nr = lbn, Data = log_rec lbn b f\<rparr>
      = flattenLb \<lparr>lnr = lbn, rnr = Nr b, rdata = Data b, last_flag = f\<rparr>"
    by (simp add: log_rec_def flattenLb_def Let_def)
  with * show ?thesis by simp
qed

lemma mark_rec_log_rec:
  "CHR ''/'' \<notin> set (Data b) \<Longrightarrow> mark_rec lbn (log_rec lbn b f) = log_rec lbn b True"
  by (simp add: mark_rec_def parseLb_log_rec) (simp add: log_rec_def)

lemma seg_log_recs:
  assumes "bs \<noteq> []" "length bs \<le> m" "\<forall>b \<in> set bs. CHR ''/'' \<notin> set (Data b)"
    and "\<And>j. j < length bs \<Longrightarrow>
      V (lbn + of_nat j) = log_rec (lbn + of_nat j) (bs ! j) (Suc j = length bs)"
  shows "seg_log V m lbn = Some (txn_writes bs)"
  using assms
proof (induction bs arbitrary: lbn m)
  case (Cons b bs)
  obtain m' where m: "m = Suc m'" using Cons.prems(2) by (cases m) auto
  have lb: "parseLb \<lparr>Nr = lbn, Data = V lbn\<rparr>
      = \<lparr>lnr = lbn, rnr = Nr b, rdata = Data b, last_flag = (bs = [])\<rparr>"
    using Cons.prems(4) [of 0] Cons.prems(3) by (simp add: parseLb_log_rec)
  show ?case
  proof (cases "bs = []")
    case True
    with lb m show ?thesis by (simp add: txn_writes_def)
  next
    case False
    have "seg_log V m' (lbn + 1) = Some (txn_writes bs)"
    proof (rule Cons.IH [OF False])
      fix j assume "j < length bs"
      then show "V (lbn + 1 + of_nat j) = log_rec (lbn + 1 + of_nat j) (bs ! j) (Suc j = length bs)"
        using Cons.prems(4) [of "Suc j"] by (simp add: add.assoc)
    qed (use Cons.prems m in auto)
    with lb m False show ?thesis by (simp add: txn_writes_def)
  qed
qed simp

lemma seg_lbn:
  assumes "i < 1000" and "j < 100"
  shows "unat (seg_start i + of_nat j) = 100 * i + 3 + j" and "log_blk (seg_start i + of_nat j)"
proof -
  show u: "unat (seg_start i + of_nat j) = 100 * i + 3 + j"
    using assms unat_plus_small [of "seg_start i" j] by (simp add: unat_seg_start)
  with assms show "log_blk (seg_start i + of_nat j)"
    by (simp add: log_blk_def)
qed

lemma last_lbn_pos:
  assumes "0 < k" "k \<le> 100"
  shows "last_lbn \<lparr>blkSeg = of_nat i, offset = of_nat k\<rparr> = seg_start i + of_nat (k - 1)"
proof -
  obtain j where j: "k = Suc j" using assms by (cases k) auto
  have "unat (of_nat k :: uint) = k" using assms by (simp add: unat_of_nat)
  with j have "(of_nat k :: uint) \<noteq> 0" by fastforce
  with j show ?thesis by (simp add: last_lbn_def seg_start_def)
qed

lemma unat_offset_less: "unat (t :: uint) < 100 \<Longrightarrow> \<not> blkPerSys \<le> t"
  by (simp add: blkPerSys_def word_le_nat_alt)

lemma used_segs_zero [simp]: "used_segs zero_bitmap = []"
  by (auto simp: used_segs_def zero_bitmap_def filter_empty_conv)

lemma used_segs_single:
  assumes "i < 1000" shows "used_segs (zero_bitmap[i := CHR ''1'']) = [i]"
proof -
  have "used_segs (zero_bitmap[i := CHR ''1'']) = filter (\<lambda>j. j = i) [0..<1000]"
    unfolding used_segs_def using assms
    by (intro filter_cong) (auto simp: zero_bitmap_def sysPerLog_def nth_list_update split: if_splits)
  also have "\<dots> = [i]"
    using assms by (rule filter_eq_upt)
  finally show ?thesis .
qed

context block_store
begin

lemma wp_writeBlocks:
  assumes "okay s" "log_unlocked s" "i < 1000" "k + length bs \<le> 100"
    and "\<And>W. (\<forall>n. \<not> log_blk n \<longrightarrow> W n = val s n) \<Longrightarrow> safe C W"
    and "\<And>s'. okay s' \<Longrightarrow> held s' = held s \<Longrightarrow>
      (\<forall>j < length bs. val s' (seg_start i + of_nat (k + j))
         = log_rec (seg_start i + of_nat (k + j)) (bs ! j) False) \<Longrightarrow>
      (\<forall>n. \<not> log_blk n \<longrightarrow> val s' n = val s n) \<Longrightarrow>
      (\<forall>j < k. val s' (seg_start i + of_nat j) = val s (seg_start i + of_nat j)) \<Longrightarrow>
      wp (f \<lparr>blkSeg = of_nat i, offset = of_nat (k + length bs)\<rparr>) Q C s'"
  shows "wp (io_bind (writeBlocks dsk \<lparr>blkSeg = of_nat i, offset = of_nat k\<rparr> bs) f) Q C s"
  using assms
proof (induction bs arbitrary: k s)
  case Nil
  then show ?case by simp
next
  case (Cons b bs)
  let ?lbn = "seg_start i + of_nat k"
  let ?V = "(val s)(?lbn := log_rec ?lbn b False)"
  have k: "k < 100" "unat (of_nat k :: uint) = k"
    using Cons.prems(4) by (simp_all add: unat_of_nat)
  have lbn: "log_blk ?lbn"
    using seg_lbn(2) Cons.prems(3) k by blast
  have neq: "seg_start i + of_nat j \<noteq> ?lbn" if "j \<noteq> k" "j < 100" for j
    using seg_lbn(1) [OF Cons.prems(3), of j] seg_lbn(1) [OF Cons.prems(3) k(1)] that by auto
  have step: "wp (io_bind (writeBlocks dsk \<lparr>blkSeg = of_nat i, offset = of_nat (Suc k)\<rparr> bs) f) Q C s'"
    if s': "okay s'" "val s' = ?V" "held s' = held s" for s'
  proof (rule Cons.IH, goal_cases)
    case (6 s'')
    have "val s'' (seg_start i + of_nat (k + j)) = log_rec (seg_start i + of_nat (k + j)) ((b # bs) ! j) False"
      if "j < length (b # bs)" for j
      using 6(3,5) that s'(2) by (cases j) auto
    moreover have "val s'' (seg_start i + of_nat j) = val s (seg_start i + of_nat j)" if "j < k" for j
      using 6(5) that s'(2) neq [of j] k by simp
    ultimately show ?case
      using 6 s' lbn Cons.prems(6) [of s''] by (metis add_Suc add_Suc_right fun_upd_other length_Cons)
  next
    case (5 W)
    then show ?case using Cons.prems(5) [of W] s'(2) lbn by (metis fun_upd_other)
  qed (use Cons.prems s' in \<open>auto simp: log_unlocked_def\<close>)
  have "\<not> blkPerSys \<le> (of_nat k :: uint)"
    using unat_offset_less [of "of_nat k"] k by simp
  then show ?case
    using Cons.prems(1,2,5) lbn step
    by (auto simp: WriteBlock_def Let_def io_bind_assoc seg_start_def [symmetric] log_unlocked_def add.commute
        intro!: wp_intro)
qed

lemma wp_runTxn:
  fixes s :: 's and bs :: "Block list"
  defines "W \<equiv> apply_writes (txn_writes bs) (val s)"
  assumes s: "okay s" "log_unlocked s" "\<not> held s sbNr" "sb_on (val s) = idle_sb" and bs: "txn_ok bs"
    and C: "\<And>e s'. crashy \<Longrightarrow> okay s' \<Longrightarrow> recovers_to (val s') (val s) \<or> recovers_to (val s') W \<Longrightarrow> C e s'"
    and Q: "\<And>s'. okay s' \<Longrightarrow> same_data (val s') W \<Longrightarrow> sb_on (val s') = idle_sb \<Longrightarrow>
      held s' = held_after (txn_writes bs) (held s) \<Longrightarrow> Q () s'"
  shows "wp (runTxn dsk bs) Q C s"
proof -
  let ?bm = "zero_bitmap[0 := CHR ''1'']"
  let ?sb1 = "\<lparr>bitmap = ?bm, cnt = 1, commit_flag = 0\<rparr>"
  have safe: "safe C V" if "commit_flag (sb_on V) = 0" "same_data V (val s)" for V
    using C recovers_to_uncommitted [OF that] by (auto simp: crash_safe_def)
  obtain k where len: "length bs = Suc k" "k < 100" "\<forall>b \<in> set bs. CHR ''/'' \<notin> set (Data b)"
    using bs by (cases "length bs") (auto simp: txn_ok_def)
  let ?l = "seg_start 0 + of_nat k"
  have data: "data_writes (txn_writes bs)"
    using bs by (auto simp: txn_ok_def txn_writes_def data_writes_def list_all_iff)
  have keep: "sb_on V = ?sb1 \<and> same_data V (val s)"
    if V: "\<forall>n. \<not> log_blk n \<longrightarrow> V n = set_sb ?sb1 (val s) n" for V
  proof -
    have "sb_on V = sb_on (set_sb ?sb1 (val s))" using V by (intro sb_on_cong) simp
    moreover have "sb_on (set_sb ?sb1 (val s)) = ?sb1" by (rule sb_on_set_sb) simp
    moreover have "V n = val s n" if n: "data_blk n" for n
    proof -
      have "n \<noteq> sbNr" "\<not> log_blk n" using n data_not_log by auto
      with V [rule_format, of n] show ?thesis by simp
    qed
    ultimately show ?thesis by (simp add: same_data_def)
  qed
  have last: "last_lbn \<lparr>blkSeg = of_nat 0, offset = of_nat (0 + length bs)\<rparr> = ?l"
    using last_lbn_pos [of "Suc k" 0] len by simp
  have l: "log_blk ?l" "k < length bs"
    using seg_lbn(2) [of 0 k] len by auto
  have fin: "wp (endRetry dsk) Q C s2"
    if s2: "okay s2" "held s2 = held s" "\<forall>n. \<not> log_blk n \<longrightarrow> val s2 n = set_sb ?sb1 (val s) n"
      and recs: "\<And>j. j < length bs \<Longrightarrow>
        val s2 (seg_start 0 + of_nat j) = log_rec (seg_start 0 + of_nat j) (bs ! j) (Suc j = length bs)"
    for s2
  proof -
    note k2 = keep [OF s2(3)]
    have log: "seg_log (val s2) 100 (seg_start 0) = Some (txn_writes bs)"
      using len recs by (intro seg_log_recs) auto
    have seg: "seg_ok (val s2) 0" "logged (val s2) [0] = txn_writes bs"
      using data log by (simp_all add: seg_ok_def seg_of_def)
    have W2: "same_data (apply_writes (txn_writes bs) (val s2)) W"
      unfolding W_def using k2 by (intro same_data_apply_writes) simp
    show ?thesis
    proof (rule wp_endRetry_commit, unfold conjunct1 [OF k2] logSB.simps used_segs_single [of 0, simplified] seg(2),
        goal_cases)
      case (11 xs)
      then have "recovers_to (set_sb \<lparr>bitmap = ?bm, cnt = 0, commit_flag = 1\<rparr> (apply_writes xs (val s2)))
          (apply_writes (txn_writes bs) (val s2))"
        using recovers_to_committed [of ?bm "val s2" 1 xs 0] seg
        by (simp add: used_segs_single set_mono_prefix)
      with W2 C show ?case by (auto simp: crash_safe_def recovers_to_def same_data_def)
    next
      case (12 s')
      then show ?case
        using Q [of s'] W2 data s2(2) by (simp add: idle_sb_def)
    qed (use s s2 seg k2 safe C W2 recovers_to_uncommitted in
        \<open>auto simp: log_unlocked_def crash_safe_def idle_sb_def\<close>)
  qed
  have safe_begin: "safe C (set_sb ?sb1 (val s))"
    by (rule safe) (use keep [of "set_sb ?sb1 (val s)"] in simp_all)
  have zero: "zero_bitmap ! 0 = CHR ''0''"
    by (simp add: zero_bitmap_def sysPerLog_def)
  show ?thesis
    unfolding runTxn_def EndTransaction_def
  proof (rule wp_BeginTransaction [where i = 0 and sb' = ?sb1], goal_cases)
    case (11 s1)
    have "wp (io_bind (writeBlocks dsk \<lparr>blkSeg = of_nat 0, offset = of_nat 0\<rparr> bs)
        (\<lambda>t'. io_bind (markLast dsk t') (\<lambda>_. endRetry dsk))) Q C s1"
    proof (rule wp_writeBlocks, goal_cases)
      case (5 V)
      then show ?case using safe keep [of V] 11(2) by simp
    next
      case (6 s2)
      note s2 = 6(1,2) 6(3) [unfolded add_0] 6(4)
      have nth: "seg_start 0 + of_nat j \<noteq> ?l" if "j < length bs" "Suc j \<noteq> length bs" for j
        using that len seg_lbn(1) [of 0 j] seg_lbn(1) [of 0 k] by auto
      have "val s2 ?l = log_rec ?l (bs ! k) False"
        using s2(3) l(2) by blast
      then have mark: "mark_rec ?l (val s2 ?l) = log_rec ?l (bs ! k) True"
        using len l(2) by (simp add: mark_rec_log_rec)
      have recs: "((val s2)(?l := mark_rec ?l (val s2 ?l))) (seg_start 0 + of_nat j)
          = log_rec (seg_start 0 + of_nat j) (bs ! j) (Suc j = length bs)" if "j < length bs" for j
      proof (cases "Suc j = length bs")
        case True
        then have "j = k" using len by simp
        with mark True show ?thesis by simp
      next
        case False
        with nth that s2(3) show ?thesis by simp
      qed
      have other: "\<forall>n. \<not> log_blk n \<longrightarrow> ((val s2)(?l := x)) n = set_sb ?sb1 (val s) n" for x
        using s2(4) 11(2) l(1) by auto
      have safe2: "safe C ((val s2)(?l := x))" for x
        by (rule safe) (use keep [OF other [of x]] in \<open>simp_all del: fun_upd_apply\<close>)
      have safe1: "safe C (val s2)"
        using safe2 [of "val s2 ?l"] by (simp del: fun_upd_apply)
      show ?case
      proof (rule wp_markLast, unfold last, goal_cases)
        case (5 s3)
        then show ?case
          using fin [of s3] recs other s2(2) 11(3) by simp
      qed (use s s2 safe1 safe2 11 l in \<open>auto simp: log_unlocked_def simp del: fun_upd_apply\<close>)
    qed (use s 11 len in \<open>auto simp: log_unlocked_def\<close>)
    then show ?case by simp
  qed (use s safe safe_begin zero in \<open>auto simp: idle_sb_def\<close>)
qed

lemma wp_InitSb_recovers:
  assumes s: "okay s" "log_unlocked s" "\<not> held s sbNr" and rec: "recovers_to (val s) W"
    and C: "\<And>e s'. crashy \<Longrightarrow> okay s' \<Longrightarrow> recovers_to (val s') W \<Longrightarrow> C e s'"
    and Q: "\<And>s'. okay s' \<Longrightarrow> same_data (val s') W \<Longrightarrow> sb_on (val s') = idle_sb \<Longrightarrow>
      \<forall>n. held s' n \<longrightarrow> held s n \<Longrightarrow> Q () s'"
  shows "wp (InitSb dsk) Q C s"
proof -
  let ?sb = "sb_on (val s)"
  have safe: "safe C V" if "recovers_to V W" for V
    using that C by (auto simp: crash_safe_def)
  have idle: "sb_on (set_sb idle_sb V) = idle_sb" for V
    by (simp add: idle_sb_def)
  have fresh: "recovers_to (set_sb idle_sb V) W" if "same_data V W" for V
    using that idle [of V] by (intro recovers_to_uncommitted) (simp_all add: idle_sb_def)
  show ?thesis
  proof (cases "commit_flag ?sb = 0")
    case True
    with rec have same: "same_data (val s) W"
      by (simp add: recovers_to_def recovered_def)
    show ?thesis
      by (rule wp_InitSb_fresh) (use s True same safe fresh idle rec Q in auto)
  next
    case False
    let ?ws = "logged (val s) (used_segs (bitmap ?sb))"
    have bm: "wf_bitmap (bitmap ?sb)" "\<forall>i \<in> set (used_segs (bitmap ?sb)). seg_ok (val s) i"
      and same: "same_data (apply_writes ?ws (val s)) W"
      using rec False by (auto simp: recovers_to_def recoverable_def recovered_def)
    have part: "safe C (apply_writes xs (val s))" if "prefix xs ?ws" for xs
    proof -
      have data: "data_writes xs"
        using data_writes_logged [OF bm(2)] that by (auto simp: prefix_def)
      have le: "\<forall>i \<in> set (used_segs (bitmap ?sb)). i < 1000"
        using used_segs_less [OF bm(1)] by blast
      have "sb_on (apply_writes xs (val s)) = ?sb"
        using data by (intro sb_on_cong apply_writes_log_blk) simp_all
      moreover have "recovered (apply_writes xs (val s)) = apply_writes ?ws (val s)"
        using calculation False data le set_mono_prefix [OF that]
        by (simp add: recovered_def apply_writes_idem)
      ultimately show ?thesis
        using bm same data le by (intro safe) (simp add: recovers_to_def recoverable_def)
    qed
    show ?thesis
      by (rule wp_InitSb_resurrect) (use s False bm part same safe fresh idle Q in \<open>auto simp: word_gt_0 held_after_def\<close>)
  qed
qed

end

subsection \<open>Crash and restart on the mock disk\<close>

text \<open>
  Between a crash and the next start-up of a client the leases of its locks run out; what the
  blocks hold stays.
\<close>

definition leases_expired :: "MockDisk \<Rightarrow> MockDisk" where
  "leases_expired m = m\<lparr>kv := (\<lambda>k. if take 5 k = ''lock_'' then None else kv m k)\<rparr>"

lemma leases_expired [simp]:
  "mock_val (leases_expired m) = mock_val m" "\<not> mock_held (leases_expired m) n"
proof -
  have "take 5 (fmt_d n) \<noteq> ''lock_''" for n
  proof
    assume "take 5 (fmt_d n) = ''lock_''"
    then have "fmt_d n = lock_key (drop 5 (fmt_d n))"
      by (metis append_take_drop_id lock_key_def)
    then show False by simp
  qed
  then show "mock_val (leases_expired m) = mock_val m"
    by (auto simp: fun_eq_iff mock_val_def mget_def leases_expired_def)
  show "\<not> mock_held (leases_expired m) n"
    by (simp add: mock_held_def leases_expired_def mget_def lock_key_def)
qed

text \<open>Start-ups that stop after the given numbers of disk operations, one after the other.\<close>

fun start_ups :: "nat list \<Rightarrow> MockDisk \<Rightarrow> MockDisk option" where
  "start_ups [] m = Some m"
| "start_ups (n # ns) m =
     (case InitSb (crash_disk mock_disk) (leases_expired m, n) of
        None \<Rightarrow> None
      | Some (_, (m', _)) \<Rightarrow> start_ups ns m')"

lemma start_ups_recover:
  assumes "recovers_to (mock_val m) W"
  shows "\<exists>m'. start_ups ns m = Some m' \<and> recovers_to (mock_val m') W"
  using assms
proof (induction ns arbitrary: m)
  case (Cons n ns)
  have "wp (InitSb (crash_disk mock_disk)) (\<lambda>_ p. recovers_to (mock_val (fst p)) W)
      (\<lambda>_ p. recovers_to (mock_val (fst p)) W) (leases_expired m, n)"
    by (rule mock_crash.wp_InitSb_recovers [where W = W])
      (use Cons.prems in \<open>auto simp: mock_crash.log_unlocked_def idle_sb_def intro: recovers_to_uncommitted\<close>)
  then show ?case
    using Cons.IH by (fastforce simp: wp_def split: option.splits prod.splits outcome.split_asm)
qed simp

lemma InitSb_recovers:
  assumes "recovers_to (mock_val m) W"
  shows "\<exists>m'. InitSb mock_disk (leases_expired m) = Some (Ret (), m') \<and> same_data (mock_val m') W \<and>
    sb_on (mock_val m') = idle_sb \<and> (\<forall>n. \<not> mock_held m' n)"
proof -
  have "wp (InitSb mock_disk) (\<lambda>_ m'. same_data (mock_val m') W \<and> sb_on (mock_val m') = idle_sb \<and> (\<forall>n. \<not> mock_held m' n))
      (\<lambda>_ _. False) (leases_expired m)"
    by (rule mock.wp_InitSb_recovers)
      (use assms in \<open>auto simp: mock.log_unlocked_def crash_safe_def\<close>)
  then show ?thesis by (auto dest: wp_RetD)
qed

subsection \<open>Properties\<close>

text \<open>No transaction is outstanding, and the caller holds no block of the journal.\<close>

definition jrnl_idle :: "MockDisk \<Rightarrow> bool" where
  "jrnl_idle m \<longleftrightarrow> sb_on (mock_val m) = idle_sb \<and> (\<forall>n. \<not> data_blk n \<longrightarrow> \<not> mock_held m n)"

lemma log_not_data: "log_blk n \<Longrightarrow> \<not> data_blk n"
  using data_not_log by blast

lemma jrnl_idleD:
  assumes "jrnl_idle m"
  shows "sb_on (mock_val m) = idle_sb" "\<not> mock_held m sbNr" "log_blk n \<Longrightarrow> \<not> mock_held m n"
  using assms log_not_data by (auto simp: jrnl_idle_def)

lemma recovers_to_idle: "sb_on V = idle_sb \<Longrightarrow> same_data V W \<Longrightarrow> recovers_to V W"
  by (rule recovers_to_uncommitted) (simp_all add: idle_sb_def)

lemma jrnl_idle_InitSb:
  assumes "InitSb mock_disk m = Some (Ret (), m')" and "sb_on (mock_val m) = idle_sb"
    and "\<And>n. \<not> mock_held m n"
  shows "jrnl_idle m'"
proof -
  have "wp (InitSb mock_disk) (\<lambda>_ s'. jrnl_idle s') (\<lambda>_ _. True) m"
    by (rule mock.wp_InitSb_fresh)
      (use assms(2,3) in \<open>auto simp: crash_safe_def idle_sb_def jrnl_idle_def\<close>)
  with assms(1) show ?thesis by (simp add: wp_def)
qed

text \<open>
  C15: a transaction whose machine stops after any number \<open>n\<close> of disk operations, followed by any
  number of start-ups that stop themselves, is all or nothing: the start-up that completes finds
  either every write of the transaction or none, and every write when the call had returned.
\<close>

theorem runTxn_crash_atomic:
  assumes "jrnl_idle m" and "txn_ok bs"
  shows "\<exists>r m1 k m2 m3.
    runTxn (crash_disk mock_disk) bs (m, n) = Some (r, (m1, k)) \<and>
    start_ups ns m1 = Some m2 \<and> InitSb mock_disk (leases_expired m2) = Some (Ret (), m3) \<and>
    sb_on (mock_val m3) = idle_sb \<and>
    (same_data (mock_val m3) (apply_writes (txn_writes bs) (mock_val m)) \<or>
     r \<noteq> Ret () \<and> same_data (mock_val m3) (mock_val m))"
proof -
  let ?W = "apply_writes (txn_writes bs) (mock_val m)"
  have "wp (runTxn (crash_disk mock_disk) bs) (\<lambda>_ p. recovers_to (mock_val (fst p)) ?W)
      (\<lambda>_ p. recovers_to (mock_val (fst p)) (mock_val m) \<or> recovers_to (mock_val (fst p)) ?W) (m, n)"
    by (rule mock_crash.wp_runTxn)
      (use assms jrnl_idleD in \<open>auto simp: mock_crash.log_unlocked_def intro: recovers_to_idle\<close>)
  then obtain r m1 k where run: "runTxn (crash_disk mock_disk) bs (m, n) = Some (r, (m1, k))"
    and rec: "recovers_to (mock_val m1) ?W \<or> r \<noteq> Ret () \<and> recovers_to (mock_val m1) (mock_val m)"
    by (cases rule: wp_cases) (auto elim!: meta_mp)
  have "\<exists>m2 m3. start_ups ns m1 = Some m2 \<and> InitSb mock_disk (leases_expired m2) = Some (Ret (), m3) \<and>
      same_data (mock_val m3) W \<and> sb_on (mock_val m3) = idle_sb" if "recovers_to (mock_val m1) W" for W
    using start_ups_recover [OF that] InitSb_recovers by blast
  with run rec show ?thesis by blast
qed

lemma witness_disk_idle: "jrnl_idle \<lparr>kv = [fmt_d sbNr \<mapsto> Data (flattenSb idle_sb)]\<rparr>"
proof -
  have "mock_val \<lparr>kv = [fmt_d sbNr \<mapsto> Data (flattenSb idle_sb)]\<rparr> = set_sb idle_sb (\<lambda>_. [])"
    by (auto simp: mock_val_def set_sb_def fun_eq_iff)
  then show ?thesis
    by (simp add: jrnl_idle_def mock_held_def idle_sb_def)
qed

lemma txn_ok_example: "txn_ok [\<lparr>Nr = 100003, Data = ''a''\<rparr>, \<lparr>Nr = 0, Data = ''b''\<rparr>]"
  by (simp add: txn_ok_def data_blk_def)

theorem runTxn_crash_atomic_witness:
  "\<exists>r m1 k m2 m3.
    runTxn (crash_disk mock_disk) [\<lparr>Nr = 100003, Data = ''a''\<rparr>, \<lparr>Nr = 0, Data = ''b''\<rparr>]
      (\<lparr>kv = [fmt_d sbNr \<mapsto> Data (flattenSb idle_sb)]\<rparr>, 20) = Some (r, (m1, k)) \<and>
    start_ups [3, 7] m1 = Some m2 \<and> InitSb mock_disk (leases_expired m2) = Some (Ret (), m3)"
  using runTxn_crash_atomic [OF witness_disk_idle txn_ok_example, of 20 "[3, 7]"] by blast

text \<open>
  On a machine that does not stop, a transaction always ends, its data blocks hold exactly
  its writes in order and every other data block is as it was, no transaction is left
  outstanding, and the locks of the written blocks are released.
\<close>

theorem runTxn_commits:
  assumes "jrnl_idle m" and "txn_ok bs"
  shows "\<exists>m'. runTxn mock_disk bs m = Some (Ret (), m') \<and> jrnl_idle m' \<and>
    same_data (mock_val m') (apply_writes (txn_writes bs) (mock_val m)) \<and>
    mock_held m' = held_after (txn_writes bs) (mock_held m)"
proof -
  have "wp (runTxn mock_disk bs) (\<lambda>_ m'. jrnl_idle m' \<and>
      same_data (mock_val m') (apply_writes (txn_writes bs) (mock_val m)) \<and>
      mock_held m' = held_after (txn_writes bs) (mock_held m)) (\<lambda>_ _. False) m"
    by (rule mock.wp_runTxn)
      (use assms(2) jrnl_idleD [OF assms(1)] assms(1) [unfolded jrnl_idle_def] in
        \<open>simp_all add: mock.log_unlocked_def jrnl_idle_def\<close>)
  then show ?thesis by (auto dest: wp_RetD)
qed

theorem runTxn_commits_witness:
  "\<exists>m'. runTxn mock_disk [\<lparr>Nr = 100003, Data = ''a''\<rparr>, \<lparr>Nr = 0, Data = ''b''\<rparr>]
      \<lparr>kv = [fmt_d sbNr \<mapsto> Data (flattenSb idle_sb)]\<rparr> = Some (Ret (), m') \<and>
    mock_val m' 100003 = ''a'' \<and> mock_val m' 0 = ''b''"
proof -
  have data: "data_blk 100003" "data_blk 0" by (simp_all add: data_blk_def)
  obtain m' where m': "runTxn mock_disk [\<lparr>Nr = 100003, Data = ''a''\<rparr>, \<lparr>Nr = 0, Data = ''b''\<rparr>]
      \<lparr>kv = [fmt_d sbNr \<mapsto> Data (flattenSb idle_sb)]\<rparr> = Some (Ret (), m')"
    and same: "same_data (mock_val m') (apply_writes (txn_writes [\<lparr>Nr = 100003, Data = ''a''\<rparr>, \<lparr>Nr = 0, Data = ''b''\<rparr>])
      (mock_val \<lparr>kv = [fmt_d sbNr \<mapsto> Data (flattenSb idle_sb)]\<rparr>))"
    using runTxn_commits [OF witness_disk_idle txn_ok_example] by blast
  have "mock_val m' 100003 = ''a''" "mock_val m' 0 = ''b''"
    using same data by (simp_all add: same_data_def txn_writes_def)
  with m' show ?thesis by blast
qed

end
