(* ===== verification/Jrnl_Spec.thy ===== *)
theory Jrnl_Spec
  imports Jrnl_Atomic
begin

section \<open>The journal implements group commit\<close>

text \<open>
  The abstract journal keeps the data, the writes of every log segment in use and the set of
  transactions that have not ended. Ending or aborting the last open transaction performs the
  writes of all the segments in use, in the order of the segments. \<open>jrnl_on\<close> relates it to the
  blocks on disk, and the lemmas of this theory show that each operation of \<open>txn.go\<close> does what the
  abstract one does, on any disk that satisfies \<open>block_store\<close>, and that a stop at any point
  recovers to the data before or after the operation.
\<close>

subsection \<open>The abstract journal\<close>

record ajournal =
  a_data :: "uint \<Rightarrow> string"
  a_segs :: "nat \<rightharpoonup> wr list"
  a_open :: "nat set"

definition a_log :: "ajournal \<Rightarrow> wr list" where
  "a_log a = concat (map (\<lambda>i. the (a_segs a i)) (sorted_list_of_set (dom (a_segs a))))"

definition a_commit :: "ajournal \<Rightarrow> ajournal" where
  "a_commit a =
     (if a_open a = {} then a\<lparr>a_data := apply_writes (a_log a) (a_data a), a_segs := Map.empty\<rparr>
      else a)"

definition a_begin :: "nat \<Rightarrow> ajournal \<Rightarrow> ajournal" where
  "a_begin i a = a\<lparr>a_segs := (a_segs a)(i \<mapsto> []), a_open := insert i (a_open a)\<rparr>"

definition a_write :: "nat \<Rightarrow> wr \<Rightarrow> ajournal \<Rightarrow> ajournal" where
  "a_write i w a = a\<lparr>a_segs := (a_segs a)(i \<mapsto> the (a_segs a i) @ [w])\<rparr>"

definition a_close :: "nat \<Rightarrow> ajournal \<Rightarrow> ajournal" where
  "a_close i a = a\<lparr>a_open := a_open a - {i}\<rparr>"

definition a_drop :: "nat \<Rightarrow> ajournal \<Rightarrow> ajournal" where
  "a_drop i a = a\<lparr>a_segs := (a_segs a)(i := None), a_open := a_open a - {i}\<rparr>"

definition a_end :: "nat \<Rightarrow> ajournal \<Rightarrow> ajournal" where
  "a_end i a = a_commit (a_close i a)"

definition a_abort :: "nat \<Rightarrow> ajournal \<Rightarrow> ajournal" where
  "a_abort i a = a_commit (a_drop i a)"

subsection \<open>The relation to the disk\<close>

definition wr_blk :: "wr \<Rightarrow> Block" where
  "wr_blk w = \<lparr>Nr = fst w, Data = snd w\<rparr>"

definition seg_rel :: "(uint \<Rightarrow> string) \<Rightarrow> nat \<Rightarrow> bool \<Rightarrow> wr list \<Rightarrow> bool" where
  "seg_rel V i opn ws \<longleftrightarrow>
     length ws \<le> 100 \<and> (\<forall>w \<in> set ws. data_blk (fst w) \<and> CHR ''/'' \<notin> set (snd w)) \<and>
     (opn \<or> ws \<noteq> []) \<and>
     (\<forall>j < length ws. V (seg_start i + of_nat j)
        = log_rec (seg_start i + of_nat j) (wr_blk (ws ! j)) (\<not> opn \<and> Suc j = length ws))"

text \<open>The blocks \<open>V\<close> hold the journal \<open>a\<close>, with \<open>k\<close> in the counter of the superblock.\<close>

definition jrnl_on :: "nat \<Rightarrow> (uint \<Rightarrow> string) \<Rightarrow> ajournal \<Rightarrow> bool" where
  "jrnl_on k V a \<longleftrightarrow>
     commit_flag (sb_on V) = 0 \<and> cnt (sb_on V) = of_nat k \<and> wf_bitmap (bitmap (sb_on V)) \<and>
     set (used_segs (bitmap (sb_on V))) = dom (a_segs a) \<and> a_open a \<subseteq> dom (a_segs a) \<and>
     same_data V (a_data a) \<and>
     (\<forall>i ws. a_segs a i = Some ws \<longrightarrow> seg_rel V i (i \<in> a_open a) ws)"

text \<open>The caller holds no block of the journal.\<close>

definition jrnl_free :: "(uint \<Rightarrow> bool) \<Rightarrow> bool" where
  "jrnl_free H \<longleftrightarrow> (\<forall>n. \<not> data_blk n \<longrightarrow> \<not> H n)"

lemma jrnl_freeD: "jrnl_free H \<Longrightarrow> \<not> H sbNr" "jrnl_free H \<Longrightarrow> log_blk n \<Longrightarrow> \<not> H n"
  using log_not_data by (auto simp: jrnl_free_def)

lemma jrnl_free_held_after [simp]: "jrnl_free H \<Longrightarrow> jrnl_free (held_after ws H)"
  by (auto simp: jrnl_free_def held_after_def)

lemma jrnl_onD:
  assumes "jrnl_on k V a"
  shows "commit_flag (sb_on V) = 0" "cnt (sb_on V) = of_nat k" "wf_bitmap (bitmap (sb_on V))"
    "set (used_segs (bitmap (sb_on V))) = dom (a_segs a)" "a_open a \<subseteq> dom (a_segs a)"
    "same_data V (a_data a)" "a_segs a i = Some ws \<Longrightarrow> seg_rel V i (i \<in> a_open a) ws"
    "i \<in> dom (a_segs a) \<Longrightarrow> i < 1000" "finite (a_open a)" "card (a_open a) \<le> 1000"
proof -
  show *: "commit_flag (sb_on V) = 0" "cnt (sb_on V) = of_nat k" "wf_bitmap (bitmap (sb_on V))"
    "set (used_segs (bitmap (sb_on V))) = dom (a_segs a)" "a_open a \<subseteq> dom (a_segs a)"
    "same_data V (a_data a)" "a_segs a i = Some ws \<Longrightarrow> seg_rel V i (i \<in> a_open a) ws" for i ws
    using assms by (auto simp: jrnl_on_def)
  show lt: "i \<in> dom (a_segs a) \<Longrightarrow> i < 1000" for i
    using used_segs_less [OF *(3)] *(4) by auto
  have sub: "a_open a \<subseteq> {..<1000}" using lt *(5) by blast
  then show "finite (a_open a)" by (rule finite_subset) simp
  show "card (a_open a) \<le> 1000" using card_mono [OF _ sub] by simp
qed

lemma jrnl_on_seg:
  assumes "jrnl_on k V a" "a_segs a i = Some ws"
  shows "i < 1000" "length ws \<le> 100"
  using jrnl_onD(7) [OF assms] jrnl_onD(8) [OF assms(1)] assms(2) by (auto simp: seg_rel_def)

lemma jrnl_on_recovers: "jrnl_on k V a \<Longrightarrow> recovers_to V (a_data a)"
  by (rule recovers_to_uncommitted) (auto dest: jrnl_onD)

lemma used_segs_sorted: "used_segs bm = sorted_list_of_set (set (used_segs bm))"
proof -
  have "sorted (used_segs bm)" "distinct (used_segs bm)"
    by (simp_all add: used_segs_def sorted_wrt_filter)
  then show ?thesis
    by (simp only: sorted_list_of_set.idem_if_sorted_distinct)
qed

lemma used_segs_update_set:
  assumes "wf_bitmap bm" "i < 1000"
  shows "set (used_segs (bm[i := c])) =
    (if c = CHR ''1'' then insert i (set (used_segs bm)) else set (used_segs bm) - {i})"
  using assms by (auto simp: used_segs_def wf_bitmap_def nth_list_update split: if_splits)

lemma seg_blocks_neq:
  assumes "i < 1000" "i' < 1000" "j < 100" "j' < 100" "i \<noteq> i' \<or> j \<noteq> j'"
  shows "seg_start i + of_nat j \<noteq> seg_start i' + of_nat j'"
proof
  assume eq: "seg_start i + of_nat j = seg_start i' + of_nat j'"
  have "100 * i + 3 + j = unat (seg_start i + of_nat j)"
    using seg_lbn(1) assms by presburger
  also have "\<dots> = 100 * i' + 3 + j'"
    unfolding eq using seg_lbn(1) assms by presburger
  finally have "100 * i + 3 + j = 100 * i' + 3 + j'" .
  moreover from this have "i = i'" using assms(3,4) by linarith
  ultimately show False using assms(5) by simp
qed

lemma seg_rel_cong:
  assumes "\<And>j. j < 100 \<Longrightarrow> V (seg_start i + of_nat j) = W (seg_start i + of_nat j)"
  shows "seg_rel V i opn ws \<longleftrightarrow> seg_rel W i opn ws"
  using assms by (auto simp: seg_rel_def)

lemma seg_rel_upd_other:
  assumes "i < 1000" "i' < 1000" "j < 100" "i \<noteq> i'"
  shows "seg_rel (V(seg_start i + of_nat j := x)) i' opn ws \<longleftrightarrow> seg_rel V i' opn ws"
  by (rule seg_rel_cong) (use assms seg_blocks_neq [of i' i _ j] in auto)

lemma seg_rel_set_sb [simp]: "i < 1000 \<Longrightarrow> seg_rel (set_sb sb V) i opn ws \<longleftrightarrow> seg_rel V i opn ws"
  by (rule seg_rel_cong) (metis not_log_sbNr seg_lbn(2) set_sb_other)

text \<open>The log of a segment that was ended is what the transaction wrote.\<close>

lemma seg_rel_closed:
  assumes "seg_rel V i False ws"
  shows "seg_ok V i" "seg_of V i = ws"
proof -
  have "seg_log V 100 (seg_start i) = Some (txn_writes (map wr_blk ws))"
    using assms by (intro seg_log_recs) (auto simp: seg_rel_def wr_blk_def)
  moreover have "txn_writes (map wr_blk ws) = ws"
    by (simp add: txn_writes_def wr_blk_def map_idI)
  ultimately show "seg_ok V i" "seg_of V i = ws"
    using assms by (auto simp: seg_ok_def seg_of_def seg_rel_def data_writes_def list_all_iff)
qed

lemma seg_rel_empty [simp]: "seg_rel V i True []"
  by (simp add: seg_rel_def)

lemma seg_rel_append:
  assumes "seg_rel V i True ws" "i < 1000" "length ws < 100" "data_blk (fst w)" "CHR ''/'' \<notin> set (snd w)"
  shows "seg_rel (V(seg_start i + of_nat (length ws)
    := log_rec (seg_start i + of_nat (length ws)) (wr_blk w) False)) i True (ws @ [w])"
proof -
  have "seg_start i + of_nat j \<noteq> seg_start i + of_nat (length ws)" if "j < length ws" for j
    using that assms(2,3) by (intro seg_blocks_neq) auto
  with assms show ?thesis
    by (auto simp: seg_rel_def nth_append less_Suc_eq)
qed

lemma seg_rel_mark:
  fixes V :: "uint \<Rightarrow> string"
  assumes "seg_rel V i True ws" "i < 1000" "length ws = Suc k"
  defines "l \<equiv> seg_start i + of_nat k"
  shows "seg_rel (V(l := mark_rec l (V l))) i False ws"
proof -
  have k: "k < length ws" "k < 100" using assms by (auto simp: seg_rel_def)
  have "V l = log_rec l (wr_blk (ws ! k)) False" and "CHR ''/'' \<notin> set (snd (ws ! k))"
    using assms(1) k(1) by (auto simp: seg_rel_def l_def)
  then have m: "mark_rec l (V l) = log_rec l (wr_blk (ws ! k)) True"
    by (simp add: mark_rec_log_rec wr_blk_def)
  have other: "seg_start i + of_nat j \<noteq> l" if "j < length ws" "j \<noteq> k" for j
    unfolding l_def using that assms(2,3) k by (intro seg_blocks_neq) auto
  have "(V(l := mark_rec l (V l))) (seg_start i + of_nat j)
      = log_rec (seg_start i + of_nat j) (wr_blk (ws ! j)) (Suc j = length ws)" if "j < length ws" for j
  proof (cases "j = k")
    case True
    with m assms(3) show ?thesis by (simp add: l_def)
  next
    case False
    with other [OF that] that assms(1,3) show ?thesis by (auto simp: seg_rel_def)
  qed
  with assms(1,3) show ?thesis by (auto simp: seg_rel_def)
qed

subsection \<open>Each operation implements its abstract counterpart\<close>

definition handle :: "nat \<Rightarrow> wr list \<Rightarrow> TxnHandle" where
  "handle i ws = \<lparr>blkSeg = of_nat i, offset = of_nat (length ws)\<rparr>"

lemma of_nat_uint_inj: "m < 2 ^ 64 \<Longrightarrow> n < 2 ^ 64 \<Longrightarrow> (of_nat m :: uint) = of_nat n \<longleftrightarrow> m = n"
  by (simp add: word_of_nat_eq_iff take_bit_nat_eq_self)

lemma jrnl_on_other_seg:
  assumes "jrnl_on k V a" "a_segs a i' = Some ws" "i' \<noteq> i" "i < 1000" "j < 100"
  shows "seg_rel (V(seg_start i + of_nat j := x)) i' (i' \<in> a_open a) ws"
proof -
  have "i' < 1000" using jrnl_onD(8) [OF assms(1)] assms(2) by blast
  with assms(3-5) jrnl_onD(7) [OF assms(1,2)] show ?thesis
    by (simp add: seg_rel_upd_other)
qed

lemma jrnl_on_set_sb:
  assumes "jrnl_on k V a" "wf_bitmap bm" "set (used_segs bm) = dom (a_segs a')" "a_open a' \<subseteq> dom (a_segs a')"
    and "a_data a' = a_data a"
    and "\<And>i ws. a_segs a' i = Some ws \<Longrightarrow> seg_rel V i (i \<in> a_open a') ws"
  shows "jrnl_on k' (set_sb \<lparr>bitmap = bm, cnt = of_nat k', commit_flag = 0\<rparr> V) a'"
proof -
  have "i < 1000" if "a_segs a' i = Some ws" for i ws
    using used_segs_less [OF assms(2)] assms(3) that by blast
  with assms jrnl_onD(6) [OF assms(1)] show ?thesis
    by (simp add: jrnl_on_def)
qed

lemma jrnl_on_log_blk:
  assumes "jrnl_on k V a" "log_blk l" "a_data a' = a_data a" "dom (a_segs a') = dom (a_segs a)"
    and "a_open a' \<subseteq> a_open a"
    and "\<And>i ws. a_segs a' i = Some ws \<Longrightarrow> seg_rel (V(l := x)) i (i \<in> a_open a') ws"
  shows "jrnl_on k (V(l := x)) a'"
proof -
  have "sb_on (V(l := x)) = sb_on V"
    using assms(2) by (intro sb_on_cong) auto
  moreover have "same_data (V(l := x)) (a_data a)"
    using jrnl_onD(6) [OF assms(1)] data_not_log assms(2) by (auto simp: same_data_def)
  ultimately show ?thesis
    using assms jrnl_onD(1-5) [OF assms(1)] by (auto simp: jrnl_on_def)
qed

context block_store
begin

lemma jrnl_log_unlocked: "jrnl_free (held s) \<Longrightarrow> log_unlocked s"
  by (auto simp: log_unlocked_def dest: jrnl_freeD)

lemma wp_Begin_refines:
  assumes s: "okay s" "jrnl_on (card (a_open a)) (val s) a" "jrnl_free (held s)"
    and full: "dom (a_segs a) \<noteq> {..<1000}"
    and C: "\<And>V. recovers_to V (a_data a) \<Longrightarrow> safe C V"
    and Q: "\<And>i s'. okay s' \<Longrightarrow> a_segs a i = None \<Longrightarrow> i < 1000 \<Longrightarrow> (\<forall>j < i. a_segs a j \<noteq> None) \<Longrightarrow>
      jrnl_on (card (a_open (a_begin i a))) (val s') (a_begin i a) \<Longrightarrow> held s' = held s \<Longrightarrow>
      wp (f (handle i [])) Q C s'"
  shows "wp (io_bind (BeginTransaction dsk) f) Q C s"
proof -
  let ?sb = "sb_on (val s)"
  note D = jrnl_onD [OF s(2)]
  have "used_segs (bitmap ?sb) \<noteq> [0..<1000]"
    using full D(4) by (metis atLeast0LessThan atLeast_upt set_upt)
  then obtain i where i: "i < 1000" "bitmap ?sb ! i = CHR ''0''" "\<forall>j < i. bitmap ?sb ! j \<noteq> CHR ''0''"
    using free_seg [OF D(3)] by blast
  have "i \<notin> set (used_segs (bitmap ?sb))" using i(2) by (simp add: used_segs_def)
  then have new: "a_segs a i = None" "i \<notin> a_open a" using D(4,5) by auto
  have least: "\<forall>j < i. a_segs a j \<noteq> None"
  proof (intro allI impI)
    fix j assume j: "j < i"
    then have "bitmap ?sb ! j = CHR ''1''" "j < length (bitmap ?sb)"
      using i wf_bitmapD [OF D(3) nth_mem, of j] length_wf_bitmap [OF D(3)] by auto
    then have "j \<in> set (used_segs (bitmap ?sb))" by (simp add: used_segs_def)
    with D(4) show "a_segs a j \<noteq> None" by auto
  qed
  let ?a = "a_begin i a"
  let ?bm = "(bitmap ?sb)[i := CHR ''1'']"
  have sb': "?sb\<lparr>bitmap := ?bm, cnt := cnt ?sb + 1\<rparr>
      = \<lparr>bitmap = ?bm, cnt = of_nat (card (a_open ?a)), commit_flag = 0\<rparr>"
    using D(1,2,9) new by (simp add: a_begin_def)
  have on: "jrnl_on (card (a_open ?a)) (set_sb (?sb\<lparr>bitmap := ?bm, cnt := cnt ?sb + 1\<rparr>) (val s)) ?a"
    unfolding sb' using D new i(1) used_segs_update_set [OF D(3) i(1), of "CHR ''1''"]
    by (intro jrnl_on_set_sb [OF s(2)]) (auto simp: a_begin_def split: if_splits)
  show ?thesis
    by (rule wp_BeginTransaction [OF _ _ _ D(1,3) i refl])
      (use s on C Q new least i(1) jrnl_on_recovers [OF s(2)] jrnl_on_recovers [OF on] jrnl_freeD(1) [OF s(3)] in
        \<open>auto simp: handle_def a_begin_def\<close>)
qed

lemma wp_Write_refines:
  assumes s: "okay s" "jrnl_on k (val s) a" "jrnl_free (held s)"
    and i: "i \<in> a_open a" "a_segs a i = Some ws"
    and w: "data_blk (Nr b)" "CHR ''/'' \<notin> set (Data b)" "length ws < 100"
    and C: "\<And>V. recovers_to V (a_data a) \<Longrightarrow> safe C V"
    and Q: "\<And>s'. okay s' \<Longrightarrow> jrnl_on k (val s') (a_write i (Nr b, Data b) a) \<Longrightarrow> held s' = held s \<Longrightarrow>
      wp (f (None, handle i (ws @ [(Nr b, Data b)]))) Q C s'"
  shows "wp (io_bind (WriteBlock dsk (handle i ws) b) f) Q C s"
proof -
  let ?l = "seg_start i + of_nat (length ws)"
  let ?V = "(val s)(?l := log_rec ?l b False)"
  note D = jrnl_onD [OF s(2)]
  have lt: "i < 1000" using D(8) i(2) by blast
  have l: "log_blk ?l" using lt w(3) by (rule seg_lbn(2))
  have b: "wr_blk (Nr b, Data b) = b" by (simp add: wr_blk_def)
  have on: "jrnl_on k ?V (a_write i (Nr b, Data b) a)"
  proof (rule jrnl_on_log_blk [OF s(2) l])
    fix i' ws'
    assume *: "a_segs (a_write i (Nr b, Data b) a) i' = Some ws'"
    show "seg_rel ?V i' (i' \<in> a_open (a_write i (Nr b, Data b) a)) ws'"
    proof (cases "i' = i")
      case True
      have "seg_rel (val s) i True ws" using D(7) [OF i(2)] i(1) by simp
      from seg_rel_append [OF this lt w(3), of "(Nr b, Data b)"] show ?thesis
        using True * i w(1,2) by (simp add: a_write_def b)
    next
      case False
      then have "a_segs a i' = Some ws'" using * by (simp add: a_write_def)
      from jrnl_on_other_seg [OF s(2) this False lt w(3)] show ?thesis
        by (simp add: a_write_def)
    qed
  qed (use i in \<open>auto simp: a_write_def\<close>)
  have lbn: "getLogSegmentStart (of_nat i) + of_nat (length ws) = ?l"
    by (simp add: seg_start_def)
  have "\<not> blkPerSys \<le> (of_nat (length ws) :: uint)"
    using w(3) unat_offset_less [of "of_nat (length ws)"] by (simp add: unat_of_nat)
  then show ?thesis
    unfolding WriteBlock_def handle_def Let_def
    by (simp add: io_bind_assoc lbn, intro wp_writeLogBlock)
      (use s on C Q l jrnl_on_recovers [OF s(2)] jrnl_on_recovers [OF on] jrnl_freeD(2) [OF s(3)] in
        \<open>auto simp: handle_def a_write_def add.commute\<close>)
qed

lemma wp_endRetry_refines:
  assumes s: "okay s" "jrnl_on (Suc (card (a_open a))) (val s) a" "jrnl_free (held s)"
    and C: "\<And>V. recovers_to V (a_data a) \<or> recovers_to V (a_data (a_commit a)) \<Longrightarrow> safe C V"
    and Q: "\<And>s'. okay s' \<Longrightarrow> jrnl_on (card (a_open a)) (val s') (a_commit a) \<Longrightarrow>
      jrnl_free (held s') \<Longrightarrow> \<forall>n. held s' n \<longrightarrow> held s n \<and> (a_open a = {} \<longrightarrow> n \<notin> fst ` set (a_log a)) \<Longrightarrow> Q () s'"
  shows "wp (endRetry dsk) Q C s"
proof -
  let ?sb = "sb_on (val s)"
  let ?bm = "bitmap ?sb"
  note D = jrnl_onD [OF s(2)]
  have safe: "safe C (val s)" using C jrnl_on_recovers [OF s(2)] by blast
  have dec: "?sb\<lparr>cnt := cnt ?sb - 1\<rparr> = \<lparr>bitmap = ?bm, cnt = of_nat (card (a_open a)), commit_flag = 0\<rparr>"
    using D(1,2) by simp
  have on: "jrnl_on (card (a_open a)) (set_sb (?sb\<lparr>cnt := cnt ?sb - 1\<rparr>) (val s)) a"
    unfolding dec by (rule jrnl_on_set_sb [OF s(2)]) (use D in auto)
  show ?thesis
  proof (cases "a_open a = {} \<and> used_segs ?bm \<noteq> []")
    case False
    then have "cnt (?sb\<lparr>cnt := cnt ?sb - 1\<rparr>) \<noteq> 0 \<or> used_segs ?bm = []"
      using D(9,10) of_nat_uint_inj [of "card (a_open a)" 0] unfolding dec by auto
    moreover have "a_open a = {} \<longrightarrow> a_log a = []" using False D(4) by (auto simp: a_log_def)
    moreover have "a_commit a = a"
    proof (cases "a_open a = {}")
      case True
      with False D(4) have "dom (a_segs a) = {}" by simp
      then have "a_segs a = Map.empty" by simp
      then show ?thesis by (cases a) (simp add: a_commit_def a_log_def)
    qed (simp add: a_commit_def)
    ultimately show ?thesis
      by (intro wp_endRetry_dec)
        (use s on safe D C Q jrnl_on_recovers [OF on] jrnl_freeD(1) [OF s(3)] in auto)
  next
    case True
    let ?ws = "logged (val s) (used_segs ?bm)"
    have segs: "seg_ok (val s) i \<and> seg_of (val s) i = the (a_segs a i)" if "i \<in> set (used_segs ?bm)" for i
      using that True D(4,7) seg_rel_closed [of "val s" i] by fastforce
    have ws: "?ws = a_log a"
      unfolding logged_def a_log_def using segs D(4) used_segs_sorted [of ?bm]
      by (metis (no_types, lifting) map_cong)
    have data: "data_writes ?ws" using segs by (intro data_writes_logged) blast
    let ?V = "apply_writes ?ws (val s)"
    have same: "same_data ?V (a_data (a_commit a))"
      using True D(6) same_data_apply_writes by (simp add: a_commit_def ws)
    have on': "jrnl_on 0 (set_sb idle_sb ?V) (a_commit a)"
      using True same by (simp add: jrnl_on_def idle_sb_def a_commit_def)
    have mid: "safe C (set_sb \<lparr>bitmap = ?bm, cnt = 0, commit_flag = 1\<rparr> (apply_writes xs (val s)))"
      if "prefix xs ?ws" for xs
      using recovers_to_committed [OF D(3), of "val s" 1 xs 0] segs set_mono_prefix [OF that] same C
      by (auto simp: recovers_to_def same_data_def)
    have cnt: "cnt ?sb = 1" using True D(2) by simp
    show ?thesis
      by (rule wp_endRetry_commit)
        (use s True D(1,3) cnt segs safe mid on' Q C jrnl_on_recovers [OF on'] jrnl_freeD(1) [OF s(3)]
          jrnl_log_unlocked in \<open>auto simp: held_after_def ws\<close>)
  qed
qed

lemma wp_End_refines:
  assumes s: "okay s" "jrnl_on (card (a_open a)) (val s) a" "jrnl_free (held s)"
    and i: "i \<in> a_open a" "a_segs a i = Some ws" "ws \<noteq> []"
    and C: "\<And>V. recovers_to V (a_data a) \<or> recovers_to V (a_data (a_end i a)) \<Longrightarrow> safe C V"
    and Q: "\<And>s'. okay s' \<Longrightarrow> jrnl_on (card (a_open (a_end i a))) (val s') (a_end i a) \<Longrightarrow>
      jrnl_free (held s') \<Longrightarrow> \<forall>n. held s' n \<longrightarrow> held s n \<and> (a_open a = {i} \<longrightarrow> n \<notin> fst ` set (a_log a)) \<Longrightarrow> Q () s'"
  shows "wp (EndTransaction dsk (handle i ws) abt) Q C s"
proof -
  note D = jrnl_onD [OF s(2)]
  obtain k where k: "length ws = Suc k" using i(3) by (cases ws) auto
  have lt: "i < 1000" and len: "length ws \<le> 100" "k < 100"
    using jrnl_on_seg [OF s(2) i(2)] k by simp_all
  let ?l = "seg_start i + of_nat k"
  let ?V = "(val s)(?l := mark_rec ?l (val s ?l))"
  have l: "log_blk ?l" "last_lbn (handle i ws) = ?l"
    using seg_lbn(2) [OF lt len(2)] last_lbn_pos [of "length ws" i] k len by (simp_all add: handle_def)
  have card: "card (a_open a) = Suc (card (a_open (a_close i a)))"
    using card_Suc_Diff1 [OF D(9) i(1)] by (simp add: a_close_def)
  have on: "jrnl_on (card (a_open a)) ?V (a_close i a)"
  proof (rule jrnl_on_log_blk [OF s(2) l(1)])
    fix i' ws'
    assume *: "a_segs (a_close i a) i' = Some ws'"
    show "seg_rel ?V i' (i' \<in> a_open (a_close i a)) ws'"
    proof (cases "i' = i")
      case True
      then show ?thesis
        using * i seg_rel_mark [OF _ lt k, of "val s"] D(7) [OF i(2)] by (simp add: a_close_def)
    next
      case False
      with * jrnl_on_other_seg [OF s(2) _ False lt len(2)] show ?thesis
        by (simp add: a_close_def)
    qed
  qed (auto simp: a_close_def)
  have open_end: "a_open (a_end i a) = a_open (a_close i a)"
    by (simp add: a_end_def a_commit_def)
  show ?thesis
    unfolding EndTransaction_def
  proof (rule wp_markLast, unfold l(2), goal_cases)
    case (5 s')
    then show ?case
      using s(3) on card C Q open_end
      by (intro wp_endRetry_refines [where a = "a_close i a"]) (auto simp: a_end_def a_close_def a_log_def)
  qed (use s(1) C l(1) jrnl_on_recovers [OF s(2)] jrnl_on_recovers [OF on] jrnl_freeD(2) [OF s(3)] in
      \<open>auto simp: a_close_def\<close>)
qed

lemma wp_Abort_refines:
  assumes s: "okay s" "jrnl_on (card (a_open a)) (val s) a" "jrnl_free (held s)"
    and i: "i \<in> a_open a" "a_segs a i = Some ws"
    and C: "\<And>V. recovers_to V (a_data a) \<or> recovers_to V (a_data (a_abort i a)) \<Longrightarrow> safe C V"
    and Q: "\<And>s'. okay s' \<Longrightarrow> jrnl_on (card (a_open (a_abort i a))) (val s') (a_abort i a) \<Longrightarrow>
      jrnl_free (held s') \<Longrightarrow> \<forall>n. held s' n \<longrightarrow> held s n \<Longrightarrow> Q () s'"
  shows "wp (AbortTransaction dsk (handle i ws)) Q C s"
proof -
  let ?sb = "sb_on (val s)"
  let ?bm = "(bitmap ?sb)[i := CHR ''0'']"
  let ?a = "a_drop i a"
  note D = jrnl_onD [OF s(2)]
  have lt: "i < 1000" and len: "length ws \<le> 100"
    using jrnl_on_seg [OF s(2) i(2)] by simp_all
  have seg: "unat (blkSeg (handle i ws)) = i"
    using lt by (simp add: handle_def unat_of_nat)
  have card: "card (a_open a) = Suc (card (a_open ?a))"
    using card_Suc_Diff1 [OF D(9) i(1)] by (simp add: a_drop_def)
  have sb': "?sb\<lparr>bitmap := ?bm\<rparr> = \<lparr>bitmap = ?bm, cnt = of_nat (card (a_open a)), commit_flag = 0\<rparr>"
    using D(1,2) by simp
  have on1: "jrnl_on (card (a_open a)) (set_sb (?sb\<lparr>bitmap := ?bm\<rparr>) (val s)) ?a"
    unfolding sb' using D used_segs_update_set [OF D(3) lt, of "CHR ''0''"]
    by (intro jrnl_on_set_sb [OF s(2)]) (auto simp: a_drop_def split: if_splits)
  obtain k where k: "last_lbn (handle i ws) = seg_start i + of_nat k" "k < 100"
  proof (cases ws)
    case Nil
    then show ?thesis using that [of 0] by (simp add: handle_def last_lbn_def seg_start_def)
  next
    case (Cons w ws')
    then show ?thesis
      using that [of "length ws'"] last_lbn_pos [of "length ws" i] len by (simp add: handle_def)
  qed
  have l: "log_blk (seg_start i + of_nat k)" using seg_lbn(2) [OF lt k(2)] .
  have on2: "jrnl_on (card (a_open a)) (V(seg_start i + of_nat k := x)) ?a"
    if "jrnl_on (card (a_open a)) V ?a" for V x
    using jrnl_on_other_seg [OF that _ _ lt k(2)]
    by (intro jrnl_on_log_blk [OF that l]) (auto simp: a_drop_def split: if_splits)
  have open_abort: "a_open (a_abort i a) = a_open ?a" "a_data ?a = a_data a"
    by (simp_all add: a_abort_def a_commit_def a_drop_def)
  have safe: "safe C V" if "jrnl_on (card (a_open a)) V ?a" for V
    using jrnl_on_recovers [OF that] C open_abort(2) by simp
  have "wp (EndTransaction dsk (handle i ws) True) Q C s'"
    if s': "okay s'" "jrnl_on (card (a_open a)) (val s') ?a" "held s' = held s" for s'
    unfolding EndTransaction_def
  proof (rule wp_markLast, unfold k(1), goal_cases)
    case (5 s'')
    then show ?case
      using s(3) s' on2 card C Q open_abort
      by (intro wp_endRetry_refines [where a = ?a]) (auto simp: a_abort_def)
  qed (use s(3) s' l safe on2 jrnl_freeD(2) [OF s(3) l] in auto)
  then show ?thesis
    unfolding AbortTransaction_def
    by (intro wp_abortRetry, unfold seg)
      (use s D(1,3) lt on1 safe [OF on1] C jrnl_on_recovers [OF s(2)] jrnl_freeD(1) [OF s(3)] in auto)
qed

end

subsection \<open>Interleaved transactions\<close>

text \<open>
  Clients call the journal in any order; \<open>hs\<close> holds the handles of the transactions that have
  begun and not ended, under the numbers of their segments.
\<close>

datatype jop = JBegin | JWrite nat Block | JEnd nat | JAbort nat

definition with_handle ::
  "(nat \<rightharpoonup> TxnHandle) \<Rightarrow> nat \<Rightarrow> (TxnHandle \<Rightarrow> ('s, 'a) io) \<Rightarrow> ('s, 'a) io"
where
  "with_handle hs i f = (case hs i of None \<Rightarrow> io_fatal ''no such transaction'' | Some t \<Rightarrow> f t)"

fun jrnl_op :: "'s Disk \<Rightarrow> jop \<Rightarrow> (nat \<rightharpoonup> TxnHandle) \<Rightarrow> ('s, nat \<rightharpoonup> TxnHandle) io" where
  "jrnl_op dsk JBegin hs =
     io_bind (BeginTransaction dsk) (\<lambda>t. io_return (hs(unat (blkSeg t) \<mapsto> t)))"
| "jrnl_op dsk (JWrite i b) hs =
     with_handle hs i (\<lambda>t. io_bind (WriteBlock dsk t b) (\<lambda>r. io_return (hs(i \<mapsto> snd r))))"
| "jrnl_op dsk (JEnd i) hs =
     with_handle hs i (\<lambda>t. io_bind (EndTransaction dsk t False) (\<lambda>_. io_return (hs(i := None))))"
| "jrnl_op dsk (JAbort i) hs =
     with_handle hs i (\<lambda>t. io_bind (AbortTransaction dsk t) (\<lambda>_. io_return (hs(i := None))))"

fun jrnl_ops :: "'s Disk \<Rightarrow> jop list \<Rightarrow> (nat \<rightharpoonup> TxnHandle) \<Rightarrow> ('s, nat \<rightharpoonup> TxnHandle) io" where
  "jrnl_ops dsk [] hs = io_return hs"
| "jrnl_ops dsk (p # ps) hs = io_bind (jrnl_op dsk p hs) (jrnl_ops dsk ps)"

text \<open>
  The abstract operations; \<open>None\<close> where the caller breaks the contract: no free segment (the call
  waits), a transaction that is not open, a full segment, a block of the journal, data with a
  slash, or the end of a transaction that wrote nothing.
\<close>

fun a_op :: "jop \<Rightarrow> ajournal \<Rightarrow> ajournal option" where
  "a_op JBegin a =
     (case find (\<lambda>i. a_segs a i = None) [0..<1000] of None \<Rightarrow> None | Some i \<Rightarrow> Some (a_begin i a))"
| "a_op (JWrite i b) a =
     (if i \<in> a_open a \<and> length (the (a_segs a i)) < 100 \<and> data_blk (Nr b) \<and> CHR ''/'' \<notin> set (Data b)
      then Some (a_write i (Nr b, Data b) a) else None)"
| "a_op (JEnd i) a = (if i \<in> a_open a \<and> a_segs a i \<noteq> Some [] then Some (a_end i a) else None)"
| "a_op (JAbort i) a = (if i \<in> a_open a then Some (a_abort i a) else None)"

fun a_ops :: "jop list \<Rightarrow> ajournal \<Rightarrow> ajournal option" where
  "a_ops [] a = Some a"
| "a_ops (p # ps) a = (case a_op p a of None \<Rightarrow> None | Some a' \<Rightarrow> a_ops ps a')"

definition handles :: "ajournal \<Rightarrow> nat \<rightharpoonup> TxnHandle" where
  "handles a i = (if i \<in> a_open a then map_option (handle i) (a_segs a i) else None)"

context block_store
begin

lemma wp_jrnl_op_refines:
  assumes s: "okay s" "jrnl_on (card (a_open a)) (val s) a" "jrnl_free (held s)"
    and op: "a_op p a = Some a'"
    and C: "\<And>V. recovers_to V (a_data a) \<or> recovers_to V (a_data a') \<Longrightarrow> safe C V"
    and Q: "\<And>s'. okay s' \<Longrightarrow> jrnl_on (card (a_open a')) (val s') a' \<Longrightarrow> jrnl_free (held s') \<Longrightarrow>
      Q (handles a') s'"
  shows "wp (jrnl_op dsk p (handles a)) Q C s"
proof (cases p)
  case JBegin
  then obtain i where i: "find (\<lambda>i. a_segs a i = None) [0..<1000] = Some i" and a': "a' = a_begin i a"
    using op by (auto split: option.splits)
  from i have first: "i < 1000" "a_segs a i = None" "\<forall>j < i. a_segs a j \<noteq> None"
    by (auto simp: find_Some_iff)
  have full: "dom (a_segs a) \<noteq> {..<1000}" using first by auto
  have upd: "(handles a)(i \<mapsto> handle i []) = handles a'"
    by (auto simp: a' handles_def a_begin_def fun_eq_iff)
  have seg: "unat (blkSeg (handle i [])) = i"
    using first(1) by (simp add: handle_def unat_of_nat)
  show ?thesis
    unfolding JBegin jrnl_op.simps
  proof (rule wp_Begin_refines [OF s full])
    fix i' s'
    assume *: "okay s'" "a_segs a i' = None" "\<forall>j < i'. a_segs a j \<noteq> None" "held s' = held s"
      and on: "jrnl_on (card (a_open (a_begin i' a))) (val s') (a_begin i' a)"
    have "i' = i" using * first by (metis linorder_neqE_nat)
    with * on Q s(3) upd seg a' show "wp (io_return ((handles a)(unat (blkSeg (handle i' [])) \<mapsto> handle i' []))) Q C s'"
      by simp
  qed (use C in blast)
next
  case (JWrite i b)
  then have i: "i \<in> a_open a" "length (the (a_segs a i)) < 100" "data_blk (Nr b)" "CHR ''/'' \<notin> set (Data b)"
    and a': "a' = a_write i (Nr b, Data b) a"
    using op by (auto split: if_splits)
  then obtain ws where ws: "a_segs a i = Some ws" using jrnl_onD(5) [OF s(2)] by blast
  have upd: "(handles a)(i \<mapsto> handle i (ws @ [(Nr b, Data b)])) = handles a'"
    using i ws by (auto simp: a' handles_def a_write_def fun_eq_iff)
  have "handles a i = Some (handle i ws)" using i ws by (simp add: handles_def)
  then show ?thesis
    unfolding JWrite jrnl_op.simps with_handle_def
    by (simp, intro wp_Write_refines [OF s i(1) ws])
      (use i ws C Q s(3) upd a' in \<open>auto simp: a_write_def\<close>)
next
  case (JEnd i)
  then have i: "i \<in> a_open a" "a_segs a i \<noteq> Some []" and a': "a' = a_end i a"
    using op by (auto split: if_splits)
  then obtain ws where ws: "a_segs a i = Some ws" "ws \<noteq> []" using jrnl_onD(5) [OF s(2)] by blast
  have upd: "(handles a)(i := None) = handles a'"
    by (auto simp: a' handles_def a_end_def a_close_def a_commit_def fun_eq_iff)
  have "handles a i = Some (handle i ws)" using i ws by (simp add: handles_def)
  then show ?thesis
    unfolding JEnd jrnl_op.simps with_handle_def
    by (simp add: wp_bind, intro wp_End_refines [OF s i(1) ws])
      (use C Q upd a' in auto)
next
  case (JAbort i)
  then have i: "i \<in> a_open a" and a': "a' = a_abort i a"
    using op by (auto split: if_splits)
  then obtain ws where ws: "a_segs a i = Some ws" using jrnl_onD(5) [OF s(2)] by blast
  have upd: "(handles a)(i := None) = handles a'"
    by (auto simp: a' handles_def a_abort_def a_drop_def a_commit_def fun_eq_iff)
  have "handles a i = Some (handle i ws)" using i ws by (simp add: handles_def)
  then show ?thesis
    unfolding JAbort jrnl_op.simps with_handle_def
    by (simp add: wp_bind, intro wp_Abort_refines [OF s i(1) ws])
      (use C Q upd a' in auto)
qed

end

lemma jrnl_ops_refines:
  assumes "jrnl_on (card (a_open a)) (mock_val m) a" "jrnl_free (mock_held m)" "a_ops ps a = Some a'"
  shows "\<exists>m'. jrnl_ops mock_disk ps (handles a) m = Some (Ret (handles a'), m') \<and>
    jrnl_on (card (a_open a')) (mock_val m') a' \<and> jrnl_free (mock_held m')"
  using assms
proof (induction ps arbitrary: a m)
  case (Cons p ps)
  then obtain b where b: "a_op p a = Some b" "a_ops ps b = Some a'"
    by (auto split: option.splits)
  have "wp (jrnl_op mock_disk p (handles a))
      (\<lambda>hs m'. hs = handles b \<and> jrnl_on (card (a_open b)) (mock_val m') b \<and> jrnl_free (mock_held m'))
      (\<lambda>_ _. False) m"
    by (rule mock.wp_jrnl_op_refines [OF _ Cons.prems(1,2) b(1)]) (auto simp: crash_safe_def)
  then obtain m1 where "jrnl_op mock_disk p (handles a) m = Some (Ret (handles b), m1)"
    "jrnl_on (card (a_open b)) (mock_val m1) b" "jrnl_free (mock_held m1)"
    by (auto dest: wp_RetD)
  with Cons.IH [of b m1] b(2) show ?case
    by (auto simp: io_bind_def)
qed (simp add: io_return_def)

text \<open>The journal with no transaction, over the data blocks of \<open>m\<close>.\<close>

definition a_idle :: "MockDisk \<Rightarrow> ajournal" where
  "a_idle m = \<lparr>a_data = mock_val m, a_segs = Map.empty, a_open = {}\<rparr>"

lemma jrnl_on_idle: "jrnl_idle m \<Longrightarrow> jrnl_on (card (a_open (a_idle m))) (mock_val m) (a_idle m)"
  by (simp add: jrnl_on_def a_idle_def jrnl_idle_def idle_sb_def)

lemma jrnl_free_idle: "jrnl_idle m \<Longrightarrow> jrnl_free (mock_held m)"
  by (simp add: jrnl_free_def jrnl_idle_def)

lemma handles_idle [simp]: "handles (a_idle m) = Map.empty"
  by (simp add: handles_def a_idle_def fun_eq_iff)

text \<open>
  C1: any sequence of calls by any number of clients that the abstract group-commit journal
  accepts runs to its end on the disk, hands out exactly the handles of the abstract
  transactions, and leaves the data blocks with the abstract data: what the last open
  transaction's end or abort made permanent, and nothing of transactions still open or aborted.
\<close>

theorem journal_refines_group_commit:
  assumes "jrnl_idle m" and "a_ops ps (a_idle m) = Some a"
  shows "\<exists>m'. jrnl_ops mock_disk ps Map.empty m = Some (Ret (handles a), m') \<and>
    same_data (mock_val m') (a_data a) \<and> cnt (sb_on (mock_val m')) = of_nat (card (a_open a)) \<and>
    set (used_segs (bitmap (sb_on (mock_val m')))) = dom (a_segs a)"
proof -
  obtain m' where "jrnl_ops mock_disk ps (handles (a_idle m)) m = Some (Ret (handles a), m')"
    and on: "jrnl_on (card (a_open a)) (mock_val m') a"
    using jrnl_ops_refines [OF jrnl_on_idle jrnl_free_idle] assms by blast
  with jrnl_onD(2,4,6) [OF on] show ?thesis by auto
qed

definition witness_ops :: "jop list" where
  "witness_ops = [JBegin, JBegin, JWrite 0 \<lparr>Nr = 0, Data = ''x''\<rparr>, JWrite 1 \<lparr>Nr = 1, Data = ''y''\<rparr>,
     JEnd 0, JBegin, JWrite 2 \<lparr>Nr = 0, Data = ''z''\<rparr>, JAbort 2, JEnd 1]"

definition witness_disk :: MockDisk where
  "witness_disk = \<lparr>kv = [fmt_d sbNr \<mapsto> Data (flattenSb idle_sb)]\<rparr>"

lemma find_first_upt: "k < n \<Longrightarrow> P k \<Longrightarrow> (\<And>j. j < k \<Longrightarrow> \<not> P j) \<Longrightarrow> find P [0..<n] = Some k"
  by (subst find_Some_iff) (auto intro!: exI [of _ k])

lemma a_ops_example:
  "a_ops witness_ops (a_idle witness_disk)
     = Some \<lparr>a_data = (mock_val witness_disk)(0 := ''x'', 1 := ''y''), a_segs = Map.empty, a_open = {}\<rparr>"
proof -
  have b: "data_blk 0" "data_blk 1" by (simp_all add: data_blk_def)
  have f: "find ((<) 0) [0..<1000] = Some (1::nat)"
    "find (\<lambda>i. 0 < i \<and> (0 < i \<longrightarrow> i \<noteq> Suc 0)) [0..<1000] = Some (2::nat)"
    "find (\<lambda>i. True) [0..<1000] = Some (0::nat)"
    by (rule find_first_upt; auto)+
  have l: "sorted_list_of_set {0, 1::nat} = [0, 1]" "sorted_list_of_set {Suc 0, 0} = [0, 1]"
    by (simp_all add: insert_commute)
  show ?thesis
    by (simp add: witness_ops_def a_idle_def f b a_begin_def a_write_def a_end_def a_close_def a_abort_def
        a_drop_def a_commit_def a_log_def) auto
qed

theorem journal_refines_group_commit_witness:
  "\<exists>m'. jrnl_ops mock_disk witness_ops Map.empty witness_disk = Some (Ret Map.empty, m') \<and>
    mock_val m' 0 = ''x'' \<and> mock_val m' 1 = ''y''"
proof -
  have "jrnl_idle witness_disk"
    unfolding witness_disk_def by (rule witness_disk_idle)
  moreover have "handles \<lparr>a_data = d, a_segs = Map.empty, a_open = {}\<rparr> = Map.empty" for d
    by (simp add: handles_def fun_eq_iff)
  moreover have "data_blk 0" "data_blk 1" by (simp_all add: data_blk_def)
  ultimately show ?thesis
    using journal_refines_group_commit [OF _ a_ops_example] by (auto simp: same_data_def)
qed

text \<open>
  C2: the machine of a client that stops anywhere inside an operation, after any history of
  interleaved transactions, leaves a disk from which a start-up recovers exactly the data before
  the operation or exactly the data after it.
\<close>

theorem journal_crash_consistent:
  assumes "jrnl_idle m" and "a_ops ps (a_idle m) = Some a" and "a_op p a = Some a'"
    and "jrnl_ops mock_disk ps Map.empty m = Some (Ret hs, m')"
  shows "\<exists>r m1 k m2 m3.
    jrnl_op (crash_disk mock_disk) p hs (m', n) = Some (r, (m1, k)) \<and>
    start_ups ns m1 = Some m2 \<and> InitSb mock_disk (leases_expired m2) = Some (Ret (), m3) \<and>
    (same_data (mock_val m3) (a_data a) \<or> same_data (mock_val m3) (a_data a'))"
proof -
  have m': "jrnl_on (card (a_open a)) (mock_val m') a" "jrnl_free (mock_held m')" and hs: "hs = handles a"
    using jrnl_ops_refines [OF jrnl_on_idle jrnl_free_idle, OF assms(1,1,2)] assms(1,4) by auto
  let ?R = "\<lambda>p. recovers_to (mock_val (fst p)) (a_data a) \<or> recovers_to (mock_val (fst p)) (a_data a')"
  have "wp (jrnl_op (crash_disk mock_disk) p (handles a)) (\<lambda>_. ?R) (\<lambda>_. ?R) (m', n)"
    by (rule mock_crash.wp_jrnl_op_refines [OF _ _ _ assms(3)])
      (use m' in \<open>auto simp: crash_safe_def dest: jrnl_on_recovers\<close>)
  then obtain r m1 k where run: "jrnl_op (crash_disk mock_disk) p hs (m', n) = Some (r, (m1, k))" "?R (m1, k)"
    unfolding hs by (cases rule: wp_cases) auto
  have "\<exists>m2 m3. start_ups ns m1 = Some m2 \<and> InitSb mock_disk (leases_expired m2) = Some (Ret (), m3) \<and>
      same_data (mock_val m3) W" if "recovers_to (mock_val m1) W" for W
    using start_ups_recover [OF that] InitSb_recovers by blast
  with run show ?thesis by fastforce
qed

lemma a_op_example: "a_op JBegin \<lparr>a_data = d, a_segs = Map.empty, a_open = {}\<rparr>
    = Some \<lparr>a_data = d, a_segs = [0 \<mapsto> []], a_open = {0}\<rparr>"
proof -
  have "find (\<lambda>i. True) [0..<1000] = Some (0::nat)" by (rule find_first_upt) auto
  then show ?thesis by (simp add: a_begin_def)
qed

theorem journal_crash_consistent_witness:
  "\<exists>hs m' r m1 k m2 m3.
    jrnl_ops mock_disk witness_ops Map.empty witness_disk = Some (Ret hs, m') \<and>
    jrnl_op (crash_disk mock_disk) JBegin hs (m', 2) = Some (r, (m1, k)) \<and>
    start_ups [1] m1 = Some m2 \<and> InitSb mock_disk (leases_expired m2) = Some (Ret (), m3) \<and>
    mock_val m3 0 = ''x''"
proof -
  have idle: "jrnl_idle witness_disk"
    unfolding witness_disk_def by (rule witness_disk_idle)
  obtain hs m' where run: "jrnl_ops mock_disk witness_ops Map.empty witness_disk = Some (Ret hs, m')"
    using jrnl_ops_refines [OF jrnl_on_idle jrnl_free_idle, OF idle idle a_ops_example] by auto
  have "data_blk 0" by (simp add: data_blk_def)
  with run journal_crash_consistent [OF idle a_ops_example a_op_example run, of 2 "[1]"] show ?thesis
    by (fastforce simp: same_data_def)
qed

subsection \<open>Transactions without a write\<close>

text \<open>
  The end of a transaction that wrote nothing marks the first block of its segment, whatever an
  earlier transaction left there, as its log.
\<close>

lemma parseLb_mark_rec:
  "parseLb \<lparr>Nr = l, Data = mark_rec l d\<rparr> = (parseLb \<lparr>Nr = l, Data = d\<rparr>)\<lparr>last_flag := True\<rparr>"
proof -
  let ?lb = "(parseLb \<lparr>Nr = l, Data = d\<rparr>)\<lparr>last_flag := True\<rparr>"
  have "\<lparr>Nr = l, Data = mark_rec l d\<rparr> = flattenLb ?lb"
    by (simp add: mark_rec_def flattenLb_def Let_def)
  then show ?thesis by (simp add: rdata_parseLb_noslash)
qed

lemma seg_log_mark_rec:
  "seg_log (V(l := mark_rec l (V l))) (Suc k) l
     = Some [(rnr (parseLb \<lparr>Nr = l, Data = V l\<rparr>), rdata (parseLb \<lparr>Nr = l, Data = V l\<rparr>))]"
  by (simp add: parseLb_mark_rec)

text \<open>
  C31: a transaction with no write is not a no-operation: on an idle disk it performs again the
  first write of the transaction that used segment 0 before it (on a fresh disk, it empties
  block 0).
\<close>

theorem runTxn_empty_replays_stale:
  fixes m :: MockDisk
  defines "lb \<equiv> parseLb \<lparr>Nr = 3, Data = mock_val m 3\<rparr>"
  assumes "jrnl_idle m" and "data_blk (rnr lb)"
  shows "\<exists>m'. runTxn mock_disk [] m = Some (Ret (), m') \<and>
    same_data (mock_val m') ((mock_val m)(rnr lb := rdata lb))"
proof -
  let ?l = "seg_start 0"
  let ?Q = "\<lambda>(_ :: unit) m'. same_data (mock_val m') ((mock_val m)(rnr lb := rdata lb))"
  let ?sb = "\<lparr>bitmap = zero_bitmap[0 := CHR ''1''], cnt = 1, commit_flag = 0\<rparr>"
  have l: "?l = 3" "last_lbn (handle 0 []) = ?l" "log_blk ?l"
    using seg_lbn(2) [of 0 0]
    by (simp_all add: seg_start_def getLogSegmentStart_def jrnl_consts last_lbn_def handle_def)
  have fin: "wp (endRetry mock_disk) ?Q (\<lambda>_ _. False) s2"
    if s2: "mock_val s2 = (mock_val s1)(?l := mark_rec ?l (mock_val s1 ?l))" "jrnl_free (mock_held s2)"
      and s1: "mock_val s1 = set_sb ?sb (mock_val m)"
    for s1 s2
  proof -
    let ?V = "mock_val s2"
    have V1: "mock_val s1 ?l = mock_val m 3" using l(1,3) by (simp add: s1 sbNr_def)
    have "sb_on ?V = sb_on (mock_val s1)" using l(3) by (intro sb_on_cong) (auto simp: s2)
    then have sb: "sb_on ?V = ?sb" by (simp add: s1)
    have seg: "seg_log ?V 100 ?l = Some [(rnr lb, rdata lb)]"
      using seg_log_mark_rec [of "mock_val s1" ?l 99] V1 l(1) by (simp add: s2 lb_def)
    have "seg_ok ?V 0" "seg_of ?V 0 = [(rnr lb, rdata lb)]"
      using assms(3) seg by (simp_all add: seg_ok_def seg_of_def)
    moreover have "same_data (?V(rnr lb := rdata lb)) ((mock_val m)(rnr lb := rdata lb))"
      using data_not_log l(3) by (auto simp: same_data_def s2(1) s1 set_sb_def)
    ultimately show ?thesis
      using s2(2) jrnl_freeD(1) mock.jrnl_log_unlocked
      by (intro mock.wp_endRetry_commit) (simp_all add: sb used_segs_single crash_safe_def)
  qed
  have zero: "zero_bitmap ! 0 = CHR ''0''"
    by (simp add: zero_bitmap_def sysPerLog_def)
  have "wp (runTxn mock_disk []) ?Q (\<lambda>_ _. False) m"
    unfolding runTxn_def EndTransaction_def writeBlocks.simps io_bind_return
  proof (rule mock.wp_BeginTransaction [where i = 0 and sb' = ?sb], goal_cases)
    case (11 s1)
    show ?case
    proof (rule mock.wp_markLast, goal_cases)
      case (5 s2)
      then show ?case
        using 11 l(2) jrnl_free_idle [OF assms(2)] jrnl_idleD(1) [OF assms(2)]
        by (intro fin [of s2 s1]) (simp_all add: handle_def idle_sb_def)
    qed (use 11 l jrnl_idleD(3) [OF assms(2)] in \<open>simp_all add: handle_def crash_safe_def\<close>)
  qed (use jrnl_idleD(1,2) [OF assms(2)] zero in \<open>simp_all add: idle_sb_def crash_safe_def\<close>)
  then show ?thesis by (auto dest: wp_RetD)
qed

theorem runTxn_empty_replays_stale_witness:
  "\<exists>m'. runTxn mock_disk [] witness_disk = Some (Ret (), m') \<and> mock_val m' 0 = []"
proof -
  have idle: "jrnl_idle witness_disk"
    unfolding witness_disk_def by (rule witness_disk_idle)
  have v: "mock_val witness_disk 3 = []"
    by (auto simp: mock_val_def witness_disk_def sbNr_def)
  have "data_blk 0" by (simp add: data_blk_def)
  then show ?thesis
    using runTxn_empty_replays_stale [OF idle]
    by (auto simp: v parseLb_def go_simps same_data_def)
qed

end
