(* ===== verification/Clerk.thy ===== *)
theory Clerk
  imports KvServer Jrnl_Spec
begin

section \<open>The clerk: src/kvraft/client.go\<close>

text \<open>
  The clerk sends a request to one server after the other until one answers. The network, the
  random numbers and the clock are a record of functions over a state of any type. The clerk is a
  \<open>Disk\<close> of the block layer: \<open>clerk_disk\<close>.

  The second half puts a service behind it, made of the server's own functions: a leader that
  applies what reaches it and answers, over a network that loses requests and replies as a
  schedule says. Under the assumption that calls get through now and then, the clerk over that
  service satisfies the contract \<open>block_store\<close>, so that everything proved of the journal under
  the contract holds over the key-value service.
\<close>

subsection \<open>The clerk\<close>

datatype callres = CallOk RequestReply | CallErr | CallTimeout

record 's network =
  net_Call :: "nat \<Rightarrow> RequestArgs \<Rightarrow> 's \<Rightarrow> callres \<times> 's"
  net_Redial :: "nat \<Rightarrow> 's \<Rightarrow> 's"
  net_Uint64 :: "'s \<Rightarrow> uint \<times> 's"
  net_Unix :: "'s \<Rightarrow> int \<times> 's"

record Clerk =
  ck_id :: uint
  ck_servers :: nat
  lastLdr :: nat

definition mkSeq :: "'s network \<Rightarrow> 's \<Rightarrow> uint \<times> 's" where
  "mkSeq nw = net_Uint64 nw"

text \<open>\<open>n\<close> servers were dialled.\<close>

definition MakeClerk :: "'s network \<Rightarrow> nat \<Rightarrow> 's \<Rightarrow> Clerk \<times> 's" where
  "MakeClerk nw n s = (let (i, s1) = mkSeq nw s in (\<lparr>ck_id = i, ck_servers = n, lastLdr = 0\<rparr>, s1))"

text \<open>\<open>fmt.Sprintf("%d", t)\<close> of an \<open>int64\<close>.\<close>

definition fmt_int :: "int \<Rightarrow> string" where
  "fmt_int t = (if t < 0 then CHR ''-'' # dec (nat (- t)) else dec (nat t))"

definition next_server :: "Clerk \<Rightarrow> nat \<Rightarrow> nat" where
  "next_server ck l = (if ck_servers ck \<le> l + 1 then 0 else l + 1)"

text \<open>The loop of \<open>doRequest\<close>; the result is the value or the error.\<close>

partial_function (option) request_loop ::
  "'s network \<Rightarrow> RequestArgs \<Rightarrow> nat \<Rightarrow> Clerk \<times> 's \<Rightarrow> ((string + string) outcome \<times> Clerk \<times> 's) option"
where
  "request_loop nw a l p =
     (let ck = fst p in
      if ck_servers ck \<le> l then Some (Fatal ''index out of range'', p)
      else
        (case net_Call nw l a (snd p) of
           (CallTimeout, s1) \<Rightarrow> request_loop nw a (next_server ck l) (ck, s1)
         | (CallErr, s1) \<Rightarrow> request_loop nw a (next_server ck l) (ck, net_Redial nw l s1)
         | (CallOk r, s1) \<Rightarrow>
             if reply_E r = ErrWrongLeader \<or> reply_E r = ErrTimeout then
               request_loop nw a (next_server ck l) (ck, s1)
             else if reply_E r = ErrLockHeld then
               (case mkSeq nw s1 of (q, s2) \<Rightarrow>
                case net_Unix nw s2 of (t, s3) \<Rightarrow>
                  request_loop nw (a\<lparr>Seq := q, Value := fmt_int t\<rparr>) (next_server ck l) (ck, s3))
             else if reply_E r = ErrLockNotHeld then Some (Ret (Inl ''lock not held''), (ck, s1))
             else Some (Ret (Inr (reply_Value r)), (ck\<lparr>lastLdr := l\<rparr>, s1))))"

definition doRequest :: "'s network \<Rightarrow> OpCode \<Rightarrow> string \<Rightarrow> string \<Rightarrow> (Clerk \<times> 's, string + string) io" where
  "doRequest nw op key val p =
     (case mkSeq nw (snd p) of (q, s1) \<Rightarrow>
        request_loop nw \<lparr>ClientId = ck_id (fst p), Seq = q, Code = op, Key = key, Value = val\<rparr>
          (lastLdr (fst p)) (fst p, s1))"

definition only_error :: "string + string \<Rightarrow> goerr" where
  "only_error r = (case r of Inl e \<Rightarrow> Some e | Inr _ \<Rightarrow> None)"

definition Clerk_Get :: "'s network \<Rightarrow> string \<Rightarrow> (Clerk \<times> 's, string + string) io" where
  "Clerk_Get nw key = doRequest nw GetOp key []"

definition Clerk_Put :: "'s network \<Rightarrow> string \<Rightarrow> string \<Rightarrow> (Clerk \<times> 's, goerr) io" where
  "Clerk_Put nw key val = io_bind (doRequest nw PutOp key val) (\<lambda>r. io_return (only_error r))"

definition Clerk_Append :: "'s network \<Rightarrow> string \<Rightarrow> string \<Rightarrow> (Clerk \<times> 's, goerr) io" where
  "Clerk_Append nw key val = io_bind (doRequest nw AppendOp key val) (\<lambda>r. io_return (only_error r))"

definition Clerk_Acquire :: "'s network \<Rightarrow> string \<Rightarrow> (Clerk \<times> 's, unit) io" where
  "Clerk_Acquire nw lockk p =
     (case net_Unix nw (snd p) of (t, s1) \<Rightarrow>
        io_bind (doRequest nw AcquireOp lockk (fmt_int t)) (\<lambda>_. io_return ()) (fst p, s1))"

definition Clerk_Release :: "'s network \<Rightarrow> string \<Rightarrow> (Clerk \<times> 's, goerr) io" where
  "Clerk_Release nw lockk = io_bind (doRequest nw ReleaseOp lockk []) (\<lambda>r. io_return (only_error r))"

definition Clerk_Renew :: "'s network \<Rightarrow> string \<Rightarrow> (Clerk \<times> 's, goerr) io" where
  "Clerk_Renew nw lockk p =
     (case net_Unix nw (snd p) of (t, s1) \<Rightarrow>
        io_bind (doRequest nw RenewOp lockk (fmt_int t)) (\<lambda>r. io_return (only_error r)) (fst p, s1))"

definition clerk_disk :: "'s network \<Rightarrow> (Clerk \<times> 's) Disk" where
  "clerk_disk nw =
     \<lparr>Disk_Get = Clerk_Get nw, Disk_Put = Clerk_Put nw, Disk_Acquire = Clerk_Acquire nw,
      Disk_Release = Clerk_Release nw, Disk_Renew = Clerk_Renew nw\<rparr>"

subsection \<open>A service behind a lossy network\<close>

text \<open>
  What happens to a call: it is not answered (\<open>NoReply applied timeout\<close>, where the command may or
  may not have been applied, and the call fails or times out), it meets a server that is not the
  leader, or it is answered. The fate of the calls to come, the random numbers and the clock are
  streams, of which the state counts what has been used.
\<close>

datatype delivery = NoReply bool bool | NotLeader | Answered

record service =
  sv :: KVServer
  sched :: "nat \<Rightarrow> delivery"
  rnd :: "nat \<Rightarrow> uint"
  clock :: "nat \<Rightarrow> int"
  ncalls :: nat
  ndraws :: nat
  nticks :: nat

text \<open>The leader applies the command and the waiting handler answers.\<close>

definition serve :: "RequestArgs \<Rightarrow> KVServer \<Rightarrow> (RequestReply \<times> KVServer) option" where
  "serve a srv =
     (case applyCommand a srv of
        Fatal e \<Rightarrow> None
      | Ret (cmd, srv') \<Rightarrow>
          (case request_msg a 1 \<lparr>CommandValid = True, Command = Some cmd, CommandIndex = 1, SnapshotValid = False,
             Snapshot_data = [], SnapshotTerm = 0, SnapshotIndex = 0\<rparr> True srv' of
             Ret (Reply r) \<Rightarrow> Some (r, srv')
           | _ \<Rightarrow> None))"

definition service_call :: "RequestArgs \<Rightarrow> service \<Rightarrow> callres \<times> service" where
  "service_call a s =
     (let s1 = s\<lparr>ncalls := Suc (ncalls s)\<rparr> in
      case sched s (ncalls s) of
        NotLeader \<Rightarrow> (CallOk \<lparr>reply_Seq = Seq a, reply_E = ErrWrongLeader, reply_Value = []\<rparr>, s1)
      | NoReply applied late \<Rightarrow>
          (if late then CallTimeout else CallErr,
           case serve a (sv s) of Some (r, srv') \<Rightarrow> if applied then s1\<lparr>sv := srv'\<rparr> else s1 | None \<Rightarrow> s1)
      | Answered \<Rightarrow>
          (case serve a (sv s) of Some (r, srv') \<Rightarrow> (CallOk r, s1\<lparr>sv := srv'\<rparr>) | None \<Rightarrow> (CallErr, s1)))"

definition lossy :: "service network" where
  "lossy =
     \<lparr>net_Call = (\<lambda>_. service_call), net_Redial = (\<lambda>_ s. s),
      net_Uint64 = (\<lambda>s. (rnd s (ndraws s), s\<lparr>ndraws := Suc (ndraws s)\<rparr>)),
      net_Unix = (\<lambda>s. (clock s (nticks s), s\<lparr>nticks := Suc (nticks s)\<rparr>))\<rparr>"

subsection \<open>What a served command does\<close>

text \<open>The books of a server that has one client, \<open>c\<close>, whose last command was \<open>q\<close>.\<close>

definition served :: "uint \<Rightarrow> uint option \<Rightarrow> KVServer \<Rightarrow> bool" where
  "served c q srv \<longleftrightarrow> unwritten srv = Map.empty \<and>
     (case q of None \<Rightarrow> lastSeq srv = Map.empty \<and> unseen srv = Map.empty
              | Some v \<Rightarrow> lastSeq srv = [c \<mapsto> v] \<and> unseen srv = [v \<mapsto> True])"

text \<open>The answer of the handler to a published command.\<close>

lemma request_msg_answer:
  assumes "data_key (Key a)" "Code a \<notin> {FailingAcquireOp, FailingLockedOp}" "Command v = Some (if acc then a else failing a)"
    "CommandIndex v = i"
  shows "request_msg a i v True srv = Ret (Reply \<lparr>reply_Seq = Seq a,
    reply_E = fst (answer acc (kv_abs (kvm srv)) a), reply_Value = snd (answer acc (kv_abs (kvm srv)) a)\<rparr>)"
proof -
  have "akv_data (kv_abs (kvm srv)) (Key a) = kvm srv (Key a)" using assms(1) by (simp add: kv_abs_def)
  with assms(2-4) show ?thesis
    by (auto simp: request_msg_def answer_def failing_def Let_def split: option.splits)
qed

definition reply_of :: "bool \<Rightarrow> KVServer \<Rightarrow> RequestArgs \<Rightarrow> RequestReply" where
  "reply_of acc srv a = \<lparr>reply_Seq = Seq a, reply_E = fst (answer acc (kv_abs (kvm srv)) a),
     reply_Value = snd (answer acc (kv_abs (kvm srv)) a)\<rparr>"

lemma serve_fresh:
  assumes "served (ClientId a) q srv" "q \<noteq> Some (Seq a)" "lock_wf (kvm srv)" "data_key (Key a)"
    "Code a \<notin> {FailingAcquireOp, FailingLockedOp}" "akv_op (kv_abs (kvm srv)) a = (acc, A')"
  shows "\<exists>srv'. serve a srv = Some (reply_of acc srv' a, srv') \<and> served (ClientId a) (Some (Seq a)) srv' \<and>
    lock_wf (kvm srv') \<and> kv_abs (kvm srv') = A'"
proof -
  obtain err kvm' where op: "commitOp (kvm srv) a = Ret (err, kvm')" "lock_wf kvm'" "acc = (err = None)" "kv_abs kvm' = A'"
    using commitOp_step [OF assms(3,4)] assms(6) by auto
  have un: "unwritten srv = Map.empty" "unseen srv (Seq a) = None"
    using assms(1,2) by (auto simp: served_def split: option.splits)
  let ?srv = "(note_seq a (note_client a srv))\<lparr>kvm := kvm', unwritten := Map.empty\<rparr>"
  have "applyCommand a srv = Ret (if acc then a else failing a, ?srv)"
    using applyCommand_fresh(1) [OF un] op by simp
  moreover have "served (ClientId a) (Some (Seq a)) ?srv"
    using assms(1,2) by (auto simp: served_def note_seq_def note_client_def split: option.splits)
  moreover have "kvm ?srv = kvm'" by simp
  ultimately show ?thesis
    using op request_msg_answer [OF assms(4,5), of _ "acc" 1 ?srv]
    by (intro exI [of _ ?srv]) (simp add: serve_def reply_of_def)
qed

lemma serve_copy:
  assumes "served (ClientId a) (Some (Seq a)) srv" "data_key (Key a)" "Code a \<notin> {FailingAcquireOp, FailingLockedOp}"
  shows "serve a srv = Some (reply_of (a_holds (kv_abs (kvm srv)) (ClientId a) (Key a)) srv a, srv)"
proof -
  have "applyCommand a srv = Ret (if a_holds (kv_abs (kvm srv)) (ClientId a) (Key a) then a else failing a, srv)"
    using assms(1) by (auto simp: served_def applyCommand_def note_seq_def note_client_def Let_def checkHoldLock_abs)
  then show ?thesis
    using request_msg_answer [OF assms(2,3), of _ _ 1 srv] by (simp add: serve_def reply_of_def)
qed

subsection \<open>A request returns, and its effect is that of one command\<close>

text \<open>What the clerk returns for a command that was accepted or not.\<close>

definition clerk_result :: "bool \<Rightarrow> akv \<Rightarrow> RequestArgs \<Rightarrow> string + string \<Rightarrow> bool" where
  "clerk_result acc A a r \<longleftrightarrow>
     (\<not> acc \<longrightarrow> r = Inl ''lock not held'') \<and>
     (acc \<and> Code a \<noteq> ReleaseOp \<longrightarrow> r = Inr (if Code a = GetOp then mget (akv_data A) (Key a) else []))"

text \<open>
  While the loop runs, the command has not been applied (\<open>A0\<close>) or has been (\<open>A1\<close>).
\<close>

definition pending :: "RequestArgs \<Rightarrow> akv \<Rightarrow> akv \<Rightarrow> KVServer \<Rightarrow> bool" where
  "pending a A0 A1 srv \<longleftrightarrow> lock_wf (kvm srv) \<and>
     ((\<exists>q. served (ClientId a) q srv \<and> q \<noteq> Some (Seq a) \<and> kv_abs (kvm srv) = A0) \<or>
      served (ClientId a) (Some (Seq a)) srv \<and> kv_abs (kvm srv) = A1)"

lemma akv_op_holds:
  assumes "akv_op A a = (acc, A')" "Code a \<notin> {FailingAcquireOp, FailingLockedOp}"
  shows "acc \<Longrightarrow> Code a \<noteq> ReleaseOp \<Longrightarrow> a_holds A' (ClientId a) (Key a)"
    and "\<not> acc \<Longrightarrow> Code a \<noteq> AcquireOp \<Longrightarrow> \<not> a_holds A' (ClientId a) (Key a)"
  using assms by (cases "Code a"; auto simp: akv_op_def a_holds_def Let_def split: if_splits)+

lemma serve_pending:
  assumes "pending a A0 A1 srv" "akv_op A0 a = (acc, A1)" "data_key (Key a)"
    "Code a \<notin> {FailingAcquireOp, FailingLockedOp}" "Code a = AcquireOp \<longrightarrow> acc"
  shows "\<exists>r srv'. serve a srv = Some (r, srv') \<and> served (ClientId a) (Some (Seq a)) srv' \<and> lock_wf (kvm srv') \<and>
    kv_abs (kvm srv') = A1 \<and> reply_E r \<notin> {ErrWrongLeader, ErrTimeout, ErrLockHeld} \<and>
    clerk_result acc A1 a (if reply_E r = ErrLockNotHeld then Inl ''lock not held'' else Inr (reply_Value r))"
proof -
  have ans: "fst (answer d A a) \<notin> {ErrWrongLeader, ErrTimeout, ErrLockHeld}"
    "clerk_result acc A1 a (if fst (answer d A1 a) = ErrLockNotHeld then Inl ''lock not held'' else Inr (snd (answer d A1 a)))"
    if "Code a = AcquireOp \<longrightarrow> d" "Code a \<noteq> ReleaseOp \<longrightarrow> d = acc" "\<not> acc \<longrightarrow> \<not> d" for d A
    using that by (auto simp: answer_def clerk_result_def mget_def split: option.splits)
  from assms(1) consider (fresh) q where "served (ClientId a) q srv" "q \<noteq> Some (Seq a)" "kv_abs (kvm srv) = A0"
    | (copy) "served (ClientId a) (Some (Seq a)) srv" "kv_abs (kvm srv) = A1"
    by (auto simp: pending_def)
  then show ?thesis
  proof cases
    case fresh
    have "lock_wf (kvm srv)" using assms(1) by (simp add: pending_def)
    with serve_fresh [OF fresh(1,2) _ assms(3,4), of "acc" A1] fresh(3) assms(2) obtain srv' where
      "serve a srv = Some (reply_of acc srv' a, srv')" "served (ClientId a) (Some (Seq a)) srv'" "lock_wf (kvm srv')"
      "kv_abs (kvm srv') = A1" by auto
    with ans [of "acc"] assms(5) show ?thesis by (auto simp: reply_of_def)
  next
    case copy
    let ?d = "a_holds A1 (ClientId a) (Key a)"
    have "Code a = AcquireOp \<longrightarrow> ?d" "Code a \<noteq> ReleaseOp \<longrightarrow> ?d = acc" "\<not> acc \<longrightarrow> \<not> ?d"
      using akv_op_holds [OF assms(2,4)] assms(5) by auto
    from ans [OF this] serve_copy [OF copy(1) assms(3,4)] copy assms(1) show ?thesis
      by (auto simp: reply_of_def pending_def)
  qed
qed

text \<open>Calls are answered now and then, and two consecutive random numbers differ.\<close>

definition gets_through :: "(nat \<Rightarrow> delivery) \<Rightarrow> bool" where
  "gets_through mode \<longleftrightarrow> (\<forall>n. \<exists>k \<ge> n. mode k = Answered)"

definition fresh_numbers :: "(nat \<Rightarrow> uint) \<Rightarrow> bool" where
  "fresh_numbers r \<longleftrightarrow> (\<forall>n. r (Suc n) \<noteq> r n)"

lemma next_server_less: "l < ck_servers ck \<Longrightarrow> next_server ck l < ck_servers ck"
  by (simp add: next_server_def)

lemma lossy_simps [simp]:
  "net_Call lossy = (\<lambda>_. service_call)" "net_Redial lossy = (\<lambda>_ s. s)"
  "mkSeq lossy s = (rnd s (ndraws s), s\<lparr>ndraws := Suc (ndraws s)\<rparr>)"
  "net_Unix lossy s = (clock s (nticks s), s\<lparr>nticks := Suc (nticks s)\<rparr>)"
  by (simp_all add: lossy_def mkSeq_def)

text \<open>What a request leaves alone.\<close>

definition kept :: "Clerk \<times> service \<Rightarrow> Clerk \<times> service \<Rightarrow> bool" where
  "kept p p' \<longleftrightarrow> ck_id (fst p') = ck_id (fst p) \<and> ck_servers (fst p') = ck_servers (fst p) \<and>
     (lastLdr (fst p) < ck_servers (fst p) \<longrightarrow> lastLdr (fst p') < ck_servers (fst p')) \<and>
     sched (snd p') = sched (snd p) \<and> rnd (snd p') = rnd (snd p) \<and> clock (snd p') = clock (snd p) \<and>
     ndraws (snd p') = ndraws (snd p)"

lemma request_loop_returns:
  assumes op: "akv_op A0 a = (acc, A1)" "data_key (Key a)" "Code a \<notin> {FailingAcquireOp, FailingLockedOp}"
      "Code a = AcquireOp \<longrightarrow> acc"
    and start: "sched s k = Answered" "ncalls s \<le> k" "l < ck_servers ck" "pending a A0 A1 (sv s)"
  shows "wp (request_loop lossy a l) (\<lambda>r p'. clerk_result acc A1 a r \<and>
      served (ClientId a) (Some (Seq a)) (sv (snd p')) \<and> lock_wf (kvm (sv (snd p'))) \<and>
      kv_abs (kvm (sv (snd p'))) = A1 \<and> kept (ck, s) p') C (ck, s)"
  using start
proof (induction "k - ncalls s" arbitrary: s l rule: less_induct)
  case less
  let ?s1 = "s\<lparr>ncalls := Suc (ncalls s)\<rparr>"
  obtain r srv' where srv': "serve a (sv s) = Some (r, srv')" "served (ClientId a) (Some (Seq a)) srv'"
    "lock_wf (kvm srv')" "kv_abs (kvm srv') = A1" "reply_E r \<notin> {ErrWrongLeader, ErrTimeout, ErrLockHeld}"
    "clerk_result acc A1 a (if reply_E r = ErrLockNotHeld then Inl ''lock not held'' else Inr (reply_Value r))"
    using serve_pending [OF less.prems(4) op] by blast
  then have pend: "pending a A0 A1 srv'" by (simp add: pending_def)
  note calls = service_call_def Let_def srv'(1)
  show ?case
  proof (cases "sched s (ncalls s) = Answered")
    case True
    with srv' less.prems(3) show ?thesis
      by (auto simp: wp_def request_loop.simps [of lossy a l "(ck, s)"] calls kept_def split: if_splits)
  next
    case False
    then have lt: "ncalls s < k" using less.prems(1,2) by (metis le_neq_implies_less)
    have IH: "wp (request_loop lossy a (next_server ck l)) (\<lambda>r p'. clerk_result acc A1 a r \<and>
        served (ClientId a) (Some (Seq a)) (sv (snd p')) \<and> lock_wf (kvm (sv (snd p'))) \<and>
        kv_abs (kvm (sv (snd p'))) = A1 \<and> kept (ck, s) p') C (ck, s2)"
      if "s2 = ?s1 \<or> s2 = ?s1\<lparr>sv := srv'\<rparr>" for s2
    proof (rule wp_mono [OF less.hyps])
      show "k - ncalls s2 < k - ncalls s" using that lt by auto
      show "sched s2 k = Answered" "ncalls s2 \<le> k" "pending a A0 A1 (sv s2)" "next_server ck l < ck_servers ck"
        using that less.prems lt pend next_server_less by auto
    qed (use that in \<open>auto simp: kept_def\<close>)
    from False less.prems(3) IH show ?thesis
      unfolding wp_def request_loop.simps [of lossy a l "(ck, s)"]
      by (cases "sched s (ncalls s)") (auto simp: calls)
  qed
qed

text \<open>The states between two requests.\<close>

definition svc_ok :: "Clerk \<times> service \<Rightarrow> bool" where
  "svc_ok p \<longleftrightarrow> lastLdr (fst p) < ck_servers (fst p) \<and> gets_through (sched (snd p)) \<and> fresh_numbers (rnd (snd p)) \<and>
     lock_wf (kvm (sv (snd p))) \<and>
     (\<forall>k. akv_lock (kv_abs (kvm (sv (snd p)))) k = None \<or> a_holds (kv_abs (kvm (sv (snd p)))) (ck_id (fst p)) k) \<and>
     (served (ck_id (fst p)) None (sv (snd p)) \<or>
      0 < ndraws (snd p) \<and> served (ck_id (fst p)) (Some (rnd (snd p) (ndraws (snd p) - 1))) (sv (snd p)))"

definition store :: "Clerk \<times> service \<Rightarrow> akv" where
  "store p = kv_abs (kvm (sv (snd p)))"

lemma akv_op_locks:
  assumes "akv_op A a = (acc, A')" "\<forall>k. akv_lock A k = None \<or> a_holds A (ClientId a) k"
  shows "\<forall>k. akv_lock A' k = None \<or> a_holds A' (ClientId a) k"
  using assms by (cases "Code a") (auto simp: akv_op_def a_holds_def Let_def split: if_splits)

lemma doRequest_returns:
  assumes ok: "svc_ok p" and op: "data_key key" "code \<notin> {FailingAcquireOp, FailingLockedOp}"
    and step: "\<And>q. akv_op (store p) \<lparr>ClientId = ck_id (fst p), Seq = q, Code = code, Key = key, Value = v\<rparr> = (acc, A')"
    and acq: "code = AcquireOp \<longrightarrow> acc"
  shows "wp (doRequest lossy code key v) (\<lambda>r p'. svc_ok p' \<and> store p' = A' \<and> ck_id (fst p') = ck_id (fst p) \<and>
     clerk_result acc A' \<lparr>ClientId = ck_id (fst p), Seq = 0, Code = code, Key = key, Value = v\<rparr> r) C p"
proof -
  obtain ck s where p: "p = (ck, s)" by (cases p)
  let ?q = "rnd s (ndraws s)"
  let ?a = "\<lparr>ClientId = ck_id ck, Seq = ?q, Code = code, Key = key, Value = v\<rparr>"
  let ?s = "s\<lparr>ndraws := Suc (ndraws s)\<rparr>"
  note D = ok [unfolded svc_ok_def p, simplified]
  obtain k where k: "sched ?s k = Answered" "ncalls ?s \<le> k" using D by (auto simp: gets_through_def)
  have "ndraws s = Suc (ndraws s - 1)" if "0 < ndraws s" using that by simp
  then have "rnd s (ndraws s - 1) \<noteq> ?q" if "0 < ndraws s"
    using D that unfolding fresh_numbers_def by metis
  then have pend: "pending ?a (store p) A' (sv ?s)"
    using D by (auto simp: pending_def store_def p)
  have "wp (request_loop lossy ?a (lastLdr ck)) (\<lambda>r p'. clerk_result acc A' ?a r \<and>
      served (ck_id ck) (Some ?q) (sv (snd p')) \<and> lock_wf (kvm (sv (snd p'))) \<and>
      kv_abs (kvm (sv (snd p'))) = A' \<and> kept (ck, ?s) p') C (ck, ?s)"
    using request_loop_returns [OF _ _ _ _ k _ pend, of "acc" "lastLdr ck" ck] step [of ?q] op acq D by (simp add: p)
  moreover have "\<forall>k. akv_lock A' k = None \<or> a_holds A' (ck_id ck) k"
    using akv_op_locks [of "store p" ?a "acc" A'] step [of ?q] D by (simp add: p store_def)
  ultimately show ?thesis
    using D unfolding doRequest_def [abs_def] p wp_def
    by (auto simp: kept_def svc_ok_def store_def clerk_result_def split: option.splits outcome.splits)
qed

subsection \<open>The clerk is a disk\<close>

definition clerk_val :: "Clerk \<times> service \<Rightarrow> uint \<Rightarrow> string" where
  "clerk_val p n = mget (akv_data (store p)) (fmt_d n)"

definition clerk_held :: "Clerk \<times> service \<Rightarrow> uint \<Rightarrow> bool" where
  "clerk_held p n \<longleftrightarrow> a_holds (store p) (ck_id (fst p)) (fmt_d n)"

lemma data_key_fmt_d [simp]: "data_key (fmt_d (n :: uint))"
proof -
  have "CHR ''l'' \<notin> set (fmt_d n)"
    unfolding fmt_d_def by (rule dec_not_in) simp
  moreover have "CHR ''l'' \<in> set (fmt_d n)" if "take 5 (fmt_d n) = ''lock_''"
    using that in_set_takeD [of "CHR ''l''" 5 "fmt_d n"] by simp
  ultimately show ?thesis by (auto simp: data_key_def)
qed

lemma svc_ok_tick [simp]:
  "svc_ok (ck, s\<lparr>nticks := t\<rparr>) = svc_ok (ck, s)" "store (ck, s\<lparr>nticks := t\<rparr>) = store (ck, s)"
  by (simp_all add: svc_ok_def store_def)

lemma wp_bind_only_error:
  "wp (io_bind m (\<lambda>r. io_return (g r))) Q C p \<longleftrightarrow> wp m (\<lambda>r. Q (g r)) C p"
  by (simp add: wp_bind wp_return_eta)

text \<open>The effect of the five operations on a key that is locked or free.\<close>

lemma clerk_ops:
  assumes "svc_ok p"
  shows "clerk_held p n \<Longrightarrow> wp (Clerk_Get lossy (fmt_d n)) (\<lambda>r p'. svc_ok p' \<and> store p' = store p \<and>
      ck_id (fst p') = ck_id (fst p) \<and> r = Inr (clerk_val p n)) C p"
    and "clerk_held p n \<Longrightarrow> wp (Clerk_Put lossy (fmt_d n) v) (\<lambda>r p'. svc_ok p' \<and>
      store p' = (store p)\<lparr>akv_data := (akv_data (store p))(fmt_d n \<mapsto> v)\<rparr> \<and> ck_id (fst p') = ck_id (fst p) \<and> r = None) C p"
    and "\<not> clerk_held p n \<Longrightarrow> wp (Clerk_Put lossy (fmt_d n) v) (\<lambda>r p'. svc_ok p' \<and>
      store p' = store p \<and> ck_id (fst p') = ck_id (fst p) \<and> r \<noteq> None) C p"
    and "\<not> clerk_held p n \<Longrightarrow> wp (Clerk_Acquire lossy (fmt_d n)) (\<lambda>r p'. svc_ok p' \<and>
      (\<exists>t. store p' = (store p)\<lparr>akv_lock := (akv_lock (store p))(fmt_d n \<mapsto> (ck_id (fst p), t))\<rparr>) \<and>
      ck_id (fst p') = ck_id (fst p)) C p"
    and "wp (Clerk_Release lossy (fmt_d n)) (\<lambda>r p'. svc_ok p' \<and>
      store p' = (if clerk_held p n then (store p)\<lparr>akv_lock := (akv_lock (store p))(fmt_d n := None)\<rparr> else store p) \<and>
      ck_id (fst p') = ck_id (fst p)) C p"
    and "clerk_held p n \<Longrightarrow> wp (Clerk_Renew lossy (fmt_d n)) (\<lambda>r p'. svc_ok p' \<and>
      (\<exists>t. store p' = (store p)\<lparr>akv_lock := (akv_lock (store p))(fmt_d n \<mapsto> (ck_id (fst p), t))\<rparr>) \<and>
      ck_id (fst p') = ck_id (fst p) \<and> r = None) C p"
proof (goal_cases)
  case 1
  show ?case unfolding Clerk_Get_def
    by (rule wp_mono [OF doRequest_returns [OF assms, where acc = True and A' = "store p"]])
      (use 1 in \<open>auto simp: akv_op_def clerk_held_def clerk_result_def clerk_val_def\<close>)
next
  case 2
  show ?case unfolding Clerk_Put_def wp_bind_only_error
    by (rule wp_mono [OF doRequest_returns [OF assms, where acc = True
          and A' = "(store p)\<lparr>akv_data := (akv_data (store p))(fmt_d n \<mapsto> v)\<rparr>"]])
      (use 2 in \<open>auto simp: akv_op_def clerk_held_def clerk_result_def only_error_def\<close>)
next
  case 3
  show ?case unfolding Clerk_Put_def wp_bind_only_error
    by (rule wp_mono [OF doRequest_returns [OF assms, where acc = False and A' = "store p"]])
      (use 3 in \<open>auto simp: akv_op_def clerk_held_def clerk_result_def only_error_def\<close>)
next
  case 4
  obtain ck s where p: "p = (ck, s)" by (cases p)
  have free: "akv_lock (store p) (fmt_d n) = None"
    using assms 4 by (auto simp: svc_ok_def clerk_held_def store_def)
  let ?v = "fmt_int (clock s (nticks s))"
  have "wp (io_bind (doRequest lossy AcquireOp (fmt_d n) ?v) (\<lambda>_. io_return ())) (\<lambda>r p'. svc_ok p' \<and>
      (\<exists>t. store p' = (store p)\<lparr>akv_lock := (akv_lock (store p))(fmt_d n \<mapsto> (ck_id (fst p), t))\<rparr>) \<and>
      ck_id (fst p') = ck_id (fst p)) C (ck, s\<lparr>nticks := Suc (nticks s)\<rparr>)"
    unfolding wp_bind_only_error
    by (rule wp_mono [OF doRequest_returns [where acc = True
          and A' = "(store p)\<lparr>akv_lock := (akv_lock (store p))(fmt_d n \<mapsto> (ck_id ck, timestamp ?v))\<rparr>"]])
      (use assms free in \<open>auto simp: p akv_op_def a_expired_def\<close>)
  then show ?case by (simp add: Clerk_Acquire_def [abs_def] wp_def p)
next
  case 5
  show ?case unfolding Clerk_Release_def wp_bind_only_error
    by (rule wp_mono [OF doRequest_returns [OF assms, where acc = "clerk_held p n"
          and A' = "if clerk_held p n then (store p)\<lparr>akv_lock := (akv_lock (store p))(fmt_d n := None)\<rparr> else store p"]])
      (auto simp: akv_op_def clerk_held_def)
next
  case 6
  obtain ck s where p: "p = (ck, s)" by (cases p)
  let ?v = "fmt_int (clock s (nticks s))"
  have "wp (io_bind (doRequest lossy RenewOp (fmt_d n) ?v) (\<lambda>r. io_return (only_error r))) (\<lambda>r p'. svc_ok p' \<and>
      (\<exists>t. store p' = (store p)\<lparr>akv_lock := (akv_lock (store p))(fmt_d n \<mapsto> (ck_id (fst p), t))\<rparr>) \<and>
      ck_id (fst p') = ck_id (fst p) \<and> r = None) C (ck, s\<lparr>nticks := Suc (nticks s)\<rparr>)"
    unfolding wp_bind_only_error
    by (rule wp_mono [OF doRequest_returns [where acc = True
          and A' = "(store p)\<lparr>akv_lock := (akv_lock (store p))(fmt_d n \<mapsto> (ck_id ck, timestamp ?v))\<rparr>"]])
      (use assms 6 in \<open>auto simp: p akv_op_def clerk_held_def clerk_result_def only_error_def\<close>)
  then show ?case by (simp add: Clerk_Renew_def [abs_def] wp_def p)
qed

lemmas clerk_views = clerk_val_def clerk_held_def clerk_disk_def a_holds_def fun_eq_iff

interpretation clerk: block_store "clerk_disk lossy" clerk_val clerk_held svc_ok False
proof (unfold_locales, goal_cases)
  case (1 p n)
  then show ?case
    by (simp add: clerk_disk_def) (rule wp_mono [OF clerk_ops(1)], auto simp: clerk_views)
next
  case (2 p n v)
  then show ?case
    by (simp add: clerk_disk_def) (rule wp_mono [OF clerk_ops(2)], auto simp: clerk_views)
next
  case (3 p n v)
  then show ?case
    by (simp add: clerk_disk_def) (rule wp_mono [OF clerk_ops(3)], auto simp: clerk_views)
next
  case (4 p n)
  then show ?case
    by (simp add: clerk_disk_def) (rule wp_mono [OF clerk_ops(4)], auto simp: clerk_views)
next
  case (5 p n)
  then show ?case
    by (simp add: clerk_disk_def) (rule wp_mono [OF clerk_ops(5)], auto simp: clerk_views split: if_splits)
next
  case (6 p n)
  then show ?case
    by (simp add: clerk_disk_def) (rule wp_mono [OF clerk_ops(6)], auto simp: clerk_views split: if_splits)
qed

subsection \<open>Properties\<close>


text \<open>A service that loses every second reply after having applied the command.\<close>

definition witness_service :: "Clerk \<times> service" where
  "witness_service = (\<lparr>ck_id = 7, ck_servers = 3, lastLdr = 0\<rparr>,
     \<lparr>sv = new_server, sched = (\<lambda>n. if even n then NoReply True False else Answered), rnd = (\<lambda>n. if even n then 1 else 2),
      clock = (\<lambda>n. 100 + int n), ncalls = 0, ndraws = 0, nticks = 0\<rparr>)"

lemma witness_service_ok: "svc_ok witness_service"
proof -
  have "\<exists>k \<ge> n. odd k" for n :: nat by (rule exI [of _ "2 * n + 1"]) simp
  then have "gets_through (\<lambda>n. if even n then NoReply True False else Answered)"
    by (fastforce simp: gets_through_def)
  then show ?thesis
    by (simp add: svc_ok_def witness_service_def fresh_numbers_def served_def new_server_def kv_abs_def mget_def)
qed


end
