(* ===== verification/KvJrnl.thy ===== *)
theory KvJrnl
  imports Clerk
begin

section \<open>The journal over the key-value service\<close>

text \<open>
  The block layer of a client machine in production is the clerk: \<open>Binit\<close> with \<open>test\<close> false. The
  clerk over a service behind a lossy network satisfies the contract of a disk (interpretation
  \<open>clerk\<close> of theory \<open>Clerk\<close>), so the rules for the journal hold of it: here they are put to use.
\<close>

text \<open>The clerk of a machine that starts against a service that has not been used.\<close>

definition fresh_service :: "service \<Rightarrow> bool" where
  "fresh_service s \<longleftrightarrow> sv s = new_server \<and> gets_through (sched s) \<and> fresh_numbers (rnd s)"

lemma MakeClerk_ok:
  assumes "fresh_service s" "0 < n"
  shows "svc_ok (MakeClerk lossy n s)" "clerk_val (MakeClerk lossy n s) = (\<lambda>_. [])" "\<not> clerk_held (MakeClerk lossy n s) b"
  using assms
  by (simp_all add: MakeClerk_def fresh_service_def svc_ok_def new_server_def served_def kv_abs_def mget_def
      clerk_val_def [abs_def] clerk_held_def store_def a_holds_def)

lemma sb_on_empty: "commit_flag (sb_on (\<lambda>_. [])) = 0"
  by (simp add: sb_on_def parseSb_def)



end
