(* ===== verification/Netdrv.thy ===== *)
theory Netdrv
  imports GoStd "HOL-Library.Sublist"
begin

section \<open>Who is in the cluster: src/netdrv\<close>

text \<open>
  The name server (\<open>ppns.go\<close>) hands out the numbers 0, 1, 2, ... to addresses; every machine
  registers, asks for the addresses behind the first three numbers (\<open>nc.go\<close>) and looks for itself
  among them (\<open>staticaddr.go\<close>). Calls over the network, the address of the machine and dialling are
  operations of a record over a state of any type. The order in which Go visits a map is not
  specified: it is an argument, a list of the keys.
\<close>

type_synonym goint = "64 word"

subsection \<open>ppns.go: the server\<close>

record NameServer =
  ns_names :: "goint \<rightharpoonup> string"
  ns_maxName :: goint

record NsRqArgs =
  rq_Register :: bool
  rq_Name :: goint
  rq_Address :: string

record NsRpArgs =
  rp_OK :: bool
  rp_Name :: goint
  rp_Address :: string

definition nsPort :: uint where
  "nsPort = 1233"

definition mkName :: "NameServer \<Rightarrow> goint \<times> NameServer" where
  "mkName n = (let n' = n\<lparr>ns_maxName := ns_maxName n + 1\<rparr> in (ns_maxName n' - 1, n'))"

definition NameServer_Request :: "goint list \<Rightarrow> NsRqArgs \<Rightarrow> NsRpArgs \<Rightarrow> NameServer \<Rightarrow> NsRpArgs \<times> NameServer" where
  "NameServer_Request keys args reply n =
     (if rq_Register args then
        (case find (\<lambda>k. ns_names n k = Some (rq_Address args)) keys of
           Some k \<Rightarrow> (reply\<lparr>rp_OK := True, rp_Name := k\<rparr>, n)
         | None \<Rightarrow>
             (let (nn, n1) = mkName n in
              (reply\<lparr>rp_OK := True, rp_Name := nn\<rparr>, n1\<lparr>ns_names := (ns_names n1)(nn \<mapsto> rq_Address args)\<rparr>)))
      else
        (case ns_names n (rq_Name args) of
           Some a \<Rightarrow> (reply\<lparr>rp_Address := a, rp_OK := True\<rparr>, n)
         | None \<Rightarrow> (reply\<lparr>rp_OK := False\<rparr>, n)))"

definition new_nameserver :: NameServer where
  "new_nameserver = \<lparr>ns_names = Map.empty, ns_maxName = 0\<rparr>"

subsection \<open>ppns.go: the clients\<close>

record 's netops =
  dial_ns :: "string \<Rightarrow> ('s, bool) io"
  call_ns :: "NsRqArgs \<Rightarrow> ('s, NsRpArgs option) io"
  getMyIp :: "('s, string) io"
  dial :: "string \<Rightarrow> ('s, bool) io"

definition connect_ns :: "'s netops \<Rightarrow> string \<Rightarrow> ('s, unit) io" where
  "connect_ns nw nsAddr =
     io_bind (dial_ns nw (nsAddr @ '':'' @ fmt_d nsPort)) (\<lambda>ok.
       if \<not> ok then io_fatal ''couldn't dial nameserver:'' else io_return ())"

text \<open>The label \<open>retry\<close> is the recursive call.\<close>

partial_function (option) get_retry :: "'s netops \<Rightarrow> goint \<Rightarrow> 's \<Rightarrow> (string outcome \<times> 's) option" where
  "get_retry nw which s =
     io_bind (call_ns nw \<lparr>rq_Register = False, rq_Name = which, rq_Address = []\<rparr>) (\<lambda>r.
       case r of
         None \<Rightarrow> io_fatal ''couldn't get name:''
       | Some reply \<Rightarrow>
           if \<not> rp_OK reply then get_retry nw which else io_return (rp_Address reply)) s"

definition getName :: "'s netops \<Rightarrow> string \<Rightarrow> goint \<Rightarrow> ('s, string) io" where
  "getName nw nsAddr which = io_bind (connect_ns nw nsAddr) (\<lambda>_. get_retry nw which)"

definition registerName :: "'s netops \<Rightarrow> string \<Rightarrow> ('s, goint) io" where
  "registerName nw nsAddr =
     io_bind (connect_ns nw nsAddr) (\<lambda>_.
     io_bind (getMyIp nw) (\<lambda>ip.
     io_bind (call_ns nw \<lparr>rq_Register = True, rq_Name = 0, rq_Address = ip\<rparr>) (\<lambda>r.
       case r of
         None \<Rightarrow> io_fatal ''couldn't get name:''
       | Some reply \<Rightarrow> io_return (rp_Name reply))))"

subsection \<open>nc.go\<close>

record NetConfig =
  IsRaft :: bool
  Servers :: "string list"
  KVPort :: uint16
  RaftPort :: uint16

definition defaultKVPort :: uint16 where
  "defaultKVPort = 1235"

definition defaultRFPort :: uint16 where
  "defaultRFPort = 1234"

definition nServers :: nat where
  "nServers = 3"

text \<open>\<open>DialAll\<close> tries every server until it answers; the connection is the address here.\<close>

partial_function (option) dial_retry :: "'s netops \<Rightarrow> string \<Rightarrow> 's \<Rightarrow> (string outcome \<times> 's) option" where
  "dial_retry nw addr s =
     io_bind (dial nw addr) (\<lambda>ok. if \<not> ok then dial_retry nw addr else io_return addr) s"

fun DialAll :: "'s netops \<Rightarrow> string list \<Rightarrow> ('s, string list) io" where
  "DialAll nw [] = io_return []"
| "DialAll nw (addr # addrs) =
     io_bind (dial_retry nw addr) (\<lambda>c. io_bind (DialAll nw addrs) (\<lambda>l. io_return (c # l)))"

fun collect_servers :: "'s netops \<Rightarrow> bool \<Rightarrow> string \<Rightarrow> goint \<Rightarrow> nat list \<Rightarrow> ('s, string list) io" where
  "collect_servers nw register nsAddr me [] = io_return []"
| "collect_servers nw register nsAddr me (i # is) =
     io_bind (if of_nat i = me \<and> register then getMyIp nw else getName nw nsAddr (of_nat i)) (\<lambda>a.
     io_bind (collect_servers nw register nsAddr me is) (\<lambda>as. io_return (a # as)))"

definition MkDefaultNetConfig :: "'s netops \<Rightarrow> bool \<Rightarrow> bool \<Rightarrow> string \<Rightarrow> ('s, NetConfig) io" where
  "MkDefaultNetConfig nw isRaft register nsAddr =
     io_bind (if register then registerName nw nsAddr else io_return 0) (\<lambda>me.
     io_bind (collect_servers nw register nsAddr me [0..<nServers]) (\<lambda>servers.
       io_return
         \<lparr>IsRaft = isRaft,
          Servers = map (\<lambda>a. a @ '':'' @ fmt_d (if isRaft then defaultRFPort else defaultKVPort)) servers,
          KVPort = defaultKVPort, RaftPort = defaultRFPort\<rparr>))"

subsection \<open>staticaddr.go\<close>

definition GetMe :: "'s netops \<Rightarrow> NetConfig \<Rightarrow> ('s, nat \<times> goerr) io" where
  "GetMe nw c =
     io_bind (getMyIp nw) (\<lambda>ip.
     let me = ip @ (if IsRaft c then '':1234'' else '':1235'') in
     io_return
       (case find (\<lambda>i. Servers c ! i = me) [0..<length (Servers c)] of
          Some i \<Rightarrow> (i, None)
        | None \<Rightarrow> (0, Some ''i'm not in any server lists; check staticaddr.go'')))"

subsection \<open>The names are the positions in the order of registration\<close>

definition ns_is :: "NameServer \<Rightarrow> string list \<Rightarrow> bool" where
  "ns_is n xs \<longleftrightarrow>
     (\<forall>k. ns_names n k = (if unat k < length xs then Some (xs ! unat k) else None)) \<and>
     ns_maxName n = of_nat (length xs) \<and> distinct xs"

definition enroll :: "string \<Rightarrow> string list \<Rightarrow> string list" where
  "enroll a xs = (if a \<in> set xs then xs else xs @ [a])"

lemma enroll_simps [simp]: "a \<in> set (enroll a xs)" "distinct (enroll a xs) = distinct xs" "set (enroll a xs) = insert a (set xs)"
  "prefix xs (enroll a xs)" "xs \<noteq> enroll a xs \<Longrightarrow> length (enroll a xs) = Suc (length xs)"
  by (auto simp: enroll_def)

lemma new_nameserver_is: "ns_is new_nameserver []"
  by (simp add: ns_is_def new_nameserver_def)

lemma ns_register:
  assumes n: "ns_is n xs" "length xs < 2 ^ 64 - 1" and keys: "set keys = dom (ns_names n)" and reg: "rq_Register args"
  shows "\<exists>i. i < length (enroll (rq_Address args) xs) \<and> enroll (rq_Address args) xs ! i = rq_Address args \<and>
    fst (NameServer_Request keys args reply n) = reply\<lparr>rp_OK := True, rp_Name := of_nat i\<rparr> \<and>
    ns_is (snd (NameServer_Request keys args reply n)) (enroll (rq_Address args) xs)"
proof (cases "rq_Address args \<in> set xs")
  case True
  then obtain i where i: "i < length xs" "xs ! i = rq_Address args" by (auto simp: in_set_conv_nth)
  have u: "unat (of_nat i :: goint) = i" using i n(2) by (simp add: unat_of_nat take_bit_nat_eq_self)
  have dom: "of_nat i \<in> set keys" using keys n(1) i u by (auto simp: ns_is_def)
  have uniq: "k = of_nat i" if "ns_names n k = Some (rq_Address args)" for k
  proof -
    have "unat k < length xs" "xs ! unat k = rq_Address args" using that n(1) by (auto simp: ns_is_def split: if_splits)
    with i n(1) have "unat k = i" by (simp add: ns_is_def nth_eq_iff_index_eq flip: i(2))
    then show ?thesis using u by (simp add: word_unat_eq_iff)
  qed
  have "ns_names n (of_nat i) = Some (rq_Address args)" using n(1) i u by (simp add: ns_is_def)
  with dom obtain k where k: "find (\<lambda>k. ns_names n k = Some (rq_Address args)) keys = Some k"
    by (metis (mono_tags, lifting) find_None_iff option.exhaust)
  then have "k = of_nat i" using uniq by (metis (mono_tags, lifting) find_Some_iff)
  with k True i n(1) reg show ?thesis by (auto simp: NameServer_Request_def enroll_def)
next
  case False
  have "ns_names n k \<noteq> Some (rq_Address args)" for k
  proof
    assume "ns_names n k = Some (rq_Address args)"
    then have "unat k < length xs" "xs ! unat k = rq_Address args" using n(1) by (auto simp: ns_is_def split: if_splits)
    with False show False by (metis nth_mem)
  qed
  then have none: "find (\<lambda>k. ns_names n k = Some (rq_Address args)) keys = None" by (simp add: find_None_iff)
  have u: "unat (of_nat (length xs) :: goint) = length xs" using n(2) by (simp add: unat_of_nat take_bit_nat_eq_self)
  have "ns_is (n\<lparr>ns_maxName := ns_maxName n + 1, ns_names := (ns_names n)(of_nat (length xs) \<mapsto> rq_Address args)\<rparr>) (xs @ [rq_Address args])"
  proof -
    have "((ns_names n)(of_nat (length xs) \<mapsto> rq_Address args)) k =
        (if unat k < length (xs @ [rq_Address args]) then Some ((xs @ [rq_Address args]) ! unat k) else None)" for k
    proof (cases "k = of_nat (length xs)")
      case True
      then show ?thesis by (simp add: u)
    next
      case ne: False
      then have "unat k \<noteq> length xs" using u by (auto simp: word_unat_eq_iff)
      with ne n(1) show ?thesis by (simp add: ns_is_def nth_append)
    qed
    with n(1) False show ?thesis by (simp add: ns_is_def)
  qed
  with False none n(1) reg show ?thesis
    by (auto simp: NameServer_Request_def enroll_def mkName_def Let_def ns_is_def intro!: exI [of _ "length xs"])
qed

lemma ns_lookup:
  assumes "ns_is n xs" "length xs < 2 ^ 64" "i < 2 ^ 64" "\<not> rq_Register args" "rq_Name args = of_nat i"
  shows "NameServer_Request keys args reply n =
    (if i < length xs then reply\<lparr>rp_Address := xs ! i, rp_OK := True\<rparr> else reply\<lparr>rp_OK := False\<rparr>, n)"
proof -
  have "unat (of_nat i :: goint) = i" using assms(3) by (simp add: unat_of_nat take_bit_nat_eq_self)
  with assms(1,4,5) show ?thesis by (simp add: NameServer_Request_def ns_is_def)
qed

subsection \<open>A machine among others\<close>

text \<open>
  The name server, and machines that register while this one waits: before each call that it
  serves, the next pending address is registered.
\<close>

record ns_world =
  w_ns :: NameServer
  w_pending :: "string list"

definition empty_reply :: NsRpArgs where
  "empty_reply = \<lparr>rp_OK = False, rp_Name = 0, rp_Address = []\<rparr>"

definition others_register :: "(NameServer \<Rightarrow> goint list) \<Rightarrow> ns_world \<Rightarrow> ns_world" where
  "others_register keys w =
     (case w_pending w of
        [] \<Rightarrow> w
      | a # as \<Rightarrow>
          \<lparr>w_ns = snd (NameServer_Request (keys (w_ns w)) \<lparr>rq_Register = True, rq_Name = 0, rq_Address = a\<rparr> empty_reply (w_ns w)),
           w_pending = as\<rparr>)"

definition served :: "(NameServer \<Rightarrow> goint list) \<Rightarrow> NsRqArgs \<Rightarrow> (ns_world, NsRpArgs option) io" where
  "served keys args w =
     (let w1 = others_register keys w;
          (reply, n) = NameServer_Request (keys (w_ns w1)) args empty_reply (w_ns w1)
      in Some (Ret (Some reply), w1\<lparr>w_ns := n\<rparr>))"

definition world_net :: "(NameServer \<Rightarrow> goint list) \<Rightarrow> string \<Rightarrow> ns_world netops" where
  "world_net keys ip =
     \<lparr>dial_ns = (\<lambda>_. io_return True), call_ns = served keys, getMyIp = io_return ip, dial = (\<lambda>_. io_return True)\<rparr>"

definition world_is :: "ns_world \<Rightarrow> string list \<Rightarrow> string list \<Rightarrow> bool" where
  "world_is w xs F \<longleftrightarrow> ns_is (w_ns w) xs \<and> fold enroll (w_pending w) xs = F \<and> length xs + length (w_pending w) < 2 ^ 63"

definition visits :: "(NameServer \<Rightarrow> goint list) \<Rightarrow> bool" where
  "visits keys \<longleftrightarrow> (\<forall>n. set (keys n) = dom (ns_names n))"

lemma prefix_enrolls: "prefix xs (fold enroll as xs)"
  by (induction as arbitrary: xs) (auto intro: prefix_order.trans enroll_simps(4))

lemma set_enrolls: "set (fold enroll as xs) = set as \<union> set xs" "distinct (fold enroll as xs) = distinct xs"
  by (induction as arbitrary: xs) auto

lemma length_enroll: "length (enroll a xs) \<le> Suc (length xs)"
  by (simp add: enroll_def)

lemma others_register_is:
  assumes "visits keys" "world_is w xs F"
  shows "\<exists>ys. prefix xs ys \<and> world_is (others_register keys w) ys F \<and> w_pending (others_register keys w) = tl (w_pending w) \<and>
    (w_pending w = [] \<longrightarrow> ys = F) \<and> length ys + length (tl (w_pending w)) \<le> length xs + length (w_pending w)"
proof (cases "w_pending w")
  case Nil
  with assms(2) show ?thesis by (auto simp: others_register_def world_is_def)
next
  case (Cons a as)
  let ?args = "\<lparr>rq_Register = True, rq_Name = 0, rq_Address = a\<rparr>"
  have n: "ns_is (w_ns w) xs" "length xs + length (w_pending w) < 2 ^ 63" using assms(2) by (simp_all add: world_is_def)
  have keys: "set (keys (w_ns w)) = dom (ns_names (w_ns w))" using assms(1) by (simp add: visits_def)
  have "ns_is (snd (NameServer_Request (keys (w_ns w)) ?args empty_reply (w_ns w))) (enroll a xs)"
    using ns_register [OF n(1) _ keys, of ?args empty_reply] n(2) by auto
  moreover have "length (enroll a xs) + length as < 2 ^ 63" using n(2) length_enroll [of a xs] by (simp add: Cons)
  ultimately show ?thesis
    using assms(2) by (intro exI [of _ "enroll a xs"]) (use length_enroll [of a xs] in \<open>simp add: others_register_def world_is_def Cons\<close>)
qed

lemma get_retry_returns:
  assumes "visits keys" "world_is w xs F" "i < length F" "i < 3"
  shows "\<exists>w' ys. get_retry (world_net keys ip) (of_nat i) w = Some (Ret (F ! i), w') \<and> world_is w' ys F \<and> prefix xs ys \<and> i < length ys"
  using assms(2)
proof (induction "length (w_pending w)" arbitrary: w xs rule: less_induct)
  case less
  let ?args = "\<lparr>rq_Register = False, rq_Name = of_nat i, rq_Address = []\<rparr> :: NsRqArgs"
  let ?w = "others_register keys w"
  obtain ys where ys: "prefix xs ys" "world_is ?w ys F" "w_pending ?w = tl (w_pending w)" "w_pending w = [] \<longrightarrow> ys = F"
    using others_register_is [OF assms(1) less.prems] by blast
  have F: "prefix ys F" using ys(2) prefix_enrolls by (auto simp: world_is_def)
  have r: "NameServer_Request (keys (w_ns ?w)) ?args empty_reply (w_ns ?w) =
      (if i < length ys then empty_reply\<lparr>rp_Address := ys ! i, rp_OK := True\<rparr> else empty_reply\<lparr>rp_OK := False\<rparr>, w_ns ?w)"
    by (rule ns_lookup) (use ys(2) assms(4) in \<open>auto simp: world_is_def\<close>)
  have call: "call_ns (world_net keys ip) ?args w =
      Some (Ret (Some (if i < length ys then empty_reply\<lparr>rp_Address := ys ! i, rp_OK := True\<rparr> else empty_reply\<lparr>rp_OK := False\<rparr>)), ?w)"
    by (simp add: world_net_def served_def r Let_def)
  show ?case
  proof (cases "i < length ys")
    case True
    then have "ys ! i = F ! i" using F by (metis prefix_def nth_append)
    with True call have "get_retry (world_net keys ip) (of_nat i) w = Some (Ret (F ! i), ?w)"
      by (subst get_retry.simps) (simp add: io_bind_def io_return_def)
    with True ys show ?thesis by blast
  next
    case False
    with ys(4) assms(3) have "w_pending w \<noteq> []" by auto
    then have "length (w_pending ?w) < length (w_pending w)" using ys(3) by (cases "w_pending w") auto
    from less.hyps [OF this ys(2)] obtain w' zs where
      "get_retry (world_net keys ip) (of_nat i) ?w = Some (Ret (F ! i), w')" "world_is w' zs F" "prefix ys zs" "i < length zs" by blast
    moreover from False call have "get_retry (world_net keys ip) (of_nat i) w = get_retry (world_net keys ip) (of_nat i) ?w"
      by (subst get_retry.simps) (simp add: io_bind_def empty_reply_def)
    ultimately show ?thesis using ys(1) prefix_order.trans by fastforce
  qed
qed

lemma connect_world [simp]: "io_bind (connect_ns (world_net keys ip) nsAddr) f = f ()"
  by (simp add: connect_ns_def world_net_def)

lemma getName_world: "getName (world_net keys ip) nsAddr which = get_retry (world_net keys ip) which"
  by (simp add: getName_def)

lemma getMyIp_world: "getMyIp (world_net keys ip) = io_return ip"
  by (simp add: world_net_def)

lemma registerName_world:
  assumes "visits keys" "world_is w xs F0" "length xs + length (w_pending w) < 2 ^ 63 - 1"
  shows "\<exists>w' ys F i. registerName (world_net keys ip) nsAddr w = Some (Ret (of_nat i), w') \<and> world_is w' ys F \<and> prefix xs ys \<and>
    i < length ys \<and> ys ! i = ip \<and> set F = insert ip (set F0) \<and> w_pending w' = tl (w_pending w)"
proof -
  let ?args = "\<lparr>rq_Register = True, rq_Name = 0, rq_Address = ip\<rparr> :: NsRqArgs"
  let ?w = "others_register keys w"
  obtain ys where ys: "prefix xs ys" "world_is ?w ys F0" "w_pending ?w = tl (w_pending w)"
    and len: "length ys + length (tl (w_pending w)) \<le> length xs + length (w_pending w)"
    using others_register_is [OF assms(1,2)] by blast
  have n: "ns_is (w_ns ?w) ys" "length ys + length (w_pending ?w) < 2 ^ 63" using ys(2) by (simp_all add: world_is_def)
  have "set (keys (w_ns ?w)) = dom (ns_names (w_ns ?w))" using assms(1) by (simp add: visits_def)
  from ns_register [OF n(1) _ this, of ?args empty_reply] n(2) obtain i where
    i: "i < length (enroll ip ys)" "enroll ip ys ! i = ip" and
    r: "fst (NameServer_Request (keys (w_ns ?w)) ?args empty_reply (w_ns ?w)) = empty_reply\<lparr>rp_OK := True, rp_Name := of_nat i\<rparr>"
      "ns_is (snd (NameServer_Request (keys (w_ns ?w)) ?args empty_reply (w_ns ?w))) (enroll ip ys)" by auto
  let ?n = "snd (NameServer_Request (keys (w_ns ?w)) ?args empty_reply (w_ns ?w))"
  have "call_ns (world_net keys ip) ?args w = Some (Ret (Some (empty_reply\<lparr>rp_OK := True, rp_Name := of_nat i\<rparr>)), ?w\<lparr>w_ns := ?n\<rparr>)"
    by (simp add: world_net_def served_def Let_def split_beta r(1))
  then have run: "registerName (world_net keys ip) nsAddr w = Some (Ret (of_nat i), ?w\<lparr>w_ns := ?n\<rparr>)"
    by (simp add: registerName_def getMyIp_world) (simp add: io_bind_def io_return_def)
  have reg: "world_is (?w\<lparr>w_ns := ?n\<rparr>) (enroll ip ys) (fold enroll (tl (w_pending w)) (enroll ip ys))"
    using r(2) len assms(3) length_enroll [of ip ys] by (simp add: world_is_def ys(3))
  have "set (fold enroll (tl (w_pending w)) (enroll ip ys)) = insert ip (set F0)"
    using ys(2,3) by (auto simp: world_is_def set_enrolls)
  moreover have "prefix xs (enroll ip ys)" using ys(1) enroll_simps(4) by (rule prefix_order.trans)
  moreover have "w_pending (?w\<lparr>w_ns := ?n\<rparr>) = tl (w_pending w)" by (simp add: ys(3))
  ultimately show ?thesis using run reg i by blast
qed

lemma collect_servers_world:
  assumes keys: "visits keys" and me: "j < 2 ^ 63" "F ! j = ip \<and> j < length xs" and w: "world_is w xs F" and "is": "\<forall>i \<in> set is. i < 3 \<and> i < length F"
  shows "\<exists>w' ys. collect_servers (world_net keys ip) True nsAddr (of_nat j) is w = Some (Ret (map ((!) F) is), w') \<and>
    world_is w' ys F \<and> prefix xs ys \<and> (\<forall>i \<in> set is. i < length ys)"
  using me(2) w "is"
proof (induction "is" arbitrary: w xs)
  case Nil
  then show ?case by (auto simp: io_return_def)
next
  case (Cons i js)
  have i: "i < 3" "i < length F" using Cons.prems(3) by auto
  have eq: "(of_nat i :: goint) = of_nat j \<longleftrightarrow> i = j"
    using i(1) me(1) by (simp add: word_unat_eq_iff unat_of_nat take_bit_nat_eq_self)
  have "\<exists>w1 ys. (if (of_nat i :: goint) = of_nat j \<and> True then getMyIp (world_net keys ip) else getName (world_net keys ip) nsAddr (of_nat i)) w
      = Some (Ret (F ! i), w1) \<and> world_is w1 ys F \<and> prefix xs ys \<and> i < length ys"
  proof (cases "i = j")
    case True
    with Cons.prems show ?thesis by (auto simp: getMyIp_world io_return_def)
  next
    case False
    with get_retry_returns [OF keys Cons.prems(2) i(2,1)] show ?thesis by (simp add: eq getName_world)
  qed
  then obtain w1 ys where w1: "(if (of_nat i :: goint) = of_nat j \<and> True then getMyIp (world_net keys ip) else getName (world_net keys ip) nsAddr (of_nat i)) w
      = Some (Ret (F ! i), w1)" "world_is w1 ys F" "prefix xs ys" "i < length ys" by blast
  have "F ! j = ip \<and> j < length ys" using Cons.prems(1) prefix_length_le [OF w1(3)] by simp
  from Cons.IH [OF this w1(2)] Cons.prems(3) obtain w2 zs where
    w2: "collect_servers (world_net keys ip) True nsAddr (of_nat j) js w1 = Some (Ret (map ((!) F) js), w2)"
      "world_is w2 zs F" "prefix ys zs" "\<forall>i \<in> set js. i < length zs" by auto
  have "collect_servers (world_net keys ip) True nsAddr (of_nat j) (i # js) w = Some (Ret (map ((!) F) (i # js)), w2)"
    using w1(1) w2(1) by (simp add: io_bind_def io_return_def)
  moreover have "prefix xs zs" using w1(3) w2(3) by (rule prefix_order.trans)
  moreover have "\<forall>i \<in> set (i # js). i < length zs" using w2(4) w1(4) prefix_length_le [OF w2(3)] by auto
  ultimately show ?case using w2(2) by blast
qed

text \<open>
  Every machine gets the same list of servers and finds itself in it. A machine that builds its
  configuration, while others register in any order and Go visits the map of names in any order,
  comes to an end as soon as three machines are known; its servers are the first three registered
  addresses with the port of the service, the same for every machine since the list only grows, and
  the number by which it finds itself is the position of its address among them.
\<close>

theorem config_agrees:
  assumes "visits keys" and "ns_is (w_ns w) xs" and "length xs + length (w_pending w) < 2 ^ 63 - 1"
    and "3 \<le> card (insert ip (set xs \<union> set (w_pending w)))"
  shows "\<exists>c w' ys. MkDefaultNetConfig (world_net keys ip) isRaft True nsAddr w = Some (Ret c, w') \<and>
    ns_is (w_ns w') ys \<and> prefix xs ys \<and> 3 \<le> length ys \<and>
    Servers c = map (\<lambda>a. a @ (if isRaft then '':1234'' else '':1235'')) (take 3 ys) \<and>
    (\<forall>i < 3. ys ! i = ip \<longrightarrow> GetMe (world_net keys ip) c w' = Some (Ret (i, None), w'))"
proof -
  let ?F0 = "fold enroll (w_pending w) xs"
  have w: "world_is w xs ?F0" using assms(2,3) by (simp add: world_is_def)
  obtain w1 ys F j where w1: "registerName (world_net keys ip) nsAddr w = Some (Ret (of_nat j), w1)" "world_is w1 ys F" "prefix xs ys"
    and j: "j < length ys" "ys ! j = ip" and F: "set F = insert ip (set ?F0)" "w_pending w1 = tl (w_pending w)"
    using registerName_world [OF assms(1) w assms(3), of ip nsAddr] by blast
  have pre: "prefix ys F" "distinct F" using w1(2) prefix_enrolls [of ys "w_pending w1"] by (auto simp: world_is_def ns_is_def set_enrolls)
  have "card (set F) = card (insert ip (set xs \<union> set (w_pending w)))" using F(1) by (simp add: set_enrolls Un_commute)
  then have len: "3 \<le> length F" using assms(4) pre(2) by (simp add: distinct_card)
  have Fj: "F ! j = ip \<and> j < length ys" using j pre(1) by (metis nth_append prefix_def)
  have "j < 2 ^ 63" using j(1) w1(2) by (simp add: world_is_def)
  from collect_servers_world [OF assms(1) this Fj w1(2), of "[0..<3]" nsAddr] len
  obtain w2 zs where w2: "collect_servers (world_net keys ip) True nsAddr (of_nat j) [0..<3] w1 = Some (Ret (map ((!) F) [0..<3]), w2)"
    "world_is w2 zs F" "prefix ys zs" "\<forall>i \<in> set [0..<3]. i < length zs" by auto
  have z: "3 \<le> length zs" using bspec [OF w2(4), of 2] by simp
  have F': "prefix zs F" using w2(2) prefix_enrolls [of zs "w_pending w2"] by (auto simp: world_is_def)
  have "map ((!) F) [0..<3] = take 3 zs"
    using z F' by (auto simp: prefix_def take_map nth_append intro!: nth_equalityI)
  note srv = w2(1) [unfolded this]
  have port: "fmt_d (1234 :: uint16) = ''1234''" "fmt_d (1235 :: uint16) = ''1235''" by code_simp+
  let ?c = "\<lparr>IsRaft = isRaft, Servers = map (\<lambda>a. a @ (if isRaft then '':1234'' else '':1235'')) (take 3 zs),
    KVPort = defaultKVPort, RaftPort = defaultRFPort\<rparr>"
  have run: "MkDefaultNetConfig (world_net keys ip) isRaft True nsAddr w = Some (Ret ?c, w2)"
    using w1(1) srv by (simp add: MkDefaultNetConfig_def nServers_def io_bind_def io_return_def port defaultRFPort_def defaultKVPort_def)
  have "GetMe (world_net keys ip) ?c w2 = Some (Ret (i, None), w2)" if i: "i < 3" "zs ! i = ip" for i
  proof -
    have d: "distinct zs" using w2(2) by (simp add: world_is_def ns_is_def)
    have hit: "(Servers ?c ! k = ip @ (if isRaft then '':1234'' else '':1235'')) \<longleftrightarrow> k = i" if "k < 3" for k
      using that i z d by (auto simp: nth_eq_iff_index_eq)
    have "find (\<lambda>k. Servers ?c ! k = ip @ (if isRaft then '':1234'' else '':1235'')) [0..<length (Servers ?c)] = Some i"
      using hit i z by (subst find_Some_iff) (auto intro!: exI [of _ i])
    then show ?thesis by (simp add: GetMe_def getMyIp_world Let_def) (simp add: io_return_def)
  qed
  moreover have "prefix xs zs" using w1(3) w2(3) by (rule prefix_order.trans)
  ultimately show ?thesis using run z w2(2) by (intro exI [of _ ?c] exI [of _ w2] exI [of _ zs]) (simp add: world_is_def)
qed

theorem config_agrees_witness:
  "\<exists>c w' ys. MkDefaultNetConfig (world_net (\<lambda>n. sorted_list_of_set (dom (ns_names n))) ''10.0.0.1'') True True ''10.0.0.9''
      \<lparr>w_ns = new_nameserver, w_pending = [''10.0.0.2'', ''10.0.0.3'']\<rparr> = Some (Ret c, w') \<and> ns_is (w_ns w') ys \<and>
    Servers c = map (\<lambda>a. a @ '':1234'') (take 3 ys)"
proof -
  have "visits (\<lambda>n. sorted_list_of_set (dom (ns_names n)))" by (simp add: visits_def)
  from config_agrees [OF this, of "\<lparr>w_ns = new_nameserver, w_pending = [''10.0.0.2'', ''10.0.0.3'']\<rparr>" "[]" "''10.0.0.1''" True "''10.0.0.9''"]
  show ?thesis by (auto simp: new_nameserver_is card_insert_if)
qed

end
