(* ===== verification/Codec.thy ===== *)
theory Codec
  imports Prelude "HOL-Library.Countable" "HOL-Library.List_Lexorder" "HOL-Library.Char_ord"
begin

section \<open>Codecs\<close>

text \<open>
  The program stores structured values as bytes with \<open>encoding/gob\<close>, whose format is not modelled:
  the definitions that use it take an encoder and a decoder as arguments, and their theorems assume
  that decoding an encoded value gives it back and that no value is encoded by the empty string.
  Here is the law, as a predicate on the two functions, and a codec that shows that it can be met.
\<close>

definition codec :: "('a \<Rightarrow> bool) \<Rightarrow> ('a \<Rightarrow> string) \<Rightarrow> (string \<Rightarrow> 'a option) \<Rightarrow> bool" where
  "codec ok encode decode \<longleftrightarrow> (\<forall>x. ok x \<longrightarrow> decode (encode x) = Some x) \<and> decode [] = None"

lemma codecD:
  assumes "codec ok encode decode"
  shows "ok x \<Longrightarrow> decode (encode x) = Some x" and "decode [] = None"
  using assms by (auto simp: codec_def)

subsection \<open>A codec for finite data\<close>

definition unary :: "'a::countable \<Rightarrow> string" where
  "unary x = replicate (Suc (to_nat x)) CHR ''1''"

definition from_unary :: "string \<Rightarrow> 'a::countable option" where
  "from_unary s = (if s = [] then None else Some (from_nat (length s - 1)))"

lemma codec_unary: "codec (\<lambda>_. True) unary from_unary"
  by (simp add: codec_def unary_def from_unary_def)

text \<open>A finite map as the list of its entries in the order of the keys.\<close>

definition entries :: "('k::linorder \<rightharpoonup> 'v) \<Rightarrow> ('k \<times> 'v) list" where
  "entries m = map (\<lambda>k. (k, the (m k))) (sorted_list_of_set (dom m))"

lemma map_of_entries: "finite (dom m) \<Longrightarrow> map_of (entries m) = m"
proof
  fix k assume "finite (dom m)"
  then show "map_of (entries m) k = m k"
    by (cases "m k") (auto simp: entries_def map_of_map_keys map_of_map_restrict restrict_map_def o_def)
qed

lemma codec_map:
  assumes "codec (\<lambda>_. True) encode decode" and "\<And>x. ok x \<Longrightarrow> g (f x) = x"
  shows "codec ok (\<lambda>x. encode (f x)) (\<lambda>s. map_option g (decode s))"
  using assms by (simp add: codec_def)

end
