(* ===== verification/KvReplica.thy ===== *)
theory KvReplica
  imports KvServer Codec
begin

section \<open>Replicas of the key-value server\<close>

text \<open>
  A server and its consensus module as one replica: it boots, its module runs any of its atomic
  sections, it is delivered the committed commands in order, it takes snapshots on its own account
  and installs those of other replicas, and it crashes and restarts from its state file. The
  committed log itself is a parameter; that the modules agree on it is the business of the
  theories on consensus. Whatever happens, the state of a replica is the one of a server that has
  applied a prefix of the log from scratch.
\<close>

subsection \<open>Who touches the snapshot\<close>

fun snapshot_ev :: "'c raft_ev \<Rightarrow> bool" where
  "snapshot_ev (EvSnapshot _ _) = True"
| "snapshot_ev (EvCondInstallSnapshot _ _ _) = True"
| "snapshot_ev _ = False"

definition same_snapshot :: "'c Raft \<Rightarrow> 'c Raft \<Rightarrow> bool" where
  "same_snapshot rf rf' \<longleftrightarrow> snapshot rf' = snapshot rf \<and> snapshotIndex rf' = snapshotIndex rf"

lemma same_snapshot_refl [simp]: "same_snapshot rf rf"
  by (simp add: same_snapshot_def)

lemma same_snapshot_trans: "same_snapshot rf1 rf2 \<Longrightarrow> same_snapshot rf2 rf3 \<Longrightarrow> same_snapshot rf1 rf3"
  by (simp add: same_snapshot_def)

lemma persist_same: "(\<And>rf'. same_snapshot rf rf' \<Longrightarrow> P rf') \<Longrightarrow> on_return (persist rf) P"
  by (auto simp: persist_def SaveRaftState_def Let_def same_snapshot_def)

lemma msgCommon_same: "(\<And>ok rf'. same_snapshot rf rf' \<Longrightarrow> P (ok, rf')) \<Longrightarrow> on_return (msgCommon t rf) P"
  by (auto simp: msgCommon_def same_snapshot_def intro!: persist_same)

lemma applyOutstanding_same: "(\<And>rf'. same_snapshot rf rf' \<Longrightarrow> P rf') \<Longrightarrow> on_return (applyOutstanding rf) P"
  by (auto simp: applyOutstanding_def same_snapshot_def Let_def intro!: on_returnI)

lemmas same_intros = persist_same msgCommon_same applyOutstanding_same

lemma heartbeat_peers_same: "on_return (heartbeat_peers is rf) (\<lambda>r. same_snapshot rf (snd r))"
proof (induction "is" arbitrary: rf)
  case (Cons i js)
  have "on_return (heartbeat_peer (int i) rf) (\<lambda>r. same_snapshot rf (snd r))"
    by (auto simp: heartbeat_peer_def Let_def same_snapshot_def updl_def nthl_def split: option.splits)
      (auto intro!: on_returnI)
  with Cons.IH show ?case
    unfolding on_return_def
    by (auto simp: outcome_bind_Ret_iff) (metis same_snapshot_trans snd_conv)
qed simp

lemma RequestVote_same: "on_return (RequestVote now args rf) (\<lambda>r. same_snapshot rf (snd r))"
  unfolding RequestVote_def
  by (auto simp: same_snapshot_def Let_def otherIsRecent_def nthl_def deref_def intro!: same_intros split: option.splits)

lemma AppendEntries_same: "on_return (AppendEntries now args rf) (\<lambda>r. same_snapshot rf (snd r))"
  unfolding AppendEntries_def
  by (auto simp: same_snapshot_def Let_def nthl_def intro!: same_intros split: option.splits)

lemma raft_exec_same:
  assumes "\<not> snapshot_ev e"
  shows "on_return (raft_exec e rf) (same_snapshot rf)"
proof (cases e)
  case (EvRequestVote now args)
  then show ?thesis using RequestVote_same by simp
next
  case (EvAppendEntries now args)
  then show ?thesis using AppendEntries_same by simp
next
  case (EvHeartbeat now)
  then show ?thesis
    using heartbeat_peers_same [of "[0..<npeers rf]" "rf\<lparr>ts := now\<rparr>"]
    by (simp add: doHeartbeat_def same_snapshot_def)
next
  case (EvStart c)
  then show ?thesis by (auto simp: Start_def same_snapshot_def intro!: same_intros)
next
  case (EvInstallSnapshot now args)
  then show ?thesis by (auto simp: InstallSnapshot_def Let_def same_snapshot_def intro!: same_intros)
next
  case EvCandidate
  then show ?thesis by (auto simp: candidate_round_def same_snapshot_def intro!: same_intros)
next
  case (EvBallotReply rvr vc)
  then show ?thesis by (auto simp: ballot_reply_def intro!: same_intros)
next
  case (EvAEReply j aea aer)
  then show ?thesis by (auto simp: ae_reply_def Let_def same_snapshot_def updl_def intro!: same_intros)
next
  case (EvISReply j isa isr)
  then show ?thesis by (auto simp: is_reply_def same_snapshot_def updl_def intro!: same_intros)
next
  case EvRvwCommits
  then show ?thesis
    by (auto simp: rvwCommits_round_def Let_def same_snapshot_def nthl_def deref_def intro!: same_intros
        split: option.splits)
qed (use assms in \<open>auto simp: ticker_sleep_def ticker_wake_def election_poll_def leaderInit_def Let_def same_snapshot_def\<close>)

subsection \<open>Runs of a replica\<close>

text \<open>\<open>replica h k srv rf\<close>: a replica can be in this state after it has applied \<open>k\<close> commands of the log \<open>h\<close>.\<close>

inductive replica ::
  "(SnapshotRec \<Rightarrow> string) \<Rightarrow> (string \<Rightarrow> SnapshotRec option) \<Rightarrow> (RequestArgs gob list \<Rightarrow> int) \<Rightarrow>
   RequestArgs list \<Rightarrow> nat \<Rightarrow> KVServer \<Rightarrow> raft \<Rightarrow> bool"
  for encode decode bytes h
where
  boot: "StartKVServer decode i n None mx = Ret (srv, rf) \<Longrightarrow> replica encode decode bytes h 0 srv rf"
| consensus: "replica encode decode bytes h k srv rf \<Longrightarrow> ev_enabled e rf \<Longrightarrow> \<not> snapshot_ev e \<Longrightarrow>
    raft_exec e rf = Ret rf' \<Longrightarrow> replica encode decode bytes h k srv rf'"
| deliver: "replica encode decode bytes h k srv rf \<Longrightarrow> k < length h \<Longrightarrow> int k < appliedIdx rf \<Longrightarrow>
    \<not> SnapshotValid v \<Longrightarrow> CommandValid v \<Longrightarrow> Command v = Some (h ! k) \<Longrightarrow> CommandIndex v = int k + 1 \<Longrightarrow>
    manageApply encode decode bytes v srv rf = Ret (out, srv', rf') \<Longrightarrow>
    replica encode decode bytes h (Suc k) srv' rf'"
| install: "replica encode decode bytes h k srv rf \<Longrightarrow> replica encode decode bytes h k2 srv2 rf2 \<Longrightarrow>
    SnapshotValid v \<Longrightarrow> Snapshot_data v = snapshot rf2 \<Longrightarrow> SnapshotIndex v = snapshotIndex rf2 \<Longrightarrow>
    0 < snapshotIndex rf2 \<Longrightarrow> int k \<le> snapshotIndex rf2 \<Longrightarrow>
    manageApply encode decode bytes v srv rf = Ret (out, srv', rf') \<Longrightarrow>
    k' = (if recent (SnapshotIndex v) (SnapshotTerm v) rf then nat (SnapshotIndex v) else k) \<Longrightarrow>
    replica encode decode bytes h k' srv' rf'"
| restart: "replica encode decode bytes h k srv rf \<Longrightarrow>
    StartKVServer decode i n (persisted rf) mx = Ret (srv', rf') \<Longrightarrow>
    replica encode decode bytes h (nat (snapshotIndex rf)) srv' rf'"

text \<open>A server holds what the first \<open>k\<close> commands give.\<close>

definition applied :: "RequestArgs list \<Rightarrow> nat \<Rightarrow> SnapshotRec \<Rightarrow> bool" where
  "applied h k s \<longleftrightarrow> k \<le> length h \<and> (\<exists>srv. applyLog (take k h) new_server = Ret srv \<and> snapshot_of srv = s)"

definition snapshot_right :: "(string \<Rightarrow> SnapshotRec option) \<Rightarrow> RequestArgs list \<Rightarrow> raft \<Rightarrow> bool" where
  "snapshot_right decode h rf \<longleftrightarrow>
     (if snapshotIndex rf = 0 then snapshot rf = []
      else (\<exists>s. decode (snapshot rf) = Some s \<and> applied h (nat (snapshotIndex rf)) s))"

lemma applyCommand_frame:
  assumes "snapshot_of s1 = snapshot_of s2" and "applyCommand cmd s1 = Ret (c, s1')"
  shows "\<exists>s2'. applyCommand cmd s2 = Ret (c, s2') \<and> snapshot_of s1' = snapshot_of s2'"
proof -
  have s2: "s2 = s1\<lparr>maxraftsz := maxraftsz s2, topidx := topidx s2\<rparr>"
    using assms(1) by (simp add: snapshot_of_def)
  have "note_seq cmd (note_client cmd s2) =
      (note_seq cmd (note_client cmd s1))\<lparr>maxraftsz := maxraftsz s2, topidx := topidx s2\<rparr>"
    by (subst s2) (auto simp: note_seq_def note_client_def split: option.splits)
  then have "applyCommand cmd s2 = outcome_bind (applyCommand cmd s1) (\<lambda>(c, s).
      Ret (c, s\<lparr>maxraftsz := maxraftsz s2, topidx := topidx s2\<rparr>))"
    by (cases "commitOp (kvm (note_seq cmd (note_client cmd s1))) cmd") (auto simp: applyCommand_def Let_def)
  with assms(2) show ?thesis by (simp add: snapshot_of_def)
qed

text \<open>The tables of a server are finite.\<close>

definition fin_snap :: "SnapshotRec \<Rightarrow> bool" where
  "fin_snap s \<longleftrightarrow> finite (dom (ss_Kvm s)) \<and> finite (dom (ss_Unwritten s)) \<and> finite (dom (ss_Unseen s)) \<and>
     finite (dom (ss_Last s))"

lemma commitOp_finite:
  "commitOp m cmd = Ret (err, m') \<Longrightarrow> finite (dom m) \<Longrightarrow> finite (dom m')"
  by (cases "Code cmd") (auto simp: commitOp_def Let_def split: if_splits)

lemma applyCommand_fin_snap:
  assumes "applyCommand cmd srv = Ret (c, srv')" "fin_snap (snapshot_of srv)"
  shows "fin_snap (snapshot_of srv')"
proof -
  have "finite (dom (m(k := None)))" if "finite (dom m)" for m :: "uint \<rightharpoonup> bool" and k
    using that by (simp add: dom_fun_upd)
  then have "fin_snap (snapshot_of (note_seq cmd (note_client cmd srv)))"
    using assms(2) by (auto simp: fin_snap_def snapshot_of_def note_seq_def note_client_def split: option.splits)
  with assms(1) show ?thesis
    by (auto simp: applyCommand_def Let_def outcome_bind_Ret_iff fin_snap_def snapshot_of_def
        dest: commitOp_finite split: if_splits)
qed

lemma applyLog_fin_snap:
  "applyLog cmds srv = Ret srv' \<Longrightarrow> fin_snap (snapshot_of srv) \<Longrightarrow> fin_snap (snapshot_of srv')"
proof (induction cmds arbitrary: srv)
  case (Cons cmd cmds)
  then show ?case by (auto simp: outcome_bind_Ret_iff dest: applyCommand_fin_snap)
qed simp

lemma applied_fin_snap: "applied h k s \<Longrightarrow> fin_snap s"
  by (auto simp: applied_def new_server_def snapshot_of_def fin_snap_def dest!: applyLog_fin_snap)

lemma applied_Suc:
  assumes "applied h k (snapshot_of srv)" "k < length h" "applyCommand (h ! k) srv = Ret (c, srv')"
  shows "applied h (Suc k) (snapshot_of srv')"
proof -
  obtain s where s: "applyLog (take k h) new_server = Ret s" "snapshot_of srv = snapshot_of s"
    using assms(1) by (auto simp: applied_def)
  obtain s' where "applyCommand (h ! k) s = Ret (c, s')" "snapshot_of srv' = snapshot_of s'"
    using applyCommand_frame [OF s(2) assms(3)] by blast
  with s assms(2) show ?thesis
    by (auto simp: applied_def take_Suc_conv_app_nth)
qed

definition replica_ok :: "(string \<Rightarrow> SnapshotRec option) \<Rightarrow> RequestArgs list \<Rightarrow> nat \<Rightarrow> KVServer \<Rightarrow> raft \<Rightarrow> bool" where
  "replica_ok decode h k srv rf \<longleftrightarrow>
     raft_ok rf \<and> snapshotIndex rf \<le> int k \<and> applied h k (snapshot_of srv) \<and> snapshot_right decode h rf"

lemma applied_0 [simp]: "applied h 0 (snapshot_of new_server)"
  by (auto simp: applied_def)

lemma snapshot_of_simps [simp]:
  "snapshot_of (srv\<lparr>topidx := i\<rparr>) = snapshot_of srv" "snapshot_of (srv\<lparr>maxraftsz := j\<rparr>) = snapshot_of srv"
  "snapshot_of (restore s srv) = s"
  by (simp_all add: snapshot_of_def restore_def)

lemma snapshot_right_same: "same_snapshot rf rf' \<Longrightarrow> snapshot_right decode h rf' = snapshot_right decode h rf"
  by (simp add: snapshot_right_def same_snapshot_def)

text \<open>A restart reads the snapshot that the consensus module saved.\<close>

lemma StartKVServer_restores:
  assumes "raft_ok rf" and "snapshot_right decode h rf" and "decode [] = None"
    and "StartKVServer decode i n (persisted rf) mx = Ret (srv', rf')"
  shows "replica_ok decode h (nat (snapshotIndex rf)) srv' rf'"
proof -
  obtain rf1 where rf1: "Make i n (persisted rf) = Ret rf1" "raft_ok rf1" "snapshot rf1 = snapshot rf"
    "snapshotIndex rf1 = snapshotIndex rf"
    using Make_restores [OF assms(1), of i n] by (auto simp: returns_iff)
  have nn: "0 \<le> snapshotIndex rf" using assms(1) by (simp add: raft_ok_def raft_wf_def)
  have start: "outcome_bind (pullLatestSnapshot decode (persisted rf) new_server) (\<lambda>srv.
      Ret (srv\<lparr>maxraftsz := mx\<rparr>, rf1)) = Ret (srv', rf')"
    using assms(4) rf1(1) by (simp add: StartKVServer_def new_server_def)
  have srv: "rf' = rf1 \<and> applied h (nat (snapshotIndex rf)) (snapshot_of srv')"
  proof (cases "persisted rf")
    case None
    then have "snapshotIndex rf = 0" using assms(1) by (auto simp: raft_ok_def saved_def)
    with start None show ?thesis by (auto simp: pullLatestSnapshot_def)
  next
    case (Some f)
    then have "persisted rf = Some (encoded rf)" using assms(1) by (auto simp: raft_ok_def saved_def)
    then have pull: "pullLatestSnapshot decode (persisted rf) new_server =
        (case decode (snapshot rf) of None \<Rightarrow> Ret new_server | Some s \<Rightarrow> Ret (restore s new_server))"
      by (simp add: pullLatestSnapshot_def encoded_def)
    consider "snapshotIndex rf = 0" "decode (snapshot rf) = None"
      | s where "decode (snapshot rf) = Some s" "applied h (nat (snapshotIndex rf)) s"
      using assms(2,3) by (auto simp: snapshot_right_def split: if_splits)
    then show ?thesis
      using start pull by cases auto
  qed
  moreover have "snapshot_right decode h rf1"
    using assms(2) rf1(3,4) by (simp add: snapshot_right_def)
  ultimately show ?thesis using rf1 nn by (simp add: replica_ok_def)
qed

text \<open>A snapshot of a replica that holds \<open>k\<close> commands.\<close>

lemma takeSnapshot_right:
  assumes "raft_ok rf" "topidx srv = int k" "0 < k" "int k \<le> appliedIdx rf" "applied h k (snapshot_of srv)"
    and dec: "codec fin_snap encode decode" and "takeSnapshot encode srv rf = Ret rf'"
  shows "raft_ok rf' \<and> snapshotIndex rf' = int k \<and> snapshot_right decode h rf'"
proof -
  have wf: "raft_wf rf" using assms(1) by (simp add: raft_ok_def)
  note D = raft_wfD [OF wf]
  obtain e where e: "entry_at rf (int k) = Ret e"
    "doInstallSnapshot (int k) (Term e) (encode (snapshot_of srv)) False rf = Ret rf'"
    using assms(2,7) by (auto simp: takeSnapshot_def Snapshot_def outcome_bind_Ret_iff)
  then have lt: "k < length (log rf)" and "log rf ! k \<noteq> None"
    by (auto simp: nthl_def deref_def outcome_bind_Ret_iff split: if_splits option.splits)
  then have "snapshotIndex rf \<le> int k" using D(3) [of k] by auto
  with e lt assms(4) doInstallSnapshot_ok [OF wf, of "int k" False "Term e" "encode (snapshot_of srv)"]
  have "raft_ok rf'" "snapshotIndex rf' = int k" "snapshot rf' = encode (snapshot_of srv)"
    by simp_all
  with assms(3,5) codecD(1) [OF dec applied_fin_snap [OF assms(5)]] show ?thesis by (simp add: snapshot_right_def)
qed

lemma deliver_ok:
  assumes "replica_ok decode h k srv rf" "k < length h" "int k < appliedIdx rf" "\<not> SnapshotValid v"
    "CommandValid v" "Command v = Some (h ! k)" "CommandIndex v = int k + 1"
    and dec: "codec fin_snap encode decode" and "manageApply encode decode bytes v srv rf = Ret (out, srv', rf')"
  shows "replica_ok decode h (Suc k) srv' rf'"
proof -
  obtain c srv1 where cmd: "applyCommand (h ! k) srv = Ret (c, srv1)" "srv' = srv1\<lparr>topidx := int k + 1\<rparr>"
    and snap: "rf' = rf \<or> takeSnapshot encode srv' rf = Ret rf'"
    using assms(4-7,9) by (auto simp: manageApply_def Let_def outcome_bind_Ret_iff split: if_splits)
  have app: "applied h (Suc k) (snapshot_of srv')"
    using applied_Suc [OF _ assms(2) cmd(1)] assms(1) cmd(2) by (simp add: replica_ok_def)
  from snap show ?thesis
  proof
    assume "rf' = rf"
    with assms(1) app show ?thesis by (auto simp: replica_ok_def)
  next
    assume "takeSnapshot encode srv' rf = Ret rf'"
    from takeSnapshot_right [OF _ _ _ _ app dec this] assms(1,3) cmd(2) app show ?thesis
      by (auto simp: replica_ok_def)
  qed
qed

lemma install_ok:
  assumes ok: "replica_ok decode h k srv rf" and ok2: "replica_ok decode h k2 srv2 rf2"
    and v: "SnapshotValid v" "Snapshot_data v = snapshot rf2" "SnapshotIndex v = snapshotIndex rf2"
    and "0 < snapshotIndex rf2" "int k \<le> snapshotIndex rf2"
    and run: "manageApply encode decode bytes v srv rf = Ret (out, srv', rf')"
  shows "replica_ok decode h (if recent (SnapshotIndex v) (SnapshotTerm v) rf then nat (SnapshotIndex v) else k) srv' rf'"
proof -
  have wf: "raft_wf rf" using ok by (simp add: replica_ok_def raft_ok_def)
  obtain s where s: "decode (snapshot rf2) = Some s" "applied h (nat (snapshotIndex rf2)) s"
    using ok2 assms(6) by (auto simp: replica_ok_def snapshot_right_def)
  show ?thesis
  proof (cases "recent (SnapshotIndex v) (SnapshotTerm v) rf")
    case False
    with run v s ok show ?thesis
      by (auto simp: manageApply_def considerApplyMsg_def CondInstallSnapshot_def otherIsRecent_wf [OF wf])
  next
    case True
    have "snapshotIndex rf \<le> snapshotIndex rf2" using ok assms(7) by (simp add: replica_ok_def)
    then have "raft_ok rf' \<and> snapshotIndex rf' = snapshotIndex rf2 \<and> snapshot rf' = snapshot rf2 \<and> srv' = restore s srv"
      using doInstallSnapshot_ok [OF wf, of "snapshotIndex rf2" True "SnapshotTerm v" "snapshot rf2"] run v s True
      by (auto simp: manageApply_def considerApplyMsg_def CondInstallSnapshot_def otherIsRecent_wf [OF wf] returns_iff)
    with s True v assms(6) show ?thesis by (auto simp: replica_ok_def snapshot_right_def)
  qed
qed

lemma replica_inv:
  assumes "replica encode decode bytes h k srv rf"
    and dec: "codec fin_snap encode decode"
  shows "replica_ok decode h k srv rf"
  using assms(1)
proof induction
  note nil = codecD(2) [OF dec]
  case (boot i n mx srv rf)
  obtain rf0 :: raft where rf0: "Make i n None = Ret rf0" "persisted rf0 = None" "snapshotIndex rf0 = 0" "snapshot rf0 = []"
    by (simp add: Make_fresh)
  have "replica_ok decode h (nat (snapshotIndex rf0)) srv rf"
    by (rule StartKVServer_restores [where i = i and n = n and mx = mx])
      (use raft_ok_fresh [OF rf0(1)] nil boot rf0 in \<open>simp_all add: snapshot_right_def\<close>)
  then show ?case by (simp add: rf0)
next
  case (consensus k srv rf e rf')
  then have "raft_ok rf'" using raft_exec_ok [of rf e] by (auto simp: replica_ok_def)
  moreover have "same_snapshot rf rf'" using raft_exec_same [OF consensus.hyps(3), of rf] consensus.hyps(4) by simp
  ultimately show ?case
    using consensus.IH snapshot_right_same [of rf rf' decode h] by (simp add: replica_ok_def same_snapshot_def)
next
  case (deliver k srv rf v out srv' rf')
  then show ?case using deliver_ok dec by blast
next
  case (install k srv rf k2 srv2 rf2 v out srv' rf' k')
  then show ?case using install_ok by blast
next
  case (restart k srv rf i n mx srv' rf')
  then have "raft_ok rf" "snapshot_right decode h rf" by (simp_all add: replica_ok_def)
  from StartKVServer_restores [OF this codecD(2) [OF dec] restart.hyps(2)] show ?case .
qed

lemma replica_raft_run:
  "replica encode decode bytes h k srv rf \<Longrightarrow> evs_enabled es rf \<Longrightarrow> \<forall>e \<in> set es. \<not> snapshot_ev e \<Longrightarrow>
   raft_run es rf = Ret rf' \<Longrightarrow> replica encode decode bytes h k srv rf'"
proof (induction es arbitrary: rf)
  case (Cons e es)
  then obtain rf1 where rf1: "raft_exec e rf = Ret rf1" "raft_run es rf1 = Ret rf'"
    by (auto simp: outcome_bind_Ret_iff)
  with Cons.prems have "replica encode decode bytes h k srv rf1"
    by (auto intro: replica.consensus)
  with Cons.IH Cons.prems rf1 show ?case by simp
qed simp

definition witness_acquire :: RequestArgs where
  "witness_acquire = \<lparr>ClientId = 7, Seq = 1, Code = AcquireOp, Key = ''5'', Value = ''100''\<rparr>"

definition witness_elected :: "RequestArgs raft_ev list" where
  "witness_elected =
     [EvWake 0, EvCandidate, EvPoll \<lparr>votes = 1, killed = False\<rparr>, EvStart witness_acquire, EvHeartbeat 5, EvRvwCommits]"

lemma pullLatestSnapshot_returns:
  "raft_ok rf \<Longrightarrow> returns (pullLatestSnapshot decode (persisted rf) srv) (\<lambda>_. True)"
  by (auto simp: pullLatestSnapshot_def raft_ok_def saved_def encoded_def split: option.splits)

lemma StartKVServer_returns:
  assumes "raft_ok rf"
  shows "returns (StartKVServer decode i n (persisted rf) mx) (\<lambda>(srv', rf').
    log rf' = log rf \<and> commitIdx rf' = snapshotIndex rf \<and> snapshotIndex rf' = snapshotIndex rf)"
proof -
  obtain srv where "pullLatestSnapshot decode (persisted rf) new_server = Ret srv"
    using pullLatestSnapshot_returns [OF assms] by (auto simp: returns_iff)
  moreover obtain rf' where "Make i n (persisted rf) = Ret rf'" "log rf' = log rf" "commitIdx rf' = snapshotIndex rf"
    "snapshotIndex rf' = snapshotIndex rf"
    using Make_restores [OF assms, of i n] by (auto simp: returns_iff)
  ultimately show ?thesis by (simp add: StartKVServer_def new_server_def)
qed

subsection \<open>Properties\<close>

text \<open>A codec for snapshots.\<close>

definition witness_encode :: "SnapshotRec \<Rightarrow> string" where
  "witness_encode s = unary (entries (ss_Kvm s), entries (ss_Unwritten s), entries (ss_Unseen s), entries (ss_Last s))"

definition witness_decode :: "string \<Rightarrow> SnapshotRec option" where
  "witness_decode str = map_option (\<lambda>(k, w, n, l).
     \<lparr>ss_Kvm = map_of k, ss_Unwritten = map_of w, ss_Unseen = map_of n, ss_Last = map_of l\<rparr>) (from_unary str)"

lemma witness_codec: "codec fin_snap witness_encode witness_decode"
  using codec_map [OF codec_unary, where f = "\<lambda>s. (entries (ss_Kvm s), entries (ss_Unwritten s), entries (ss_Unseen s), entries (ss_Last s))"
      and g = "\<lambda>(k, w, n, l). \<lparr>ss_Kvm = map_of k, ss_Unwritten = map_of w, ss_Unseen = map_of n, ss_Last = map_of l\<rparr>"
      and ok = fin_snap]
  by (simp add: witness_encode_def [abs_def] witness_decode_def [abs_def] fin_snap_def map_of_entries)

lemma witness_replica:
  "\<exists>srv rf. replica witness_encode witness_decode (\<lambda>_. 10) [witness_acquire] 1 srv rf \<and> snapshotIndex rf = 1"
proof -
  let ?R = "replica witness_encode witness_decode (\<lambda>_. 10) [witness_acquire]"
  let ?rf0 = "\<lparr>me = 0, npeers = 1, persisted = None, term = 0, votedFor = - 1, st = follower, ts = 0,
    log = [Some \<lparr>Term = 0, Cmd = None\<rparr>], commitIdx = 0, appliedIdx = 0, disam = [], nextForServer = [],
    atServer = [], msgFlag = False, snapshot = [], snapshotIndex = 0\<rparr> :: raft"
  let ?v = "\<lparr>CommandValid = True, Command = Some witness_acquire, CommandIndex = 1, SnapshotValid = False,
    Snapshot_data = [], SnapshotTerm = 0, SnapshotIndex = 0\<rparr>"
  let ?srv = "new_server\<lparr>maxraftsz := 5\<rparr>"
  have boot: "?R 0 ?srv ?rf0"
    by (rule replica.boot [of _ 0 1 5])
      (simp add: StartKVServer_def pullLatestSnapshot_def Make_fresh new_server_def)
  obtain rf1 where rf1: "raft_run witness_elected ?rf0 = Ret rf1" "appliedIdx rf1 = 1"
    "log rf1 = [Some \<lparr>Term = 0, Cmd = None\<rparr>, Some \<lparr>Term = 1, Cmd = Some witness_acquire\<rparr>]" "snapshotIndex rf1 = 0"
    "persisted rf1 \<noteq> None"
    by (simp add: witness_elected_def raft_exec_defs upt_rec upto.simps)
  have "evs_enabled witness_elected ?rf0"
    by (simp add: witness_elected_def raft_exec_defs tracks_peers_def upt_rec upto.simps)
  from replica_raft_run [OF boot this _ rf1(1)] have elected: "?R 0 ?srv rf1"
    by (simp add: witness_elected_def)
  obtain c srv1 where srv1: "applyCommand witness_acquire ?srv = Ret (c, srv1)" "maxraftsz srv1 = 5"
    by (simp add: applyCommand_def new_server_def witness_acquire_def note_client_def note_seq_def commitOp_def
        ex_bool_eq Let_def)
  have "shouldSnapshot (\<lambda>_. 10) (srv1\<lparr>topidx := 1\<rparr>) rf1"
    using srv1(2) rf1(5) by (auto simp: shouldSnapshot_def RaftStateSize_def)
  moreover obtain rf2 where "takeSnapshot witness_encode (srv1\<lparr>topidx := 1\<rparr>) rf1 = Ret rf2" and rf2: "snapshotIndex rf2 = 1"
    using rf1(3,4)
    by (simp add: takeSnapshot_def Snapshot_def doInstallSnapshot_def nthl_def deref_def updl_def persist_def
        SaveRaftState_def Let_def upto.simps)
  ultimately obtain out where
    "manageApply witness_encode witness_decode (\<lambda>_. 10) ?v ?srv rf1 = Ret (out, srv1\<lparr>topidx := 1\<rparr>, rf2)"
    using srv1(1) by (simp add: manageApply_def)
  from replica.deliver [OF elected _ _ _ _ _ _ this] rf1(2) have "?R 1 (srv1\<lparr>topidx := 1\<rparr>) rf2" by simp
  with rf2 show ?thesis by blast
qed



text \<open>
  C17: a replica always comes back. From any state it can be in, the start of a server on its state
  file succeeds; the log is back, the commit index is at the last snapshot, and the tables are
  those the commands up to there give, so that delivering the commands after it again leads to
  where the replica was.
\<close>

theorem replica_restarts:
  assumes "codec fin_snap encode decode"
    and "replica encode decode bytes h k srv rf"
  shows "\<exists>srv' rf' s. StartKVServer decode i n (persisted rf) mx = Ret (srv', rf') \<and>
    log rf' = log rf \<and> commitIdx rf' = snapshotIndex rf \<and> snapshotIndex rf \<le> int k \<and>
    applyLog (take (nat (snapshotIndex rf)) h) new_server = Ret s \<and> snapshot_of srv' = snapshot_of s \<and>
    returns (applyLog (take (k - nat (snapshotIndex rf)) (drop (nat (snapshotIndex rf)) h)) s)
      (\<lambda>s'. snapshot_of s' = snapshot_of srv)"
proof -
  note ok = replica_inv [OF assms(2,1)]
  then have raft: "raft_ok rf" by (simp add: replica_ok_def)
  obtain srv' rf' where start: "StartKVServer decode i n (persisted rf) mx = Ret (srv', rf')"
    and rf': "log rf' = log rf" "commitIdx rf' = snapshotIndex rf"
    using StartKVServer_returns [OF raft, of decode i n mx] by (auto simp: returns_iff)
  have "replica encode decode bytes h (nat (snapshotIndex rf)) srv' rf'"
    using assms(2) start by (rule replica.restart)
  from replica_inv [OF this assms(1)] obtain s where
    s: "applyLog (take (nat (snapshotIndex rf)) h) new_server = Ret s" "snapshot_of srv' = snapshot_of s"
    by (auto simp: replica_ok_def applied_def)
  have le: "nat (snapshotIndex rf) \<le> k" "snapshotIndex rf \<le> int k" using ok by (auto simp: replica_ok_def)
  then have "take k h = take (nat (snapshotIndex rf)) h @ take (k - nat (snapshotIndex rf)) (drop (nat (snapshotIndex rf)) h)"
    by (metis le_add_diff_inverse take_add)
  moreover obtain s' where "applyLog (take k h) new_server = Ret s'" "snapshot_of s' = snapshot_of srv"
    using ok by (auto simp: replica_ok_def applied_def)
  ultimately show ?thesis using start rf' s le by (auto simp: returns_iff)
qed

theorem replica_restarts_witness:
  "\<exists>srv rf srv' rf'. replica witness_encode witness_decode (\<lambda>_. 10) [witness_acquire] 1 srv rf \<and>
     StartKVServer witness_decode 0 1 (persisted rf) 5 = Ret (srv', rf') \<and> commitIdx rf' = 1"
proof -
  obtain srv rf where R: "replica witness_encode witness_decode (\<lambda>_. 10) [witness_acquire] 1 srv rf" "snapshotIndex rf = 1"
    using witness_replica by blast
  with replica_restarts [OF witness_codec R(1), of 0 1 5] show ?thesis by auto
qed

end
