(* ===== verification/Boot.thy ===== *)
theory Boot
  imports Netdrv KvReplica
begin

section \<open>A server machine starts: main.go, raft/svc.go and the calls of raft.go\<close>

text \<open>
  A machine with the role of a server registers with the name server, finds its number among the
  servers, restores its state from the state file and connects to all servers, itself included. A
  call of a peer that fails starts a goroutine that dials the peer again. The connection to an
  address is the address; \<open>send\<close> is \<open>rpc.Client.Call\<close>.
\<close>

subsection \<open>svc.go\<close>

definition svcServer :: "'s netops \<Rightarrow> NetConfig \<Rightarrow> nat \<Rightarrow> string list \<Rightarrow> ('s, string list) io" where
  "svcServer nw c idx peers =
     (if length (Servers c) \<le> idx then io_fatal ''index out of range''
      else
        io_bind (dial_retry nw (Servers c ! idx)) (\<lambda>conn.
          if length peers \<le> idx then io_fatal ''index out of range'' else io_return (peers[idx := conn])))"

subsection \<open>raft.go: calls of peers\<close>

text \<open>The reply of a call, if there is one, and the peers that are to be dialled again.\<close>

definition call_peer ::
  "(string \<Rightarrow> string \<Rightarrow> 'a \<Rightarrow> ('s, 'r option) io) \<Rightarrow> string list \<Rightarrow> string \<Rightarrow> nat \<Rightarrow> 'a \<Rightarrow> ('s, 'r option \<times> nat list) io"
where
  "call_peer send peers meth server args =
     (if length peers \<le> server then io_fatal ''index out of range''
      else io_bind (send (peers ! server) meth args) (\<lambda>r. io_return (r, if r = None then [server] else [])))"

definition doRV ::
  "(string \<Rightarrow> string \<Rightarrow> RequestVoteArgs \<Rightarrow> ('s, RequestVoteReply option) io) \<Rightarrow> string list \<Rightarrow> nat \<Rightarrow> RequestVoteArgs \<Rightarrow>
   ('s, RequestVoteReply option \<times> nat list) io"
where
  "doRV send peers = call_peer send peers ''Raft.RequestVote''"

definition doAE ::
  "(string \<Rightarrow> string \<Rightarrow> 'c AppendEntriesArgs \<Rightarrow> ('s, AppendEntriesReply option) io) \<Rightarrow> string list \<Rightarrow> nat \<Rightarrow>
   'c AppendEntriesArgs \<Rightarrow> ('s, AppendEntriesReply option \<times> nat list) io"
where
  "doAE send peers = call_peer send peers ''Raft.AppendEntries''"

definition doIS ::
  "(string \<Rightarrow> string \<Rightarrow> InstallSnapshotArgs \<Rightarrow> ('s, InstallSnapshotReply option) io) \<Rightarrow> string list \<Rightarrow> nat \<Rightarrow>
   InstallSnapshotArgs \<Rightarrow> ('s, InstallSnapshotReply option \<times> nat list) io"
where
  "doIS send peers = call_peer send peers ''Raft.InstallSnapshot''"

subsection \<open>main.go: the server\<close>

text \<open>
  \<open>StartKVServer\<close> restores the store, then \<open>Make\<close> restores the consensus module and dials all servers
  (raft.go, line 460). \<open>file\<close> is the content of the state file.
\<close>

definition server_main ::
  "'s netops \<Rightarrow> (string \<Rightarrow> SnapshotRec option) \<Rightarrow> RequestArgs gob list option \<Rightarrow> string \<Rightarrow>
   ('s, KVServer \<times> raft \<times> string list) io"
where
  "server_main nw decode state nsAddr =
     io_bind (MkDefaultNetConfig nw True True nsAddr) (\<lambda>rc.
     io_bind (GetMe nw rc) (\<lambda>(me, err).
       case err of
         Some e \<Rightarrow> io_fatal e
       | None \<Rightarrow>
           io_bind (io_of_outcome (StartKVServer decode (int me) (length (Servers rc)) state 50)) (\<lambda>(kv, rf).
           io_bind (DialAll nw (Servers rc)) (\<lambda>peers. io_return (kv, rf, peers)))))"

subsection \<open>fns.go: delivery and times\<close>

text \<open>
  One round of \<open>disambiguator\<close>: it takes the oldest message of the buffer and sends it on the apply
  channel; with an empty buffer it waits. A buffer that is full keeps the sender waiting.
\<close>

definition disambiguator :: "'c Raft \<Rightarrow> ('c ApplyMsg \<times> 'c Raft) option" where
  "disambiguator rf = (case disam rf of [] \<Rightarrow> None | msg # rest \<Rightarrow> Some (msg, rf\<lparr>disam := rest\<rparr>))"

fun disambiguate :: "nat \<Rightarrow> 'c Raft \<Rightarrow> 'c ApplyMsg list \<times> 'c Raft" where
  "disambiguate 0 rf = ([], rf)"
| "disambiguate (Suc n) rf =
     (case disambiguator rf of
        None \<Rightarrow> ([], rf)
      | Some (msg, rf1) \<Rightarrow> (let (msgs, rf2) = disambiguate n rf1 in (msg # msgs, rf2)))"

lemma disambiguate_in_order: "disambiguate n rf = (take n (disam rf), rf\<lparr>disam := drop n (disam rf)\<rparr>)"
  by (induction n arbitrary: rf) (auto simp: disambiguator_def split: list.split)

text \<open>\<open>Intn(maxWait - minWait)\<close> is the argument \<open>r\<close>, the time in nanoseconds the argument \<open>ns\<close>.\<close>

definition genInterval :: "int \<Rightarrow> int" where
  "genInterval r = r + minWait"

definition mkTimeMs :: "int \<Rightarrow> int" where
  "mkTimeMs ns = ns div 1000000"

lemma genInterval_range: "0 \<le> r \<Longrightarrow> r < maxWait - minWait \<Longrightarrow> hbMs < genInterval r \<and> genInterval r < maxWait"
  by (simp add: genInterval_def minWait_def maxWait_def hbMs_def)

subsection \<open>A server starts where it stopped\<close>

lemma MkDefaultNetConfig_IsRaft: "MkDefaultNetConfig nw isRaft register nsAddr w = Some (Ret c, w') \<Longrightarrow> IsRaft c = isRaft"
  by (auto simp: MkDefaultNetConfig_def io_bind_def io_return_def split: option.splits outcome.splits)

lemma GetMe_absent:
  assumes "IsRaft c" "ip @ '':1234'' \<notin> set (Servers c)"
  shows "GetMe (world_net keys ip) c w = Some (Ret (0, Some ''i'm not in any server lists; check staticaddr.go''), w)"
proof -
  have "find (\<lambda>i. Servers c ! i = ip @ '':1234'') [0..<length (Servers c)] = None"
    using assms(2) by (auto simp: find_None_iff in_set_conv_nth)
  then show ?thesis using assms(1) by (simp add: GetMe_def getMyIp_world Let_def) (simp add: io_return_def)
qed

lemma DialAll_world: "DialAll (world_net keys ip) as w = Some (Ret as, w)"
proof -
  have "dial_retry (world_net keys ip) a w = Some (Ret a, w)" for a w
    by (subst dial_retry.simps) (simp add: world_net_def io_bind_def io_return_def)
  then show ?thesis by (induction as) (simp_all add: io_bind_def io_return_def)
qed

lemma StartKVServer_restarts:
  assumes "raft_ok old"
  shows "\<exists>kv rf. StartKVServer decode i n (persisted old) mx = Ret (kv, rf) \<and> raft_ok rf \<and> me rf = i \<and> npeers rf = n \<and>
    st rf = follower \<and> term rf = term old \<and> votedFor rf = votedFor old \<and> log rf = log old"
proof -
  obtain srv where "pullLatestSnapshot decode (persisted old) new_server = Ret srv"
    using pullLatestSnapshot_returns [OF assms] by (auto simp: returns_iff)
  moreover obtain rf where "Make i n (persisted old) = Ret rf" "raft_ok rf" "me rf = i" "npeers rf = n" "st rf = follower"
    "term rf = term old" "votedFor rf = votedFor old" "log rf = log old"
    using Make_restores [OF assms, of i n] by (auto simp: returns_iff)
  ultimately show ?thesis by (simp add: StartKVServer_def new_server_def)
qed

text \<open>
  C26: a server machine boots. While other machines register in any order, a machine that starts as a
  server comes to the end of its start-up as soon as three machines are known. If it is one of the
  first three registered addresses, its number is its position among them, it is connected to all
  three, and it is a follower with the term, the vote and the log of its state file; otherwise it
  stops with an error. Every machine sees the same three servers.
\<close>

theorem server_boots:
  assumes "visits keys" and "ns_is (w_ns w) xs" and "length xs + length (w_pending w) < 2 ^ 63 - 1"
    and "3 \<le> card (insert ip (set xs \<union> set (w_pending w)))" and "raft_ok old"
  shows "\<exists>w' ys. ns_is (w_ns w') ys \<and> prefix xs ys \<and> 3 \<le> length ys \<and>
    (if ip \<in> set (take 3 ys)
     then \<exists>kv rf i. server_main (world_net keys ip) decode (persisted old) nsAddr w
         = Some (Ret (kv, rf, map (\<lambda>a. a @ '':1234'') (take 3 ys)), w') \<and> i < 3 \<and> ys ! i = ip \<and> me rf = int i \<and>
       npeers rf = 3 \<and> st rf = follower \<and> term rf = term old \<and> votedFor rf = votedFor old \<and> log rf = log old \<and> raft_ok rf
     else \<exists>e. server_main (world_net keys ip) decode (persisted old) nsAddr w = Some (Fatal e, w'))"
proof -
  let ?nw = "world_net keys ip" and ?port = "\<lambda>a. a @ '':1234''"
  obtain c w' ys where run: "MkDefaultNetConfig ?nw True True nsAddr w = Some (Ret c, w')"
    and ys: "ns_is (w_ns w') ys" "prefix xs ys" "3 \<le> length ys" and srv: "Servers c = map ?port (take 3 ys)"
    and me: "\<And>i. i < 3 \<Longrightarrow> ys ! i = ip \<Longrightarrow> GetMe ?nw c w' = Some (Ret (i, None), w')"
    using config_agrees [OF assms(1-4), of True nsAddr] by auto
  have raft: "IsRaft c" using MkDefaultNetConfig_IsRaft [OF run] by simp
  show ?thesis
  proof (cases "ip \<in> set (take 3 ys)")
    case True
    then obtain i where i: "i < 3" "ys ! i = ip" by (auto simp: in_set_conv_nth)
    obtain kv rf where rf: "StartKVServer decode (int i) 3 (persisted old) 50 = Ret (kv, rf)" "raft_ok rf" "me rf = int i"
      "npeers rf = 3" "st rf = follower" "term rf = term old" "votedFor rf = votedFor old" "log rf = log old"
      using StartKVServer_restarts [OF assms(5)] by metis
    have "server_main ?nw decode (persisted old) nsAddr w = Some (Ret (kv, rf, Servers c), w')"
      using run me [OF i] rf(1) ys(3) srv DialAll_world [of keys ip]
      by (simp add: server_main_def io_bind_def io_of_outcome_def io_return_def)
    with True rf i ys srv show ?thesis by auto
  next
    case False
    then have "?port ip \<notin> set (Servers c)" by (auto simp: srv)
    from GetMe_absent [OF raft this] have "\<exists>e. server_main ?nw decode (persisted old) nsAddr w = Some (Fatal e, w')"
      using run by (simp add: server_main_def io_bind_def io_fatal_def)
    with False ys show ?thesis by auto
  qed
qed

theorem server_boots_witness:
  "\<exists>w' ys. ns_is (w_ns w') ys \<and> 3 \<le> length ys \<and>
    (if ''10.0.0.1'' \<in> set (take 3 ys)
     then \<exists>kv rf i. server_main (world_net (\<lambda>n. sorted_list_of_set (dom (ns_names n))) ''10.0.0.1'') (\<lambda>_. None) None ''10.0.0.9''
         \<lparr>w_ns = new_nameserver, w_pending = [''10.0.0.2'', ''10.0.0.3'']\<rparr>
         = Some (Ret (kv, rf, map (\<lambda>a. a @ '':1234'') (take 3 ys)), w') \<and> i < 3 \<and> ys ! i = ''10.0.0.1'' \<and> me rf = int i
     else \<exists>e. server_main (world_net (\<lambda>n. sorted_list_of_set (dom (ns_names n))) ''10.0.0.1'') (\<lambda>_. None) None ''10.0.0.9''
         \<lparr>w_ns = new_nameserver, w_pending = [''10.0.0.2'', ''10.0.0.3'']\<rparr> = Some (Fatal e, w'))"
proof -
  let ?w = "\<lparr>w_ns = new_nameserver, w_pending = [''10.0.0.2'', ''10.0.0.3'']\<rparr>"
  let ?keys = "\<lambda>n. sorted_list_of_set (dom (ns_names n))"
  obtain old :: raft where "Make 0 3 None = Ret old" by (simp add: Make_fresh)
  then have old: "raft_ok old" "persisted old = None" using raft_ok_fresh by (auto simp: Make_fresh)
  have v: "visits ?keys" by (simp add: visits_def)
  have n: "ns_is (w_ns ?w) []" "3 \<le> card (insert ''10.0.0.1'' (set [] \<union> set (w_pending ?w)))"
    by (simp_all add: new_nameserver_is card_insert_if)
  have len: "length ([] :: string list) + length (w_pending ?w) < 2 ^ 63 - 1" by simp
  from server_boots [OF v n(1) len n(2) old(1), of "\<lambda>_. None" "''10.0.0.9''"] obtain w' ys where
    "ns_is (w_ns w') ys" "3 \<le> length ys"
    "if ''10.0.0.1'' \<in> set (take 3 ys)
     then \<exists>kv rf i. server_main (world_net ?keys ''10.0.0.1'') (\<lambda>_. None) None ''10.0.0.9'' ?w
         = Some (Ret (kv, rf, map (\<lambda>a. a @ '':1234'') (take 3 ys)), w') \<and> i < 3 \<and> ys ! i = ''10.0.0.1'' \<and> me rf = int i \<and>
       npeers rf = 3 \<and> st rf = follower \<and> term rf = term old \<and> votedFor rf = votedFor old \<and> log rf = log old \<and> raft_ok rf
     else \<exists>e. server_main (world_net ?keys ''10.0.0.1'') (\<lambda>_. None) None ''10.0.0.9'' ?w = Some (Fatal e, w')"
    unfolding old(2) by blast
  then show ?thesis by (intro exI [of _ w'] exI [of _ ys]) (auto split: if_splits)
qed

end
