(* ===== verification/Raft_Election.thy ===== *)
theory Raft_Election
  imports Raft_Inv
begin

section \<open>Elections\<close>

text \<open>
  A cluster of servers that exchange ballots, lose them, crash and restart, and run every other
  atomic section of \<open>Raft\<close> on any message whatever; and the proof that no term has two leaders.
\<close>

subsection \<open>Quorums\<close>

text \<open>
  The contract of a quorum system: any two quorums share a member. The client's lemma is the
  argument of every vote: if no member supports two sides, at most one side has a quorum.
\<close>

locale quorum_system =
  fixes quorum :: "'p set \<Rightarrow> bool"
  assumes intersect: "quorum A \<Longrightarrow> quorum B \<Longrightarrow> A \<inter> B \<noteq> {}"
begin

lemma unique_winner:
  assumes "quorum A" "quorum B" "\<And>p. p \<in> A \<Longrightarrow> supports p x" "\<And>p. p \<in> B \<Longrightarrow> supports p y"
    and "\<And>p. supports p x \<Longrightarrow> supports p y \<Longrightarrow> x = y"
  shows "x = y"
  using intersect [OF assms(1,2)] assms(3-5) by blast

end

definition majority :: "nat \<Rightarrow> nat set \<Rightarrow> bool" where
  "majority n S \<longleftrightarrow> S \<subseteq> {..<n} \<and> n div 2 < card S"

interpretation maj: quorum_system "majority n" for n
proof
  fix A B assume A: "majority n A" and B: "majority n B"
  show "A \<inter> B \<noteq> {}"
  proof
    assume "A \<inter> B = {}"
    then have "card (A \<union> B) = card A + card B"
      using A B finite_subset [of _ "{..<n}"] by (intro card_Un_disjoint) (auto simp: majority_def)
    moreover have "card (A \<union> B) \<le> n"
      using card_mono [of "{..<n}" "A \<union> B"] A B by (simp add: majority_def)
    moreover have "n div 2 + 1 \<le> card A" "n div 2 + 1 \<le> card B" using A B by (auto simp: majority_def)
    ultimately show False by linarith
  qed
qed

subsection \<open>The cluster\<close>

text \<open>
  \<open>ballots s i T j\<close> is what became of the ballot of server \<open>i\<close> for term \<open>T\<close> to peer \<open>j\<close>, each the job of
  one goroutine; \<open>counters s i T\<close> is the vote counter of that election; \<open>phase s i\<close> is where the
  timer of \<open>i\<close> is: outside of \<open>beCandidate\<close>, between \<open>beCandidate\<close> and the ballots of \<open>runElection\<close>, or
  polling for the election of a term. \<open>voted\<close> is the history of the votes given.
\<close>

datatype bstat = NoBallot | Sent RequestVoteArgs | Answered RequestVoteReply | Done bool

datatype phase = Away | Between | Polling int

record 'c cluster =
  srv :: "nat \<Rightarrow> 'c Raft"
  ballots :: "nat \<Rightarrow> int \<Rightarrow> nat \<Rightarrow> bstat"
  counters :: "nat \<Rightarrow> int \<Rightarrow> voteCounter"
  phase :: "nat \<Rightarrow> phase"
  voted :: "(int \<times> nat \<times> nat) set"

definition upd_srv :: "nat \<Rightarrow> 'c Raft \<Rightarrow> 'c cluster \<Rightarrow> 'c cluster" where
  "upd_srv i rf s = s\<lparr>srv := (srv s)(i := rf)\<rparr>"

definition upd_ballot :: "nat \<Rightarrow> int \<Rightarrow> nat \<Rightarrow> bstat \<Rightarrow> 'c cluster \<Rightarrow> 'c cluster" where
  "upd_ballot i T j b s = s\<lparr>ballots := (ballots s)(i := (ballots s i)(T := (ballots s i T)(j := b)))\<rparr>"

definition upd_counter :: "nat \<Rightarrow> int \<Rightarrow> voteCounter \<Rightarrow> 'c cluster \<Rightarrow> 'c cluster" where
  "upd_counter i T vc s = s\<lparr>counters := (counters s)(i := (counters s i)(T := vc))\<rparr>"

definition upd_phase :: "nat \<Rightarrow> phase \<Rightarrow> 'c cluster \<Rightarrow> 'c cluster" where
  "upd_phase i p s = s\<lparr>phase := (phase s)(i := p)\<rparr>"

definition add_vote :: "int \<Rightarrow> nat \<Rightarrow> nat \<Rightarrow> 'c cluster \<Rightarrow> 'c cluster" where
  "add_vote T j i s = s\<lparr>voted := insert (T, j, i) (voted s)\<rparr>"

text \<open>
  The steps. A reply to a server that restarted in the meantime is allowed to reach the restarted
  one, which is more than the network does.
\<close>

inductive cstep :: "nat \<Rightarrow> 'c cluster \<Rightarrow> 'c cluster \<Rightarrow> bool" for n :: nat where
  quiet_step:
    "i < n \<Longrightarrow> quiet_ev e \<Longrightarrow> ev_enabled e (srv s i) \<Longrightarrow> raft_exec e (srv s i) = Ret rf \<Longrightarrow>
     cstep n s (upd_srv i rf s)"
| wake:
    "i < n \<Longrightarrow> phase s i = Away \<Longrightarrow> cstep n s (upd_srv i (snd (ticker_wake t (srv s i))) s)"
| run_for_leader:
    "i < n \<Longrightarrow> phase s i = Away \<Longrightarrow> st (srv s i) \<noteq> leader \<Longrightarrow> candidate_round (srv s i) = Ret rf \<Longrightarrow>
     cstep n s (upd_phase i Between (add_vote (term rf) i i (upd_srv i rf s)))"
| send_ballots:
    "i < n \<Longrightarrow> phase s i = Between \<Longrightarrow> election_ballot (srv s i) = Ret args \<Longrightarrow> T = term (srv s i) \<Longrightarrow>
     cstep n s (upd_phase i (Polling T) (upd_counter i T (new_counter (srv s i))
       (s\<lparr>ballots := (ballots s)(i := (ballots s i)(T := (\<lambda>j. if j < n \<and> j \<noteq> i then Sent args else NoBallot)))\<rparr>)))"
| deliver_ballot:
    "i < n \<Longrightarrow> j < n \<Longrightarrow> ballots s i T j = Sent args \<Longrightarrow> RequestVote now args (srv s j) = Ret (rep, rf) \<Longrightarrow>
     cstep n s (upd_ballot i T j (Answered rep)
       (if VoteGranted rep then add_vote T j i (upd_srv j rf s) else upd_srv j rf s))"
| receive_reply:
    "i < n \<Longrightarrow> j < n \<Longrightarrow> ballots s i T j = Answered rep \<Longrightarrow>
     ballot_reply rep (srv s i) (counters s i T) = Ret (rf, vc) \<Longrightarrow>
     cstep n s (upd_ballot i T j (Done (rvr_Term rep \<le> term (srv s i) \<and> VoteGranted rep))
       (upd_counter i T vc (upd_srv i rf s)))"
| lose:
    "i < n \<Longrightarrow> ballots s i T j \<noteq> NoBallot \<Longrightarrow> \<not> (\<exists>b. ballots s i T j = Done b) \<Longrightarrow>
     cstep n s (upd_ballot i T j (Done False) s)"
| poll:
    "i < n \<Longrightarrow> phase s i = Polling T \<Longrightarrow> election_poll (counters s i T) (srv s i) = (fin, rf) \<Longrightarrow>
     cstep n s (upd_phase i (if fin then Away else Polling T) (upd_srv i rf s))"
| time_out:
    "i < n \<Longrightarrow> phase s i = Polling T \<Longrightarrow> cstep n s (upd_phase i Away s)"
| restart:
    "i < n \<Longrightarrow> Make (int i) n (persisted (srv s i)) = Ret rf \<Longrightarrow>
     cstep n s (upd_phase i Away (upd_srv i rf s))"

definition fresh_server :: "nat \<Rightarrow> nat \<Rightarrow> 'c Raft" where
  "fresh_server n i = (case Make (int i) n None of Ret rf \<Rightarrow> rf)"

definition cinit :: "nat \<Rightarrow> 'c cluster" where
  "cinit n = \<lparr>srv = fresh_server n, ballots = (\<lambda>i T j. NoBallot),
     counters = (\<lambda>i T. \<lparr>votes = 0, killed = False\<rparr>), phase = (\<lambda>i. Away), voted = {}\<rparr>"

inductive reachable :: "nat \<Rightarrow> 'c cluster \<Rightarrow> bool" for n :: nat where
  init: "reachable n (cinit n)"
| step: "reachable n s \<Longrightarrow> cstep n s s' \<Longrightarrow> reachable n s'"

subsection \<open>The invariant\<close>

fun ballot_ok :: "(int \<times> nat \<times> nat) set \<Rightarrow> nat \<Rightarrow> int \<Rightarrow> nat \<Rightarrow> bstat \<Rightarrow> bool" where
  "ballot_ok V i T j NoBallot = True"
| "ballot_ok V i T j (Sent args) = (rva_Term args = T \<and> rva_CandidateId args = int i)"
| "ballot_ok V i T j (Answered rep) = (VoteGranted rep \<longrightarrow> (T, j, i) \<in> V)"
| "ballot_ok V i T j (Done b) = (b \<longrightarrow> (T, j, i) \<in> V)"

text \<open>
  What holds of server \<open>i\<close> with state \<open>rf\<close>, timer \<open>p\<close>, counters \<open>cs\<close> and ballots \<open>bs\<close>, where \<open>V\<close> are the
  votes given so far.
\<close>

definition node_ok ::
  "nat \<Rightarrow> (int \<times> nat \<times> nat) set \<Rightarrow> nat \<Rightarrow> 'c Raft \<Rightarrow> phase \<Rightarrow> (int \<Rightarrow> voteCounter) \<Rightarrow> (int \<Rightarrow> nat \<Rightarrow> bstat) \<Rightarrow> bool"
where
  "node_ok n V i rf p cs bs \<longleftrightarrow>
     (raft_ok rf \<and> me rf = int i \<and> npeers rf = n) \<and>
     (\<forall>T j. bs T j \<noteq> NoBallot \<longrightarrow> j < n \<and> j \<noteq> i \<and> T \<le> term rf \<and> (p = Between \<longrightarrow> T < term rf) \<and>
        ballot_ok V i T j (bs T j)) \<and>
     (p \<noteq> Away \<longrightarrow> st rf \<noteq> leader) \<and>
     (p = Between \<longrightarrow> st rf = candidate \<longrightarrow> (term rf, i, i) \<in> V) \<and>
     (\<forall>T. p = Polling T \<longrightarrow> (st rf = candidate \<longrightarrow> term rf = T \<and> (T, i, i) \<in> V) \<and>
        votes (cs T) = 1 + int (card {j. bs T j = Done True})) \<and>
     (st rf = leader \<longrightarrow> (\<exists>S. majority n S \<and> (\<forall>j \<in> S. (term rf, j, i) \<in> V)))"

definition votes_ok :: "nat \<Rightarrow> (int \<times> nat \<times> nat) set \<Rightarrow> (nat \<Rightarrow> 'c Raft) \<Rightarrow> bool" where
  "votes_ok n V rfs \<longleftrightarrow>
     (\<forall>T j c. (T, j, c) \<in> V \<longrightarrow> j < n \<and> T \<le> term (rfs j) \<and> (T = term (rfs j) \<longrightarrow> votedFor (rfs j) = int c)) \<and>
     (\<forall>T j c c'. (T, j, c) \<in> V \<longrightarrow> (T, j, c') \<in> V \<longrightarrow> c = c')"

definition cluster_inv :: "nat \<Rightarrow> 'c cluster \<Rightarrow> bool" where
  "cluster_inv n s \<longleftrightarrow>
     (\<forall>i < n. node_ok n (voted s) i (srv s i) (phase s i) (counters s i) (ballots s i)) \<and>
     votes_ok n (voted s) (srv s)"

lemmas upds = upd_srv_def upd_ballot_def upd_counter_def upd_phase_def add_vote_def

lemma cluster_inv_init: "cluster_inv n (cinit n)"
  by (auto simp: cluster_inv_def cinit_def node_ok_def votes_ok_def fresh_server_def Make_fresh raft_ok_def
      raft_wf_def saved_def)

lemma ballot_ok_mono: "ballot_ok V i T j b \<Longrightarrow> V \<subseteq> V' \<Longrightarrow> ballot_ok V' i T j b"
  by (cases b) auto

lemma node_okI:
  assumes "raft_ok rf" "me rf = int i" "npeers rf = n"
    and "\<And>T j. bs T j \<noteq> NoBallot \<Longrightarrow> j < n \<and> j \<noteq> i \<and> T \<le> term rf"
    and "\<And>T j. bs T j \<noteq> NoBallot \<Longrightarrow> p = Between \<Longrightarrow> T < term rf"
    and "\<And>T j. bs T j \<noteq> NoBallot \<Longrightarrow> ballot_ok V i T j (bs T j)"
    and "p \<noteq> Away \<Longrightarrow> st rf \<noteq> leader"
    and "p = Between \<Longrightarrow> st rf = candidate \<Longrightarrow> (term rf, i, i) \<in> V"
    and "\<And>T. p = Polling T \<Longrightarrow> st rf = candidate \<Longrightarrow> term rf = T \<and> (T, i, i) \<in> V"
    and "\<And>T. p = Polling T \<Longrightarrow> votes (cs T) = 1 + int (card {j. bs T j = Done True})"
    and "st rf = leader \<Longrightarrow> \<exists>S. majority n S \<and> (\<forall>j \<in> S. (term rf, j, i) \<in> V)"
  shows "node_ok n V i rf p cs bs"
  unfolding node_ok_def using assms by blast

lemma node_okD:
  assumes "node_ok n V i rf p cs bs"
  shows "raft_ok rf" "me rf = int i" "npeers rf = n"
    and "bs T j \<noteq> NoBallot \<Longrightarrow> j < n \<and> j \<noteq> i \<and> T \<le> term rf"
    and "bs T j \<noteq> NoBallot \<Longrightarrow> p = Between \<Longrightarrow> T < term rf"
    and "bs T j \<noteq> NoBallot \<Longrightarrow> ballot_ok V i T j (bs T j)"
    and "p \<noteq> Away \<Longrightarrow> st rf \<noteq> leader"
    and "p = Between \<Longrightarrow> st rf = candidate \<Longrightarrow> (term rf, i, i) \<in> V"
    and "p = Polling T \<Longrightarrow> st rf = candidate \<Longrightarrow> term rf = T \<and> (T, i, i) \<in> V"
    and "p = Polling T \<Longrightarrow> votes (cs T) = 1 + int (card {j. bs T j = Done True})"
    and "st rf = leader \<Longrightarrow> \<exists>S. majority n S \<and> (\<forall>j \<in> S. (term rf, j, i) \<in> V)"
  using assms unfolding node_ok_def by blast+

lemma node_ok_granted:
  assumes "node_ok n V i rf p cs bs"
  shows "{j. bs T j = Done True} \<subseteq> {..<n} - {i}" "\<forall>j \<in> {j. bs T j = Done True}. (T, j, i) \<in> V"
proof -
  have "j < n \<and> j \<noteq> i \<and> (T, j, i) \<in> V" if "bs T j = Done True" for j
    using that node_okD(4,6) [OF assms, of T j] by simp
  then show "{j. bs T j = Done True} \<subseteq> {..<n} - {i}" "\<forall>j \<in> {j. bs T j = Done True}. (T, j, i) \<in> V"
    by auto
qed

lemma node_ok_mono: "node_ok n V i rf p cs bs \<Longrightarrow> V \<subseteq> V' \<Longrightarrow> node_ok n V' i rf p cs bs"
  by (rule node_okI) (blast dest: node_okD intro: ballot_ok_mono)+

lemma node_ok_quiet:
  assumes "node_ok n V i rf p cs bs" "quiet rf rf'"
  shows "node_ok n V i rf' p cs bs"
proof -
  have "term rf \<le> term rf'" "raft_ok rf'" "me rf' = me rf" "npeers rf' = npeers rf"
    "st rf' = st rf \<or> st rf' = follower" "st rf' \<noteq> follower \<longrightarrow> term rf' = term rf"
    using assms(2) by (auto simp: quiet_def)
  note f = this
  show ?thesis
  proof (rule node_okI, goal_cases)
    case (4 T j)
    then show ?case using node_okD(4) [OF assms(1)] f(1) order.trans by blast
  next
    case (5 T j)
    then show ?case using node_okD(5) [OF assms(1)] f(1) by fastforce
  next
    case (9 T)
    then show ?case using node_okD(9) [OF assms(1)] f(5,6) by auto
  qed (use node_okD(1-3,6-8,10,11) [OF assms(1)] f in auto)
qed

lemma votes_okD:
  assumes "votes_ok n V rfs" "(T, j, c) \<in> V"
  shows "j < n" "T \<le> term (rfs j)" "T = term (rfs j) \<Longrightarrow> votedFor (rfs j) = int c" "(T, j, c') \<in> V \<Longrightarrow> c' = c"
  using assms unfolding votes_ok_def by blast+

text \<open>A server whose term goes up, or whose term and vote stay, keeps the votes given.\<close>

lemma votes_ok_upd:
  assumes v: "votes_ok n V rfs" and "term (rfs i) \<le> term rf" "\<And>c. (term rf, i, c) \<in> V \<Longrightarrow> votedFor rf = int c"
  shows "votes_ok n V (rfs(i := rf))"
proof -
  have "T \<le> term rf" if "(T, i, c) \<in> V" for T c
    using votes_okD(2) [OF v that] assms(2) by simp
  with v assms(3) show ?thesis unfolding votes_ok_def by simp
qed

lemma votes_ok_server:
  assumes v: "votes_ok n V rfs"
    and rf: "term (rfs i) < term rf \<or> term rf = term (rfs i) \<and> votedFor rf = votedFor (rfs i)"
  shows "votes_ok n V (rfs(i := rf))"
  by (rule votes_ok_upd [OF v]) (use votes_okD(2,3) [OF v] rf in force)+

lemma votes_ok_new:
  assumes v: "votes_ok n V rfs" and i: "i < n" "T = term (rfs i)" "votedFor (rfs i) = int c"
  shows "votes_ok n (insert (T, i, c) V) rfs"
proof -
  have "c' = c" if "(T, i, c') \<in> V" for c'
    using votes_okD(3) [OF v that] i by simp
  with v i show ?thesis unfolding votes_ok_def by (auto 4 3)
qed

lemma cluster_invD:
  assumes "cluster_inv n s"
  shows "i < n \<Longrightarrow> node_ok n (voted s) i (srv s i) (phase s i) (counters s i) (ballots s i)"
    "votes_ok n (voted s) (srv s)"
  using assms by (auto simp: cluster_inv_def)

text \<open>A step of server \<open>i\<close>: the others only see more votes.\<close>

lemma cluster_inv_local:
  assumes "cluster_inv n s" "voted s \<subseteq> voted s'"
    and "\<And>k. k \<noteq> i \<Longrightarrow> srv s' k = srv s k \<and> phase s' k = phase s k \<and> counters s' k = counters s k \<and> ballots s' k = ballots s k"
    and "node_ok n (voted s') i (srv s' i) (phase s' i) (counters s' i) (ballots s' i)"
    and "votes_ok n (voted s') (srv s')"
  shows "cluster_inv n s'"
  unfolding cluster_inv_def
proof (intro conjI allI impI)
  fix k assume "k < n"
  then show "node_ok n (voted s') k (srv s' k) (phase s' k) (counters s' k) (ballots s' k)"
    using assms(3) [of k] assms(4) node_ok_mono [OF cluster_invD(1) [OF assms(1)] assms(2), of k]
    by (cases "k = i") auto
qed (rule assms(5))

lemma cluster_inv_quiet:
  assumes inv: "cluster_inv n s" and i: "i < n" and q: "quiet (srv s i) rf"
  shows "cluster_inv n (upd_srv i rf s)"
proof (rule cluster_inv_local [OF inv, of _ i])
  show "votes_ok n (voted (upd_srv i rf s)) (srv (upd_srv i rf s))"
    using votes_ok_server [OF cluster_invD(2) [OF inv], of i rf] q by (auto simp: upds quiet_def)
  show "node_ok n (voted (upd_srv i rf s)) i (srv (upd_srv i rf s) i) (phase (upd_srv i rf s) i)
      (counters (upd_srv i rf s) i) (ballots (upd_srv i rf s) i)"
    using node_ok_quiet [OF cluster_invD(1) [OF inv i] q] by (simp add: upds)
qed (auto simp: upds)

lemma cluster_inv_away:
  assumes inv: "cluster_inv n s" and i: "i < n"
  shows "cluster_inv n (upd_phase i Away s)"
proof (rule cluster_inv_local [OF inv, of _ i])
  show "node_ok n (voted (upd_phase i Away s)) i (srv (upd_phase i Away s) i) (phase (upd_phase i Away s) i)
      (counters (upd_phase i Away s) i) (ballots (upd_phase i Away s) i)"
    using node_okD [OF cluster_invD(1) [OF inv i]] by (intro node_okI) (auto simp: upds)
qed (use cluster_invD(2) [OF inv] in \<open>auto simp: upds\<close>)

lemma cluster_inv_wake:
  assumes inv: "cluster_inv n s" and i: "i < n" "phase s i = Away"
  shows "cluster_inv n (upd_srv i (snd (ticker_wake t (srv s i))) s)"
proof (rule cluster_inv_local [OF inv, of _ i])
  let ?rf = "snd (ticker_wake t (srv s i))"
  have rf: "term ?rf = term (srv s i)" "votedFor ?rf = votedFor (srv s i)" "raft_ok ?rf = raft_ok (srv s i)"
    "me ?rf = me (srv s i)" "npeers ?rf = npeers (srv s i)" "st ?rf = leader \<longleftrightarrow> st (srv s i) = leader"
    by (auto simp: ticker_wake_def)
  show "node_ok n (voted (upd_srv i ?rf s)) i (srv (upd_srv i ?rf s) i) (phase (upd_srv i ?rf s) i)
      (counters (upd_srv i ?rf s) i) (ballots (upd_srv i ?rf s) i)"
    using node_okD [OF cluster_invD(1) [OF inv i(1)]] i(2) rf by (intro node_okI) (auto simp: upds)
  show "votes_ok n (voted (upd_srv i ?rf s)) (srv (upd_srv i ?rf s))"
    using votes_ok_server [OF cluster_invD(2) [OF inv], of i ?rf] rf by (simp add: upds)
qed (auto simp: upds)

lemma cluster_inv_run_for_leader:
  assumes inv: "cluster_inv n s" and i: "i < n"
    and rf: "candidate_round (srv s i) = Ret rf"
  shows "cluster_inv n (upd_phase i Between (add_vote (term rf) i i (upd_srv i rf s)))" (is "cluster_inv n ?s")
proof (rule cluster_inv_local [OF inv, of _ i])
  note D = node_okD [OF cluster_invD(1) [OF inv i]]
  have r: "raft_ok rf" "term rf = term (srv s i) + 1" "votedFor rf = int i" "st rf = candidate" "me rf = int i"
    "npeers rf = n"
    using candidate_round_ok [OF D(1)] rf D(2,3) by simp_all
  show "node_ok n (voted ?s) i (srv ?s i) (phase ?s i) (counters ?s i) (ballots ?s i)"
  proof (rule node_okI, goal_cases)
    case (6 T j)
    then show ?case using D(6) [of T j] by (auto simp: upds intro: ballot_ok_mono)
  qed (use r D(4) in \<open>fastforce simp: upds\<close>)+
  show "votes_ok n (voted ?s) (srv ?s)"
    using votes_ok_new [OF votes_ok_server [OF cluster_invD(2) [OF inv], of i rf], of i "term rf" i] r i
    by (simp add: upds)
qed (auto simp: upds)

lemma cluster_inv_send:
  fixes s :: "'c cluster" and args :: RequestVoteArgs and i n :: nat
  defines "T \<equiv> term (srv s i)"
  defines "s' \<equiv> upd_phase i (Polling T) (upd_counter i T (new_counter (srv s i))
       (s\<lparr>ballots := (ballots s)(i := (ballots s i)(T := (\<lambda>j. if j < n \<and> j \<noteq> i then Sent args else NoBallot)))\<rparr>))"
  assumes inv: "cluster_inv n s" and i: "i < n" "phase s i = Between" and args: "election_ballot (srv s i) = Ret args"
  shows "cluster_inv n s'"
proof (rule cluster_inv_local [OF inv, of _ i])
  note D = node_okD [OF cluster_invD(1) [OF inv i(1)]]
  have a: "rva_Term args = T" "rva_CandidateId args = int i"
    using args D(2) by (auto simp: election_ballot_def outcome_bind_Ret_iff T_def)
  have none: "{j. (if j < n \<and> j \<noteq> i then Sent args else NoBallot) = Done True} = {}" by auto
  show "node_ok n (voted s') i (srv s' i) (phase s' i) (counters s' i) (ballots s' i)"
  proof (rule node_okI, goal_cases)
    case (4 T' j)
    then show ?case using D(4) [of T' j] by (auto simp: s'_def upds T_def split: if_splits)
  next
    case (6 T' j)
    then show ?case using D(6) [of T' j] a by (auto simp: s'_def upds split: if_splits)
  next
    case (10 T')
    then show ?case using D(2,3) i none by (auto simp: s'_def upds new_counter_def countVote_def)
  qed (use D(1-3,7,8,11) i in \<open>auto simp: s'_def upds T_def\<close>)
qed (use cluster_invD(2) [OF inv] in \<open>auto simp: s'_def upds\<close>)

lemma cluster_inv_lose:
  assumes inv: "cluster_inv n s" and i: "i < n" "ballots s i T j \<noteq> NoBallot" "\<not> (\<exists>b. ballots s i T j = Done b)"
  shows "cluster_inv n (upd_ballot i T j (Done False) s)" (is "cluster_inv n ?s")
proof (rule cluster_inv_local [OF inv, of _ i])
  note D = node_okD [OF cluster_invD(1) [OF inv i(1)]]
  have same: "{k. ballots ?s i T' k = Done True} = {k. ballots s i T' k = Done True}" for T'
    using i(3) by (auto simp: upds split: if_splits)
  show "node_ok n (voted ?s) i (srv ?s i) (phase ?s i) (counters ?s i) (ballots ?s i)"
  proof (rule node_okI, goal_cases)
    case (4 T' k)
    then show ?case using D(4) [of T' k] D(4) [OF i(2)] by (auto simp: upds split: if_splits)
  next
    case (5 T' k)
    then show ?case using D(5) [of T' k] D(5) [OF i(2)] by (auto simp: upds split: if_splits)
  next
    case (6 T' k)
    then show ?case using D(6) [of T' k] by (auto simp: upds split: if_splits)
  next
    case (10 T')
    then show ?case unfolding same using D(10) [of T'] by (simp add: upds)
  qed (use D(1-3,7,8,9,11) in \<open>auto simp: upds\<close>)
qed (use cluster_invD(2) [OF inv] in \<open>auto simp: upds\<close>)

text \<open>The reply of a ballot: the server moves quietly, and a granted vote is counted once.\<close>

lemma cluster_inv_receive:
  assumes inv: "cluster_inv n s" and i: "i < n" and b: "ballots s i T j = Answered rep"
    and r: "ballot_reply rep (srv s i) (counters s i T) = Ret (rf, vc)"
  shows "cluster_inv n (upd_ballot i T j (Done (rvr_Term rep \<le> term (srv s i) \<and> VoteGranted rep))
       (upd_counter i T vc (upd_srv i rf s)))" (is "cluster_inv n ?s")
proof -
  let ?b = "rvr_Term rep \<le> term (srv s i) \<and> VoteGranted rep"
  let ?q = "upd_srv i rf s"
  have ok: "raft_ok (srv s i)" using node_okD(1) [OF cluster_invD(1) [OF inv i]] .
  have q: "quiet (srv s i) rf" and vc: "votes vc = votes (counters s i T) + (if ?b then 1 else 0)"
    using quiet_msgCommon [OF ok, of "rvr_Term rep"] r
    by (auto simp: ballot_reply_def returns_iff killVote_def countVote_def)
  have invq: "cluster_inv n ?q" using inv i q by (rule cluster_inv_quiet)
  note D = node_okD [OF cluster_invD(1) [OF invq i]]
  have bq: "ballots ?q i T j = Answered rep" using b by (simp add: upds)
  then have ne: "ballots ?q i T j \<noteq> NoBallot" by simp
  have granted: "{k. ballots ?s i T' k = Done True}
      = (if T' = T \<and> ?b then insert j {k. ballots ?q i T' k = Done True} else {k. ballots ?q i T' k = Done True})" for T'
    using bq by (auto simp: upds split: if_splits)
  have fin: "finite {k. ballots ?q i T' k = Done True}" for T'
    using node_ok_granted(1) [OF cluster_invD(1) [OF invq i]] by (rule finite_subset) simp
  have j: "j \<notin> {k. ballots ?q i T k = Done True}" using bq by simp
  show ?thesis
  proof (rule cluster_inv_local [OF invq, of _ i])
    show "node_ok n (voted ?s) i (srv ?s i) (phase ?s i) (counters ?s i) (ballots ?s i)"
    proof (rule node_okI, goal_cases)
      case (4 T' k)
      then show ?case using D(4) [of T' k] D(4) [OF ne] by (auto simp: upds split: if_splits)
    next
      case (5 T' k)
      then show ?case using D(5) [of T' k] D(5) [OF ne] by (auto simp: upds split: if_splits)
    next
      case (6 T' k)
      then show ?case using D(6) [of T' k] D(6) [OF ne] bq by (auto simp: upds split: if_splits)
    next
      case (10 T')
      then show ?case
        unfolding granted using D(10) [of T'] fin [of T] j vc by (auto simp: upds)
    qed (use D(1-3,7,8,9,11) in \<open>auto simp: upds\<close>)
  qed (use cluster_invD(2) [OF invq] in \<open>auto simp: upds\<close>)
qed

lemma cluster_inv_poll:
  assumes inv: "cluster_inv n s" and i: "i < n" "phase s i = Polling T"
    and p: "election_poll (counters s i T) (srv s i) = (fin, rf)"
  shows "cluster_inv n (upd_phase i (if fin then Away else Polling T) (upd_srv i rf s))" (is "cluster_inv n ?s")
proof (cases "rf = srv s i")
  case True
  then have "?s = (if fin then upd_phase i Away s else s)"
    using i(2) by (auto simp: upds fun_upd_idem)
  with cluster_inv_away [OF inv i(1)] inv show ?thesis by simp
next
  case False
  note D = node_okD [OF cluster_invD(1) [OF inv i(1)]]
  have fin: fin and rf: "rf = leaderInit ((srv s i)\<lparr>st := leader\<rparr>)"
    and cnt: "int n div 2 < getVotes (counters s i T)" "0 \<le> getVotes (counters s i T)" and st: "st (srv s i) \<noteq> follower"
    using p False D(3) by (auto simp: election_poll_def Let_def split: if_splits)
  have "st (srv s i) = candidate" using D(7) i(2) st by (cases "st (srv s i)") auto
  then have T: "term (srv s i) = T" "(T, i, i) \<in> voted s" using D(9) i(2) by auto
  let ?G = "{j. ballots s i T j = Done True}"
  have G: "?G \<subseteq> {..<n}" "i \<notin> ?G" "\<forall>j \<in> ?G. (T, j, i) \<in> voted s"
    using node_ok_granted [OF cluster_invD(1) [OF inv i(1)]] by blast+
  have "votes (counters s i T) = 1 + int (card ?G)" using D(10) i(2) by blast
  then have "n div 2 < card (insert i ?G)"
    using cnt G finite_subset [OF G(1)] by (auto simp: getVotes_def split: if_splits)
  with G i(1) T have maj: "majority n (insert i ?G)" "\<forall>j \<in> insert i ?G. (T, j, i) \<in> voted s"
    by (auto simp: majority_def)
  show ?thesis
  proof (rule cluster_inv_local [OF inv, of _ i])
    show "node_ok n (voted ?s) i (srv ?s i) (phase ?s i) (counters ?s i) (ballots ?s i)"
      using D(1-4,6) fin maj T(1) by (intro node_okI) (auto simp: upds rf leaderInit_def intro!: exI [of _ "insert i ?G"])
    show "votes_ok n (voted ?s) (srv ?s)"
      using votes_ok_server [OF cluster_invD(2) [OF inv], of i rf] by (simp add: upds rf leaderInit_def)
  qed (auto simp: upds)
qed

text \<open>A server that answers a ballot: at most one vote in a term.\<close>

lemma cluster_inv_vote:
  fixes args :: RequestVoteArgs and i :: nat
  assumes inv: "cluster_inv n s" and j: "j < n" and args: "rva_CandidateId args = int i"
    and r: "RequestVote now args (srv s j) = Ret (rep, rf)"
  shows "cluster_inv n (if VoteGranted rep then add_vote (rva_Term args) j i (upd_srv j rf s) else upd_srv j rf s)"
    (is "cluster_inv n ?s")
proof -
  let ?rf = "srv s j"
  note D = node_okD [OF cluster_invD(1) [OF inv j]]
  note V = cluster_invD(2) [OF inv]
  let ?vf = "if term ?rf < rva_Term args then - 1 else votedFor ?rf"
  have ok: "raft_ok rf" "me rf = int j" "npeers rf = n" and t: "term rf = max (rva_Term args) (term ?rf)"
    and st: "st rf = (if term ?rf < rva_Term args then follower else st ?rf)"
    and vote: "VoteGranted rep \<Longrightarrow> rva_Term args = term rf \<and> (?vf = - 1 \<or> ?vf = int i)"
    and vf: "votedFor rf = (if VoteGranted rep then int i else ?vf)"
    using RequestVote_ok [OF D(1), of now args] r D(2,3) args by auto
  have no_vote: "\<not> (\<exists>c. (term ?rf, j, c) \<in> voted s)" if "votedFor ?rf = - 1"
    using votes_okD(3) [OF V] that by fastforce
  have "votes_ok n (voted ?s) (srv ?s)"
  proof (cases "VoteGranted rep")
    case False
    then show ?thesis
      using votes_ok_server [OF V, of j rf] t vf by (auto simp: upds max_def split: if_splits)
  next
    case True
    have base: "votes_ok n (voted s) ((srv s)(j := rf))"
    proof (cases "term ?rf < rva_Term args")
      case True
      then show ?thesis using votes_ok_server [OF V, of j rf] t by simp
    next
      case False
      then have same: "term rf = term ?rf" using t by simp
      have "votedFor ?rf = - 1 \<or> votedFor ?rf = votedFor rf" using vote [OF True] vf True False by auto
      then show ?thesis
      proof
        assume "votedFor ?rf = - 1"
        then show ?thesis using no_vote same by (intro votes_ok_upd [OF V]) auto
      qed (use votes_ok_server [OF V, of j rf] same in simp)
    qed
    show ?thesis
      using votes_ok_new [OF base j, of "rva_Term args" i] True vote vf by (simp add: upds)
  qed
  moreover have "node_ok n (voted s) j rf (phase s j) (counters s j) (ballots s j)"
  proof (rule node_okI, goal_cases)
    case (4 T k)
    then show ?case using D(4) [of T k] t by auto
  next
    case (5 T k)
    then show ?case using D(5) [of T k] t by auto
  next
    case (9 T)
    then show ?case using D(9) [of T] st t by (auto split: if_splits)
  qed (use ok D(6,7,8,10,11) st t in \<open>auto split: if_splits\<close>)
  then have "node_ok n (voted ?s) j rf (phase s j) (counters s j) (ballots s j)"
    by (rule node_ok_mono) (auto simp: upds)
  ultimately show ?thesis
    by (intro cluster_inv_local [OF inv, of ?s j]) (auto simp: upds)
qed

lemma cluster_inv_answer:
  assumes inv: "cluster_inv n s" and i: "i < n" and b: "ballots s i T j = Sent args"
    and v: "VoteGranted rep \<Longrightarrow> (T, j, i) \<in> voted s"
  shows "cluster_inv n (upd_ballot i T j (Answered rep) s)" (is "cluster_inv n ?s")
proof (rule cluster_inv_local [OF inv, of _ i])
  note D = node_okD [OF cluster_invD(1) [OF inv i]]
  have ne: "ballots s i T j \<noteq> NoBallot" using b by simp
  have same: "{k. ballots ?s i T' k = Done True} = {k. ballots s i T' k = Done True}" for T'
    using b by (auto simp: upds split: if_splits)
  show "node_ok n (voted ?s) i (srv ?s i) (phase ?s i) (counters ?s i) (ballots ?s i)"
  proof (rule node_okI, goal_cases)
    case (4 T' k)
    then show ?case using D(4) [of T' k] D(4) [OF ne] by (auto simp: upds split: if_splits)
  next
    case (5 T' k)
    then show ?case using D(5) [of T' k] D(5) [OF ne] by (auto simp: upds split: if_splits)
  next
    case (6 T' k)
    then show ?case using D(6) [of T' k] v by (auto simp: upds split: if_splits)
  next
    case (10 T')
    then show ?case unfolding same using D(10) [of T'] by (simp add: upds)
  qed (use D(1-3,7,8,9,11) in \<open>auto simp: upds\<close>)
qed (use cluster_invD(2) [OF inv] in \<open>auto simp: upds\<close>)

lemma cluster_inv_step:
  assumes "cstep n s s'" "cluster_inv n s"
  shows "cluster_inv n s'"
  using assms
proof (induction rule: cstep.induct)
  case (quiet_step i e s rf)
  then have "raft_ok (srv s i)" using node_okD(1) [OF cluster_invD(1)] by blast
  from raft_exec_quiet [OF this, of e] quiet_step show ?case by (intro cluster_inv_quiet) auto
next
  case (deliver_ballot i j s T args now rep rf)
  have a: "rva_Term args = T" "rva_CandidateId args = int i"
    using node_okD(6) [OF cluster_invD(1) [OF deliver_ballot.prems], of i T j] deliver_ballot by auto
  let ?s = "if VoteGranted rep then add_vote T j i (upd_srv j rf s) else upd_srv j rf s"
  have "cluster_inv n ?s"
    using cluster_inv_vote [OF deliver_ballot.prems deliver_ballot.hyps(2) a(2) deliver_ballot.hyps(4)]
    unfolding a(1) .
  then show ?case
    by (rule cluster_inv_answer) (use deliver_ballot in \<open>auto simp: upds\<close>)
next
  case (restart i s rf)
  note D = node_okD [OF cluster_invD(1) [OF restart.prems restart.hyps(1)]]
  have "quiet (srv s i) rf"
    using Make_restores [OF D(1), of "int i" n] restart.hyps(2) D(2,3) by (auto simp: quiet_def)
  from cluster_inv_quiet [OF restart.prems restart.hyps(1) this] show ?case
    using restart.hyps(1) by (intro cluster_inv_away)
qed (simp_all add: cluster_inv_wake cluster_inv_run_for_leader cluster_inv_send cluster_inv_receive
    cluster_inv_lose cluster_inv_poll cluster_inv_away)

lemma reachable_inv: "reachable n s \<Longrightarrow> cluster_inv n s"
  by (induction rule: reachable.induct) (auto intro: cluster_inv_init cluster_inv_step)

text \<open>
  C5: election safety. In a cluster of any size, through any interleaving of elections, lost
  ballots, crashes and restarts, and with every other message a server may receive, no two
  servers are leaders of the same term.
\<close>

theorem election_safety:
  assumes "reachable n s" "i < n" "j < n"
    and "st (srv s i) = leader" "st (srv s j) = leader" "term (srv s i) = term (srv s j)"
  shows "i = j"
proof -
  note inv = reachable_inv [OF assms(1)]
  obtain A where A: "majority n A" "\<forall>k \<in> A. (term (srv s i), k, i) \<in> voted s"
    using node_okD(11) [OF cluster_invD(1) [OF inv assms(2)] assms(4)] by blast
  obtain B where B: "majority n B" "\<forall>k \<in> B. (term (srv s i), k, j) \<in> voted s"
    using node_okD(11) [OF cluster_invD(1) [OF inv assms(3)] assms(5)] assms(6) by auto
  show ?thesis
  proof (rule maj.unique_winner [OF A(1) B(1), where supports = "\<lambda>k c. (term (srv s i), k, c) \<in> voted s"])
    show "(term (srv s i), k, i) \<in> voted s \<Longrightarrow> (term (srv s i), k, j) \<in> voted s \<Longrightarrow> i = j" for k
      using votes_okD(4) [OF cluster_invD(2) [OF inv]] by blast
  qed (use A(2) B(2) in blast)+
qed

text \<open>An election of three servers: server 0 runs, server 1 votes for it, server 0 leads term 1.\<close>

lemma fresh_server_eq: "fresh_server n i = \<lparr>me = int i, npeers = n, persisted = None, term = 0, votedFor = - 1,
    st = follower, ts = 0, log = [Some \<lparr>Term = 0, Cmd = None\<rparr>], commitIdx = 0, appliedIdx = 0, disam = [],
    nextForServer = [], atServer = [], msgFlag = False, snapshot = [], snapshotIndex = 0\<rparr>"
  by (simp add: fresh_server_def Make_fresh)

lemma leader_reachable: "\<exists>s :: string cluster. reachable 3 s \<and> st (srv s 0) = leader \<and> term (srv s 0) = 1"
proof -
  let ?s0 = "cinit 3 :: string cluster"
  have srv0: "srv ?s0 i = fresh_server 3 i" "phase ?s0 i = Away" for i by (simp_all add: cinit_def)
  obtain rf1 where rf1: "candidate_round (srv ?s0 0) = Ret rf1" "term rf1 = 1" "st rf1 = candidate" "me rf1 = 0"
    "npeers rf1 = 3" "log rf1 = [Some \<lparr>Term = 0, Cmd = None\<rparr>]"
    by (simp add: srv0 fresh_server_eq candidate_round_def persist_def SaveRaftState_def)
  define s1 where "s1 = upd_phase 0 Between (add_vote (term rf1) 0 0 (upd_srv 0 rf1 ?s0))"
  have r1: "reachable 3 s1"
    unfolding s1_def
    by (rule reachable.step [OF reachable.init], rule run_for_leader) (use rf1 in \<open>simp_all add: cinit_def fresh_server_eq\<close>)
  define args where "args = \<lparr>rva_Term = 1, rva_CandidateId = 0, rva_LastLogIndex = 0, rva_LastLogTerm = 0\<rparr>"
  have args: "election_ballot rf1 = Ret args"
    by (simp add: election_ballot_def rf1 nthl_def deref_def args_def)
  define s2 where "s2 = upd_phase 0 (Polling 1) (upd_counter 0 1 (new_counter rf1)
       (s1\<lparr>ballots := (ballots s1)(0 := (ballots s1 0)(1 := (\<lambda>j. if j < 3 \<and> j \<noteq> 0 then Sent args else NoBallot)))\<rparr>))"
  have srv1: "srv s1 0 = rf1" "srv s1 1 = fresh_server 3 1" "phase s1 0 = Between"
    by (simp_all add: s1_def upds cinit_def)
  have r2: "reachable 3 s2"
  proof -
    have "cstep 3 s1 (upd_phase 0 (Polling 1) (upd_counter 0 1 (new_counter (srv s1 0))
       (s1\<lparr>ballots := (ballots s1)(0 := (ballots s1 0)(1 := (\<lambda>j. if j < 3 \<and> j \<noteq> 0 then Sent args else NoBallot)))\<rparr>)))"
      by (rule send_ballots) (use srv1 args rf1(2) in simp_all)
    with r1 show ?thesis unfolding s2_def srv1 by (rule reachable.step)
  qed
  obtain rf2 :: "string Raft" where rf2: "RequestVote 0 args (fresh_server 3 1) = Ret (\<lparr>rvr_Term = 1, VoteGranted = True\<rparr>, rf2)"
    by (simp add: fresh_server_eq RequestVote_def msgCommon_def persist_def SaveRaftState_def otherIsRecent_def nthl_def
        deref_def args_def Let_def)
  define s3 where "s3 = upd_ballot 0 1 1 (Answered \<lparr>rvr_Term = 1, VoteGranted = True\<rparr>)
       (add_vote 1 1 0 (upd_srv 1 rf2 s2))"
  have srv2: "srv s2 0 = rf1" "srv s2 1 = fresh_server 3 1" "ballots s2 0 1 1 = Sent args" "phase s2 0 = Polling 1"
    "votes (counters s2 0 1) = 1" "\<not> killed (counters s2 0 1)"
    by (simp_all add: s2_def upds srv1 new_counter_def rf1 countVote_def del: One_nat_def)
  have r3: "reachable 3 s3"
  proof -
    have "cstep 3 s2 (upd_ballot 0 1 1 (Answered \<lparr>rvr_Term = 1, VoteGranted = True\<rparr>)
       (if VoteGranted \<lparr>rvr_Term = 1, VoteGranted = True\<rparr> then add_vote 1 1 0 (upd_srv 1 rf2 s2) else upd_srv 1 rf2 s2))"
      by (rule deliver_ballot [where now = 0 and args = args]) (use srv2 rf2 in \<open>simp_all del: One_nat_def\<close>)
    with r2 show ?thesis unfolding s3_def by (auto intro: reachable.step)
  qed
  have srv3: "srv s3 0 = rf1" "ballots s3 0 1 1 = Answered \<lparr>rvr_Term = 1, VoteGranted = True\<rparr>"
    "phase s3 0 = Polling 1" "counters s3 0 1 = counters s2 0 1"
    by (simp_all add: s3_def upds srv2 del: One_nat_def)
  let ?vc = "countVote (counters s2 0 1)"
  define s4 where "s4 = upd_ballot 0 1 1 (Done (1 \<le> term (srv s3 0) \<and> True)) (upd_counter 0 1 ?vc (upd_srv 0 rf1 s3))"
  have r4: "reachable 3 s4"
  proof -
    have "cstep 3 s3 (upd_ballot 0 1 1 (Done (rvr_Term \<lparr>rvr_Term = 1, VoteGranted = True\<rparr> \<le> term (srv s3 0) \<and>
        VoteGranted \<lparr>rvr_Term = 1, VoteGranted = True\<rparr>)) (upd_counter 0 1 ?vc (upd_srv 0 rf1 s3)))"
      by (rule receive_reply) (use srv3 rf1(2) in \<open>simp_all add: ballot_reply_def msgCommon_def del: One_nat_def\<close>)
    with r3 show ?thesis unfolding s4_def by (auto intro: reachable.step)
  qed
  have srv4: "srv s4 0 = rf1" "phase s4 0 = Polling 1" "counters s4 0 1 = ?vc"
    by (simp_all add: s4_def upds srv3)
  let ?rf = "leaderInit (rf1\<lparr>st := leader\<rparr>)"
  have "cstep 3 s4 (upd_phase 0 (if True then Away else Polling 1) (upd_srv 0 ?rf s4))"
    by (rule poll [where T = 1])
      (use srv4 srv2 rf1 in \<open>simp_all add: election_poll_def Let_def getVotes_def countVote_def\<close>)
  then have "reachable 3 (upd_phase 0 Away (upd_srv 0 ?rf s4))"
    using r4 by (auto intro: reachable.step)
  moreover have "st ?rf = leader" "term ?rf = 1" by (simp_all add: leaderInit_def rf1)
  ultimately show ?thesis
    by (intro exI [of _ "upd_phase 0 Away (upd_srv 0 ?rf s4)"]) (simp add: upds)
qed

theorem election_safety_witness:
  "\<exists>s :: string cluster. reachable 3 s \<and> st (srv s 0) = leader \<and> term (srv s 0) = 1 \<and>
    \<not> (st (srv s 1) = leader \<and> term (srv s 1) = 1) \<and> \<not> (st (srv s 2) = leader \<and> term (srv s 2) = 1)"
proof -
  obtain s :: "string cluster" where s: "reachable 3 s" "st (srv s 0) = leader" "term (srv s 0) = 1"
    using leader_reachable by blast
  have "\<not> (st (srv s j) = leader \<and> term (srv s j) = 1)" if "j < 3" "j \<noteq> 0" for j
    using election_safety [OF s(1), of 0 j] s(2,3) that by auto
  from this [of 1] this [of 2] s show ?thesis by auto
qed

end
