(* ===== verification/Raft_Commit.thy ===== *)
theory Raft_Commit
  imports Raft_Election "HOL-Library.Multiset"
begin

section \<open>Committing entries\<close>

text \<open>
  When a leader moves its commit index, what replicas it may count on, and the situations in
  which the code commits or forgets more than the protocol allows.
\<close>

subsection \<open>The median of the replication indices\<close>

definition at_least :: "int list \<Rightarrow> int \<Rightarrow> nat set" where
  "at_least as m = {j. j < length as \<and> m \<le> as ! j}"

lemma card_at_least: "card (at_least as m) = length (filter (\<lambda>a. m \<le> a) as)"
  by (simp add: at_least_def length_filter_conv_card)

lemma length_filter_sort: "length (filter P (sort as)) = length (filter P as)"
  by (metis mset_filter mset_sort size_mset)

lemma sort_nth_at_least:
  assumes "k < length as"
  shows "length as - k \<le> card (at_least as (sort as ! k))"
proof -
  have "filter (\<lambda>a. sort as ! k \<le> a) (drop k (sort as)) = drop k (sort as)"
    using assms by (auto simp: filter_id_conv in_set_conv_nth sorted_nth_mono)
  then have "length as - k \<le> length (filter (\<lambda>a. sort as ! k \<le> a) (take k (sort as) @ drop k (sort as)))"
    unfolding filter_append by simp
  then show ?thesis
    by (simp add: card_at_least length_filter_sort)
qed

lemma rvwCommits_commits:
  assumes r: "rvwCommits_round rf = Ret (fin, rf')" and adv: "commitIdx rf' \<noteq> commitIdx rf"
  shows "st rf = leader" "commitIdx rf' = sort (atServer rf) ! nat (median_index (length (atServer rf)))"
    "commitIdx rf < commitIdx rf'" "\<exists>e. entry_at rf (commitIdx rf') = Ret e \<and> Term e = term rf"
proof -
  have ap: "commitIdx rf2 = commitIdx rf1" if "applyOutstanding rf1 = Ret rf2" for rf1 rf2 :: "'a Raft"
    using that by (auto simp: applyOutstanding_def outcome_bind_Ret_iff)
  show "st rf = leader" "commitIdx rf' = sort (atServer rf) ! nat (median_index (length (atServer rf)))"
    "commitIdx rf < commitIdx rf'" "\<exists>e. entry_at rf (commitIdx rf') = Ret e \<and> Term e = term rf"
    using r adv
    by (auto simp: rvwCommits_round_def Let_def outcome_bind_Ret_iff nthl_def split: if_splits dest!: ap)
qed

text \<open>
  C20: in a cluster with an odd number of servers a leader advances its commit index only to an
  entry of its own term that, by the indices acknowledged to it, a majority of the servers have.
\<close>

theorem commit_needs_majority:
  assumes "rvwCommits_round rf = Ret (fin, rf')" and "commitIdx rf' \<noteq> commitIdx rf"
    and "tracks_peers rf" and "odd (npeers rf)"
  shows "st rf = leader \<and> commitIdx rf < commitIdx rf' \<and>
    majority (npeers rf) (at_least (atServer rf) (commitIdx rf')) \<and>
    (\<exists>e. entry_at rf (commitIdx rf') = Ret e \<and> Term e = term rf)"
proof -
  let ?n = "npeers rf"
  let ?k = "nat (median_index ?n)"
  have len: "length (atServer rf) = ?n" using assms(3) by (simp add: tracks_peers_def)
  obtain m where m: "?n = 2 * m + 1" using assms(4) by (rule oddE)
  have k: "?k = m" by (simp add: median_index_def m nat_div_distrib)
  have "?n - m \<le> card (at_least (atServer rf) (sort (atServer rf) ! m))"
    using sort_nth_at_least [of m "atServer rf"] len m by simp
  then have "?n div 2 < card (at_least (atServer rf) (sort (atServer rf) ! m))" using m by simp
  moreover have "at_least (atServer rf) x \<subseteq> {..<?n}" for x using len by (auto simp: at_least_def)
  ultimately show ?thesis
    using rvwCommits_commits [OF assms(1,2)] len k by (simp add: majority_def)
qed

definition witness_leader :: "string Raft" where
  "witness_leader = witness_server\<lparr>term := 1, votedFor := 0, st := leader,
     log := [Some \<lparr>Term = 0, Cmd = None\<rparr>, Some \<lparr>Term = 1, Cmd = Some ''a''\<rparr>],
     atServer := [1, 1, 0], nextForServer := [2, 2, 1]\<rparr>"

lemmas commit_defs = rvwCommits_round_def median_index_def nthl_def deref_def applyOutstanding_def Let_def
  upto.simps

theorem commit_needs_majority_witness:
  "\<exists>fin rf'. rvwCommits_round witness_leader = Ret (fin, rf') \<and> commitIdx rf' = 1 \<and>
    majority 3 (at_least (atServer witness_leader) 1)"
proof -
  obtain fin rf' where r: "rvwCommits_round witness_leader = Ret (fin, rf')" "commitIdx rf' = 1"
    by (simp add: witness_leader_def witness_server_def commit_defs) blast
  moreover have "commitIdx witness_leader = 0" "tracks_peers witness_leader" "npeers witness_leader = 3"
    by (simp_all add: witness_leader_def witness_server_def tracks_peers_def)
  ultimately show ?thesis
    using commit_needs_majority [OF r(1)] by auto
qed

lemma sort_two_halves: "0 \<le> m \<Longrightarrow> sort (replicate k m @ replicate k 0) = replicate k 0 @ replicate k (m :: int)"
  by (rule properties_for_sort) (auto simp: sorted_append)

lemma all_less_two: "(\<forall>i < Suc (Suc 0). P i) \<longleftrightarrow> P 0 \<and> P (Suc 0)"
  by (auto simp: less_Suc_eq)

text \<open>
  C32: with an even number \<open>2 * k\<close> of servers the index is the upper median, and \<open>k\<close> of them, which
  are not a majority, are enough to commit an entry.
\<close>

theorem even_cluster_commits_on_half:
  assumes "st rf = leader" and "atServer rf = replicate k m @ replicate k 0" and "0 < k"
    and "0 \<le> commitIdx rf" and "commitIdx rf < m" and "entry_at rf m = Ret e" and "Term e = term rf"
    and "raft_wf rf" and "m < int (length (log rf))"
  shows "(\<exists>rf'. rvwCommits_round rf = Ret (False, rf') \<and> commitIdx rf' = m) \<and>
    card (at_least (atServer rf) m) = k \<and> \<not> majority (2 * k) (at_least (atServer rf) m)"
proof -
  let ?rf = "rf\<lparr>commitIdx := m\<rparr>"
  have idx: "median_index (2 * k) = int k" by (simp add: median_index_def)
  have nth: "nthl (sort (atServer rf)) (int k) = Ret m"
    using assms(2-5) by (simp add: sort_two_halves nthl_def nth_append)
  have "raft_wf (?rf\<lparr>commitIdx := appliedIdx ?rf\<rparr>)" using assms(8) by (simp add: raft_wf_def)
  then have "\<exists>rf'. applyOutstanding ?rf = Ret rf' \<and> commitIdx rf' = m"
    using applyOutstanding_ok [of ?rf] assms(9) by simp
  moreover have "length (sort (atServer rf)) = 2 * k" using assms(2) by simp
  ultimately have "\<exists>rf'. rvwCommits_round rf = Ret (False, rf') \<and> commitIdx rf' = m"
    using assms(1,5-7) nth idx by (auto simp: rvwCommits_round_def Let_def simp del: length_sort)
  moreover have "card (at_least (atServer rf) m) = k"
    using assms(2,4,5) by (simp add: card_at_least)
  ultimately show ?thesis by (simp add: majority_def)
qed

theorem even_cluster_commits_on_half_witness:
  "(\<exists>rf'. rvwCommits_round (witness_leader\<lparr>npeers := 4, atServer := [1, 1, 0, 0]\<rparr>) = Ret (False, rf') \<and> commitIdx rf' = 1) \<and>
    \<not> majority 4 (at_least [1, 1, 0, 0] 1)"
proof -
  let ?rf = "witness_leader\<lparr>npeers := 4, atServer := [1, 1, 0, 0]\<rparr>"
  have two: "replicate 2 x = [x, x]" for x :: int by (simp add: numeral_2_eq_2)
  have wf: "raft_wf ?rf" by (simp add: witness_leader_def witness_server_def raft_wf_def all_less_two)
  have e: "entry_at ?rf 1 = Ret \<lparr>Term = 1, Cmd = Some ''a''\<rparr>"
    by (simp add: witness_leader_def witness_server_def nthl_def deref_def)
  show ?thesis
    using even_cluster_commits_on_half [of ?rf 2 1, OF _ _ _ _ _ e _ wf] two
    by (auto simp: witness_leader_def witness_server_def)
qed

subsection \<open>Messages that arrive late\<close>

text \<open>
  C33: a follower forgets entries it has acknowledged. It accepts a message \<open>a\<close> of a leader, tells
  the leader so, and then receives an earlier message of the same leader with the same position
  and only the first \<open>k\<close> of the entries: it cuts its log back to these, although nothing in them
  conflicts, and reports success again; if the first message had let it commit and apply up to
  its last entry, entries it has applied are no longer in its log.
\<close>

theorem stale_append_truncates:
  fixes rf :: "'c Raft" and a :: "'c AppendEntriesArgs"
  assumes "raft_ok rf" "0 \<le> aea_LastLogIndex a" "ae_match a rf" "k < length (aea_Entries a)"
    and "int (length (ae_log a rf)) - 1 \<le> aea_LeaderCommitIdx a" "commitIdx rf < aea_LeaderCommitIdx a"
  shows "\<exists>rep1 rf1 rep2 rf2. AppendEntries t1 a rf = Ret (rep1, rf1) \<and> Success rep1 \<and>
    AppendEntries t2 (a\<lparr>aea_Entries := take k (aea_Entries a), aea_LeaderCommitIdx := 0\<rparr>) rf1 = Ret (rep2, rf2) \<and>
    Success rep2 \<and> length (log rf2) < length (log rf1) \<and>
    appliedIdx rf2 = int (length (log rf1)) - 1 \<and> int (length (log rf2)) \<le> appliedIdx rf2"
proof -
  let ?n = "nat (aea_LastLogIndex a + 1)"
  let ?b = "a\<lparr>aea_Entries := take k (aea_Entries a), aea_LeaderCommitIdx := 0\<rparr>"
  obtain rep1 rf1 where r1: "AppendEntries t1 a rf = Ret (rep1, rf1)" "raft_ok rf1" "Success rep1"
    "log rf1 = ae_log a rf" "commitIdx rf1 = ae_commit a rf" "term rf1 = aea_Term a"
    using AppendEntries_match_ok [OF assms(1-3), of t1] by (auto simp: returns_iff)
  obtain e where e: "log rf ! nat (aea_LastLogIndex a) = Some e" "Term e = aea_LastLogTerm a"
    and lt: "aea_LastLogIndex a < int (length (log rf))"
    using assms(3) by (auto simp: ae_match_def)
  have n: "?n \<le> length (log rf)" "nat (aea_LastLogIndex a) < ?n" using lt assms(2) by auto
  have len1: "length (log rf1) = ?n + length (aea_Entries a)" using n by (simp add: r1(4) ae_log_def)
  have match: "ae_match ?b rf1"
    using e n lt by (auto simp: ae_match_def r1(4,6) ae_log_def nth_append)
  have lli: "0 \<le> aea_LastLogIndex ?b" using assms(2) by simp
  obtain rep2 rf2 where r2: "AppendEntries t2 ?b rf1 = Ret (rep2, rf2)" "raft_ok rf2" "Success rep2"
    "log rf2 = ae_log ?b rf1" "commitIdx rf2 = ae_commit ?b rf1"
    using AppendEntries_match_ok [OF r1(2) lli match, of t2] by (auto simp: returns_iff)
  have len2: "length (log rf2) = ?n + k" using len1 assms(4) by (simp add: r2(4) ae_log_def)
  have "commitIdx rf1 = int (length (log rf1)) - 1"
    using assms(5,6) by (simp add: r1(4,5) ae_commit_def)
  moreover have "commitIdx rf2 = commitIdx rf1"
    using calculation len1 assms(2,4) by (simp add: r2(5) ae_commit_def)
  moreover have "appliedIdx rf2 = commitIdx rf2"
    using raft_wfD(5) [of rf2] r2(2) by (simp add: raft_ok_def)
  ultimately show ?thesis using r1 r2 len1 len2 assms(4) by auto
qed

theorem stale_append_truncates_witness:
  "\<exists>rep1 rf1 rep2 rf2. AppendEntries 1 \<lparr>aea_Term = 1, aea_LeaderId = 1, aea_LastLogIndex = 0, aea_LastLogTerm = 0,
      aea_Entries = [\<lparr>Term = 1, Cmd = Some ''a''\<rparr>], aea_LeaderCommitIdx = 1\<rparr> witness_server = Ret (rep1, rf1) \<and>
    AppendEntries 2 \<lparr>aea_Term = 1, aea_LeaderId = 1, aea_LastLogIndex = 0, aea_LastLogTerm = 0,
      aea_Entries = [], aea_LeaderCommitIdx = 0\<rparr> rf1 = Ret (rep2, rf2) \<and>
    Success rep2 \<and> int (length (log rf2)) \<le> appliedIdx rf2"
proof -
  have ok: "raft_ok witness_server"
    by (simp add: witness_server_def raft_ok_def raft_wf_def saved_def)
  show ?thesis
    using stale_append_truncates [OF ok, of "\<lparr>aea_Term = 1, aea_LeaderId = 1, aea_LastLogIndex = 0, aea_LastLogTerm = 0,
      aea_Entries = [\<lparr>Term = 1, Cmd = Some ''a''\<rparr>], aea_LeaderCommitIdx = 1\<rparr>" 0 1 2]
    by (auto simp: ae_match_def ae_log_def witness_server_def)
qed

text \<open>
  C34: a leader counts an acknowledgement of entries it sent in an earlier term, as long as the
  reply carries no newer term: the recorded index of the peer becomes the position after the old
  message, whatever the peer's log holds now.
\<close>

theorem stale_reply_counted:
  assumes "raft_ok rf" "tracks_peers rf" "0 \<le> j" "j < int (npeers rf)" "Success aer"
    and "aer_Term aer \<le> aea_Term aea" "aea_Term aea < term rf"
  shows "\<exists>rf'. ae_reply j aea aer rf = Ret rf' \<and> term rf' = term rf \<and> st rf' = st rf \<and>
    atServer rf' = (atServer rf)[nat j := aea_LastLogIndex aea + int (length (aea_Entries aea))]"
  using assms by (simp add: ae_reply_def msgCommon_def Let_def updl_def tracks_peers_def)

theorem stale_reply_counted_witness:
  "\<exists>rf'. ae_reply 2 \<lparr>aea_Term = 0, aea_LeaderId = 0, aea_LastLogIndex = 0, aea_LastLogTerm = 0,
      aea_Entries = [\<lparr>Term = 0, Cmd = Some ''old''\<rparr>], aea_LeaderCommitIdx = 0\<rparr>
      \<lparr>aer_Term = 0, Success = True, XTerm = - 1, XIndex = - 1, XLen = - 1\<rparr>
      (witness_leader\<lparr>persisted := Some (encoded witness_leader)\<rparr>) = Ret rf' \<and> atServer rf' = [1, 1, 1]"
proof -
  let ?rf = "witness_leader\<lparr>persisted := Some (encoded witness_leader)\<rparr>"
  have ok: "raft_ok ?rf"
    by (simp add: raft_ok_def raft_wf_def saved_def encoded_def witness_leader_def witness_server_def all_less_two)
  have t: "tracks_peers ?rf" by (simp add: witness_leader_def witness_server_def tracks_peers_def)
  have "(2::nat) = Suc (Suc 0)" by simp
  then show ?thesis
    using stale_reply_counted [OF ok t, of 2 "\<lparr>aer_Term = 0, Success = True, XTerm = - 1, XIndex = - 1, XLen = - 1\<rparr>"
      "\<lparr>aea_Term = 0, aea_LeaderId = 0, aea_LastLogIndex = 0, aea_LastLogTerm = 0,
      aea_Entries = [\<lparr>Term = 0, Cmd = Some ''old''\<rparr>], aea_LeaderCommitIdx = 0\<rparr>"]
    by (auto simp: witness_leader_def witness_server_def)
qed

subsection \<open>Snapshots\<close>

text \<open>
  A follower that has discarded the entry before the leader's entries refuses them without a
  hint, and the leader learns nothing from the refusal: it will send the same message again, and
  the follower never catches up through it.
\<close>

theorem discarded_entry_no_progress:
  assumes "raft_ok rf" "0 \<le> aea_LastLogIndex a" "aea_LastLogIndex a < snapshotIndex rf" "term rf \<le> aea_Term a"
    and "aea_Term a \<le> term ldr"
  shows "\<exists>rep rf'. AppendEntries now a rf = Ret (rep, rf') \<and> \<not> Success rep \<and> log rf' = log rf \<and>
    ae_reply j a rep ldr = Ret ldr"
proof -
  have wf: "raft_wf rf" using assms(1) by (simp add: raft_ok_def)
  obtain r rf1 where m: "msgCommon (aea_Term a) rf = Ret (r, rf1)" and f1: "term rf1 = aea_Term a" "log rf1 = log rf"
    using msgCommon_ok [OF assms(1), of "aea_Term a"] assms(4) by (auto simp: returns_iff)
  have "log rf ! nat (aea_LastLogIndex a) = None" "aea_LastLogIndex a < int (length (log rf))"
    using raft_wfD(2) [OF wf] raft_wfD(3) [OF wf, of "nat (aea_LastLogIndex a)"] assms(2,3) by (auto simp: nat_less_iff)
  then show ?thesis
    unfolding AppendEntries_def m outcome_bind.simps prod.case Let_def
    using f1 assms(2,5) by (simp add: nthl_def ae_reply_def msgCommon_def)
qed

theorem discarded_entry_no_progress_witness:
  "\<exists>rep rf'. AppendEntries 1 \<lparr>aea_Term = 1, aea_LeaderId = 1, aea_LastLogIndex = 0, aea_LastLogTerm = 0,
      aea_Entries = [], aea_LeaderCommitIdx = 0\<rparr>
      (witness_server\<lparr>log := [None, Some \<lparr>Term = 1, Cmd = None\<rparr>], snapshotIndex := 1, commitIdx := 1, appliedIdx := 1,
        persisted := Some (encoded (witness_server\<lparr>log := [None, Some \<lparr>Term = 1, Cmd = None\<rparr>], snapshotIndex := 1\<rparr>))\<rparr>)
      = Ret (rep, rf') \<and> ae_reply 0 \<lparr>aea_Term = 1, aea_LeaderId = 1, aea_LastLogIndex = 0, aea_LastLogTerm = 0,
      aea_Entries = [], aea_LeaderCommitIdx = 0\<rparr> rep witness_leader = Ret witness_leader"
proof -
  let ?rf = "witness_server\<lparr>log := [None, Some \<lparr>Term = 1, Cmd = None\<rparr>], snapshotIndex := 1, commitIdx := 1, appliedIdx := 1,
        persisted := Some (encoded (witness_server\<lparr>log := [None, Some \<lparr>Term = 1, Cmd = None\<rparr>], snapshotIndex := 1\<rparr>))\<rparr>"
  have ok: "raft_ok ?rf"
    by (simp add: raft_ok_def raft_wf_def saved_def encoded_def witness_server_def all_less_two)
  show ?thesis
    using discarded_entry_no_progress [OF ok, of "\<lparr>aea_Term = 1, aea_LeaderId = 1, aea_LastLogIndex = 0, aea_LastLogTerm = 0,
      aea_Entries = [], aea_LeaderCommitIdx = 0\<rparr>" witness_leader 1 0]
    by (auto simp: witness_server_def witness_leader_def)
qed

text \<open>
  C35: a snapshot that is more recent by its term but ends before the end of the log is installed
  and leaves the entries after it in place: the server then votes by the term of such an entry
  instead of the term of the snapshot, and grants its vote to a candidate whose last entry is
  older than the snapshot.
\<close>

theorem snapshot_keeps_stale_suffix:
  fixes rf :: "'c Raft"
  assumes "raft_ok rf" "snapshotIndex rf \<le> i" "i + 1 < int (length (log rf))" "Term (last_entry rf) < t"
  shows "\<exists>rf'. CondInstallSnapshot t i ss rf = Ret (True, rf') \<and> snapshotIndex rf' = i \<and> commitIdx rf' = i \<and>
    Term (the (log rf' ! nat i)) = t \<and> recent (int (length (log rf)) - 1) (Term (last_entry rf)) rf'"
proof -
  have wf: "raft_wf rf" using assms(1) by (simp add: raft_ok_def)
  have rec: "otherIsRecent i t rf = Ret True"
    using otherIsRecent_wf [OF wf] assms(4) by (simp add: recent_def)
  obtain rf' where d: "doInstallSnapshot i t ss True rf = Ret rf'" "snapshotIndex rf' = i" "commitIdx rf' = i"
    "length (log rf') = max (nat i + 1) (length (log rf))" "Term (the (log rf' ! nat i)) = t"
    "drop (nat i + 1) (log rf') = drop (nat i + 1) (log rf)"
    using doInstallSnapshot_ok [OF wf assms(2), of True t ss] by (auto simp: returns_iff)
  have i: "0 \<le> i" using raft_wfD(1) [OF wf] assms(2) by simp
  have len: "length (log rf') = length (log rf)" "nat i + 1 < length (log rf)"
    using d(4) assms(3) i by auto
  obtain m where m: "length (log rf) = Suc (nat i + 1 + m)"
    using len(2) less_imp_Suc_add by blast
  have "log rf' ! (nat i + 1 + m) = drop (nat i + 1) (log rf') ! m" using len(1) m by simp
  also have "\<dots> = log rf ! (nat i + 1 + m)" unfolding d(6) using m by simp
  finally have "last_entry rf' = last_entry rf" using len m by (simp add: last_entry_def)
  then have "recent (int (length (log rf)) - 1) (Term (last_entry rf)) rf'"
    using len by (simp add: recent_def)
  with rec d show ?thesis by (simp add: CondInstallSnapshot_def)
qed

theorem snapshot_keeps_stale_suffix_witness:
  "\<exists>rf'. CondInstallSnapshot 2 0 ''s'' (witness_leader\<lparr>persisted := Some (encoded witness_leader)\<rparr>) = Ret (True, rf') \<and>
    Term (the (log rf' ! 0)) = 2 \<and> recent 1 1 rf'"
proof -
  let ?rf = "witness_leader\<lparr>persisted := Some (encoded witness_leader)\<rparr>"
  have ok: "raft_ok ?rf"
    by (simp add: raft_ok_def raft_wf_def saved_def encoded_def witness_leader_def witness_server_def all_less_two)
  show ?thesis
    using snapshot_keeps_stale_suffix [OF ok, of 0 2 "''s''"]
    by (auto simp: witness_leader_def witness_server_def last_entry_def)
qed

end
