(* ===== verification/Jrnl_Client.thy ===== *)
theory Jrnl_Client
  imports Jrnl_Spec
begin

section \<open>Inside a transaction\<close>

text \<open>
  The rules a client of the journal uses between \<open>BeginTransaction\<close> and \<open>EndTransaction\<close>: on any
  disk that satisfies \<open>block_store\<close>, with transaction \<open>i\<close> open and the writes \<open>ws\<close> in its segment,
  other transactions open or not. No data changes before the transaction ends, so one crash
  condition serves all of it.
\<close>

definition a_at :: "ajournal \<Rightarrow> nat \<Rightarrow> wr list \<Rightarrow> ajournal" where
  "a_at a i ws = a\<lparr>a_segs := (a_segs a)(i \<mapsto> ws)\<rparr>"

lemma a_at_simps [simp]:
  "a_data (a_at a i ws) = a_data a" "a_open (a_at a i ws) = a_open a"
  "a_segs (a_at a i ws) = (a_segs a)(i \<mapsto> ws)" "a_write i w (a_at a i ws) = a_at a i (ws @ [w])"
  by (simp_all add: a_at_def a_write_def)

context block_store
begin

definition in_txn :: "ajournal \<Rightarrow> nat \<Rightarrow> wr list \<Rightarrow> 's \<Rightarrow> bool" where
  "in_txn a i ws s \<longleftrightarrow> okay s \<and> jrnl_free (held s) \<and> i \<in> a_open a \<and> jrnl_on (card (a_open a)) (val s) (a_at a i ws)"

definition csafe :: "(uint \<Rightarrow> string) \<Rightarrow> (string \<Rightarrow> 's \<Rightarrow> bool) \<Rightarrow> bool" where
  "csafe D C \<longleftrightarrow> (\<forall>V. recovers_to V D \<longrightarrow> safe C V)"

lemma in_txnD:
  assumes "in_txn a i ws s"
  shows "okay s" "jrnl_free (held s)" "data_blk n \<Longrightarrow> val s n = a_data a n" "recovers_to (val s) (a_data a)"
    "length ws \<le> 100"
proof -
  have on: "jrnl_on (card (a_open a)) (val s) (a_at a i ws)" using assms by (simp add: in_txn_def)
  show "okay s" "jrnl_free (held s)" using assms by (simp_all add: in_txn_def)
  show "data_blk n \<Longrightarrow> val s n = a_data a n" using jrnl_onD(6) [OF on] by (simp add: same_data_def)
  show "recovers_to (val s) (a_data a)" using jrnl_on_recovers [OF on] by simp
  show "length ws \<le> 100" using jrnl_on_seg(2) [OF on, of i ws] by simp
qed

lemma in_txn_frame:
  assumes "in_txn a i ws s" "okay s'" "val s' = val s" "held s' = (held s)(n := b)" "data_blk n"
  shows "in_txn a i ws s'"
  using assms by (simp add: in_txn_def jrnl_free_def)

lemma txn_Bget:
  assumes "in_txn a i ws s" "data_blk n" "\<not> held s n" "csafe (a_data a) C"
    and "\<And>s'. in_txn a i ws s' \<Longrightarrow> held s' = (held s)(n := True) \<Longrightarrow> wp (f \<lparr>Nr = n, Data = a_data a n\<rparr>) Q C s'"
  shows "wp (io_bind (Bget dsk n) f) Q C s"
proof (rule bind_Bget)
  show "safe C (val s)" using assms(4) in_txnD(4) [OF assms(1)] by (simp add: csafe_def)
  fix s' assume "okay s'" "val s' = val s" "held s' = (held s)(n := True)"
  with assms(5) in_txn_frame [OF assms(1)] in_txnD(3) [OF assms(1,2)] assms(2)
  show "wp (f \<lparr>Nr = n, Data = val s n\<rparr>) Q C s'" by simp
qed (use in_txnD [OF assms(1)] assms(3) in auto)

lemma txn_Brelse:
  assumes "in_txn a i ws s" "data_blk (Nr b)" "csafe (a_data a) C"
    and "\<And>r s'. in_txn a i ws s' \<Longrightarrow> held s' = (held s)(Nr b := False) \<Longrightarrow> wp (f r) Q C s'"
  shows "wp (io_bind (Brelse dsk b) f) Q C s"
proof (rule bind_Brelse)
  show "safe C (val s)" using assms(3) in_txnD(4) [OF assms(1)] by (simp add: csafe_def)
  fix r s' assume "okay s'" "val s' = val s" "held s' = (held s)(Nr b := False)"
  with assms(4) in_txn_frame [OF assms(1)] assms(2) show "wp (f r) Q C s'" by blast
qed (use in_txnD [OF assms(1)] in auto)

lemma txn_WriteBlock:
  assumes "in_txn a i ws s" "data_blk (Nr b)" "CHR ''/'' \<notin> set (Data b)" "length ws < 100" "csafe (a_data a) C"
    and "\<And>s'. in_txn a i (ws @ [(Nr b, Data b)]) s' \<Longrightarrow> held s' = held s \<Longrightarrow>
      wp (f (None, handle i (ws @ [(Nr b, Data b)]))) Q C s'"
  shows "wp (io_bind (WriteBlock dsk (handle i ws) b) f) Q C s"
  by (rule wp_Write_refines [where a = "a_at a i ws" and k = "card (a_open a)"])
    (use assms in \<open>auto simp: in_txn_def csafe_def\<close>)

lemma txn_WriteBlock_full:
  assumes "length ws = 100" and "wp (f (Some ''too many blocks written'', handle i ws)) Q C s"
  shows "wp (io_bind (WriteBlock dsk (handle i ws) b) f) Q C s"
  using assms by (simp add: WriteBlock_def handle_def blkPerSys_def)

text \<open>From a journal without transactions, and back.\<close>

definition idle_on :: "(uint \<Rightarrow> string) \<Rightarrow> 's \<Rightarrow> bool" where
  "idle_on D s \<longleftrightarrow> okay s \<and> jrnl_free (held s) \<and> jrnl_on 0 (val s) \<lparr>a_data = D, a_segs = Map.empty, a_open = {}\<rparr>"

definition a_single :: "(uint \<Rightarrow> string) \<Rightarrow> ajournal" where
  "a_single D = \<lparr>a_data = D, a_segs = Map.empty, a_open = {0}\<rparr>"

lemma a_single_data [simp]: "a_data (a_single D) = D"
  by (simp add: a_single_def)

lemma idle_onD:
  assumes "idle_on D s"
  shows "okay s" "jrnl_free (held s)" "data_blk n \<Longrightarrow> val s n = D n" "recovers_to (val s) D"
proof -
  have on: "jrnl_on 0 (val s) \<lparr>a_data = D, a_segs = Map.empty, a_open = {}\<rparr>" using assms by (simp add: idle_on_def)
  show "okay s" "jrnl_free (held s)" using assms by (simp_all add: idle_on_def)
  show "data_blk n \<Longrightarrow> val s n = D n" using jrnl_onD(6) [OF on] by (simp add: same_data_def)
  show "recovers_to (val s) D" using jrnl_on_recovers [OF on] by simp
qed

lemma idle_on_frame:
  assumes "idle_on D s" "okay s'" "val s' = val s" "held s' = (held s)(n := b)" "data_blk n"
  shows "idle_on D s'"
  using assms by (simp add: idle_on_def jrnl_free_def)

lemma txn_Begin:
  assumes "idle_on D s" "csafe D C"
    and "\<And>s'. in_txn (a_single D) 0 [] s' \<Longrightarrow> held s' = held s \<Longrightarrow> wp (f (handle 0 [])) Q C s'"
  shows "wp (io_bind (BeginTransaction dsk) f) Q C s"
proof (rule wp_Begin_refines [where a = "\<lparr>a_data = D, a_segs = Map.empty, a_open = {}\<rparr>"], goal_cases)
  case (6 i s')
  then have i: "i = 0" by auto
  with 6 have "in_txn (a_single D) 0 [] s'"
    using idle_onD(2) [OF assms(1)] by (simp add: in_txn_def a_single_def a_at_def a_begin_def)
  with 6 i assms(3) show ?case by simp
next
  case 4
  have "(0::nat) \<in> {..<1000}" by simp
  then show ?case by (metis dom_empty empty_iff ajournal.select_convs(2))
qed (use assms(1,2) in \<open>auto simp: idle_on_def csafe_def\<close>)

lemma txn_End:
  assumes "in_txn (a_single D) 0 ws s" "ws \<noteq> []" "csafe D C" "csafe (apply_writes ws D) C"
    and "\<And>s'. idle_on (apply_writes ws D) s' \<Longrightarrow> \<forall>n. held s' n \<longrightarrow> held s n \<and> n \<notin> fst ` set ws \<Longrightarrow> Q () s'"
  shows "wp (EndTransaction dsk (handle 0 ws) abt) Q C s"
proof -
  have e: "a_end 0 (a_at (a_single D) 0 ws) = \<lparr>a_data = apply_writes ws D, a_segs = Map.empty, a_open = {}\<rparr>"
    by (simp add: a_end_def a_close_def a_commit_def a_at_def a_single_def a_log_def)
  have l: "a_log (a_at (a_single D) 0 ws) = ws" "a_open (a_at (a_single D) 0 ws) = {0}"
    by (simp_all add: a_log_def a_at_def a_single_def)
  show ?thesis
    by (rule wp_End_refines [where a = "a_at (a_single D) 0 ws"], unfold e l)
      (use assms in \<open>auto simp: in_txn_def csafe_def idle_on_def a_single_def\<close>)
qed

lemma txn_Abort:
  assumes "in_txn (a_single D) 0 ws s" "csafe D C"
    and "\<And>s'. idle_on D s' \<Longrightarrow> \<forall>n. held s' n \<longrightarrow> held s n \<Longrightarrow> Q () s'"
  shows "wp (AbortTransaction dsk (handle 0 ws)) Q C s"
proof -
  have e: "a_abort 0 (a_at (a_single D) 0 ws) = \<lparr>a_data = D, a_segs = Map.empty, a_open = {}\<rparr>"
    by (simp add: a_abort_def a_drop_def a_commit_def a_at_def a_single_def a_log_def fun_upd_idem)
  show ?thesis
    by (rule wp_Abort_refines [where a = "a_at (a_single D) 0 ws"], unfold e)
      (use assms in \<open>auto simp: in_txn_def csafe_def idle_on_def a_single_def\<close>)
qed

end

lemma mock_idle_on: "jrnl_idle m \<Longrightarrow> mock.idle_on (mock_val m) m"
  using jrnl_on_idle [of m] jrnl_free_idle [of m] by (simp add: mock.idle_on_def a_idle_def)

end
