(* ===== verification/Balloc.thy ===== *)
theory Balloc
  imports Jrnl_Client
begin

section \<open>The block allocator: src/balloc\<close>

text \<open>
  A block after the journal holds one byte per data block, zero for a free one. The allocator
  reads it, changes it and writes it back through the transaction of its caller; the lock of the
  block is held in between. A bitmap is a string; a byte is a character. The address of the first
  data block, a variable of the package that \<open>InitBalloc\<close> sets, is the argument \<open>startData\<close>.
\<close>

subsection \<open>bitmap.go\<close>

definition bitmapBlock :: uint where
  "bitmapBlock = EndJrnl + 1"

definition getBitmap :: "'s Disk \<Rightarrow> ('s, string) io" where
  "getBitmap dsk =
     io_bind (Bget dsk bitmapBlock) (\<lambda>blk.
       io_return (if Data blk = [] then replicate 4096 CHR 0x00 else Data blk))"

definition setBit :: "string \<Rightarrow> uint \<Rightarrow> string outcome" where
  "setBit b nr = (if unat nr < length b then Ret (b[unat nr := CHR 0x01]) else Fatal ''index out of range'')"

definition clearBit :: "string \<Rightarrow> uint \<Rightarrow> string outcome" where
  "clearBit b nr = (if unat nr < length b then Ret (b[unat nr := CHR 0x00]) else Fatal ''index out of range'')"

definition updateAndRelseBitmap :: "'s Disk \<Rightarrow> TxnHandle \<Rightarrow> string \<Rightarrow> ('s, goerr \<times> TxnHandle) io" where
  "updateAndRelseBitmap dsk t b =
     (let blk = \<lparr>Nr = bitmapBlock, Data = b\<rparr> in
      io_bind (WriteBlock dsk t blk) (\<lambda>(err, t').
        if err \<noteq> None then io_return (err, t')
        else io_bind (Brelse dsk blk) (\<lambda>_. io_return (None, t'))))"

subsection \<open>balloc.go\<close>

text \<open>
  The loops of \<open>AllocBlocks\<close>: \<open>n\<close> times, the first free block is taken, if there is one.
\<close>

definition first_free :: "string \<Rightarrow> nat option" where
  "first_free b = find (\<lambda>i. b ! i = CHR 0x00) [0..<length b]"

fun alloc_loop :: "uint \<Rightarrow> nat \<Rightarrow> string \<Rightarrow> (uint list \<times> string) outcome" where
  "alloc_loop startData 0 b = Ret ([], b)"
| "alloc_loop startData (Suc n) b =
     (case first_free b of
        None \<Rightarrow> alloc_loop startData n b
      | Some i \<Rightarrow>
          outcome_bind (setBit b (of_nat i)) (\<lambda>b1.
          outcome_bind (alloc_loop startData n b1) (\<lambda>(blks, b2).
            Ret ((of_nat i + startData) # blks, b2))))"

text \<open>
  \<open>AllocBlocks\<close>: the loop counts \<open>cnt\<close> itself down, so the attempt after the label \<open>retry\<close> has
  \<open>cnt = 0\<close>.
\<close>

partial_function (option) AllocBlocks ::
  "'s Disk \<Rightarrow> uint \<Rightarrow> TxnHandle \<Rightarrow> uint \<Rightarrow> 's \<Rightarrow> ((uint list \<times> TxnHandle) outcome \<times> 's) option"
where
  "AllocBlocks dsk startData t n s =
     io_bind (getBitmap dsk) (\<lambda>btmp.
     io_bind (io_of_outcome (alloc_loop startData (unat n) btmp)) (\<lambda>r.
       if length (fst r) < unat n then io_fatal ''no blocks to alloc big sad''
       else
         io_bind (updateAndRelseBitmap dsk t (snd r)) (\<lambda>u.
           if fst u \<noteq> None then AllocBlocks dsk startData (snd u) 0
           else io_return (fst r, snd u)))) s"

fun relse_loop :: "uint \<Rightarrow> uint list \<Rightarrow> string \<Rightarrow> string outcome" where
  "relse_loop startData [] b = Ret b"
| "relse_loop startData (bn # bns) b =
     (if bn < startData then Fatal ''illegal block to relse''
      else
        (let i = bn - startData in
         if length b \<le> unat i then Fatal ''index out of range''
         else if b ! unat i = CHR 0x00 then Fatal ''double free in bitmap''
         else outcome_bind (clearBit b i) (relse_loop startData bns)))"

partial_function (option) RelseBlocks ::
  "'s Disk \<Rightarrow> uint \<Rightarrow> TxnHandle \<Rightarrow> uint list \<Rightarrow> 's \<Rightarrow> (TxnHandle outcome \<times> 's) option"
where
  "RelseBlocks dsk startData t bns s =
     io_bind (getBitmap dsk) (\<lambda>btmp.
     io_bind (io_of_outcome (relse_loop startData bns btmp)) (\<lambda>b.
     io_bind (updateAndRelseBitmap dsk t b) (\<lambda>u.
       if fst u \<noteq> None then RelseBlocks dsk startData (snd u) bns
       else io_return (snd u)))) s"

subsection \<open>Allocating the first free blocks\<close>

definition frees :: "string \<Rightarrow> nat list" where
  "frees b = filter (\<lambda>i. b ! i = CHR 0x00) [0..<length b]"

definition marked :: "string \<Rightarrow> nat set \<Rightarrow> string" where
  "marked b S = map (\<lambda>i. if i \<in> S then CHR 0x01 else b ! i) [0..<length b]"

lemma length_marked [simp]: "length (marked b S) = length b"
  by (simp add: marked_def)

lemma nth_marked [simp]: "i < length b \<Longrightarrow> marked b S ! i = (if i \<in> S then CHR 0x01 else b ! i)"
  by (simp add: marked_def)

lemma marked_empty [simp]: "marked b {} = b"
  by (rule nth_equalityI) auto

lemma marked_insert: "i < length b \<Longrightarrow> marked (b[i := CHR 0x01]) S = marked b (insert i S)"
  by (rule nth_equalityI) (auto simp: nth_list_update)

lemma set_frees: "set (frees b) = {i. i < length b \<and> b ! i = CHR 0x00}"
  by (auto simp: frees_def)

lemma distinct_frees [simp]: "distinct (frees b)" and sorted_frees [simp]: "sorted (frees b)"
  by (simp_all add: frees_def sorted_wrt_filter)

lemma first_free_frees: "first_free b = (case frees b of [] \<Rightarrow> None | i # _ \<Rightarrow> Some i)"
proof -
  have "find P xs = (case filter P xs of [] \<Rightarrow> None | x # _ \<Rightarrow> Some x)" for P and xs :: "nat list"
    by (induction xs) auto
  then show ?thesis by (simp add: first_free_def frees_def)
qed

lemma frees_take_one:
  assumes "frees b = i # js"
  shows "i < length b" "frees (b[i := CHR 0x01]) = js"
proof -
  show i: "i < length b" using assms set_frees [of b] by auto
  have "frees (b[i := CHR 0x01]) = filter (\<lambda>j. j \<noteq> i) (frees b)"
    using i by (auto simp: frees_def nth_list_update intro!: filter_cong)
  also have "\<dots> = js" using assms distinct_frees [of b] by (auto simp: filter_id_conv)
  finally show "frees (b[i := CHR 0x01]) = js" .
qed

lemma alloc_loop_eq:
  assumes "length b < 2 ^ 64"
  shows "alloc_loop sd n b =
    Ret (map (\<lambda>i. of_nat i + sd) (take n (frees b)), marked b (set (take n (frees b))))"
  using assms
proof (induction n arbitrary: b)
  case (Suc n)
  show ?case
  proof (cases "frees b")
    case Nil
    with Suc show ?thesis by (simp add: first_free_frees)
  next
    case (Cons i js)
    note fr = frees_take_one [OF Cons]
    have "unat (of_nat i :: uint) = i"
      using fr(1) Suc.prems by (simp add: unat_of_nat take_bit_nat_eq_self)
    with Suc fr Cons show ?thesis by (simp add: first_free_frees setBit_def marked_insert)
  qed
qed simp

text \<open>The number of a block is the index of its byte.\<close>

lemma block_index:
  assumes "i < length b" "unat sd + length b \<le> 2 ^ 64"
  shows "\<not> (of_nat i + sd :: uint) < sd" "unat (of_nat i + sd - sd) = i" "unat (of_nat i + sd) = i + unat sd"
proof -
  have i: "unat (of_nat i :: uint) = i"
    using assms unsigned_less [of sd] by (simp add: unat_of_nat take_bit_nat_eq_self)
  show *: "unat (of_nat i + sd) = i + unat sd"
    using assms i by (subst unat_plus_simple [THEN iffD1]) (simp_all add: no_olen_add_nat)
  show "\<not> (of_nat i + sd :: uint) < sd" using * by (simp add: word_less_nat_alt)
  show "unat (of_nat i + sd - sd) = i" using i by simp
qed

lemma relse_loop_marked:
  assumes "distinct is" "set is \<subseteq> {i. i < length b \<and> b ! i = CHR 0x00}" "unat sd + length b \<le> 2 ^ 64"
  shows "relse_loop sd (map (\<lambda>i. of_nat i + sd) is) (marked b (set is \<union> S)) = Ret (marked b (S - set is))"
  using assms(1,2)
proof (induction "is" arbitrary: S)
  case (Cons i js)
  note bi = block_index [OF _ assms(3), of i]
  have i: "i < length b" "b ! i = CHR 0x00" "i \<notin> set js" using Cons.prems by auto
  have "(marked b (set (i # js) \<union> S))[i := CHR 0x00] = marked b (set js \<union> (S - {i}))"
    using i by (intro nth_equalityI) (auto simp: nth_list_update)
  moreover have "relse_loop sd (map (\<lambda>i. of_nat i + sd) js) (marked b (set js \<union> (S - {i}))) = Ret (marked b (S - {i} - set js))"
    by (rule Cons.IH) (use Cons.prems in auto)
  moreover have "S - {i} - set js = S - insert i (set js)" by auto
  ultimately show ?case
    using i bi [OF i(1)] by (simp add: clearBit_def)
qed simp

subsection \<open>In a transaction\<close>

definition bitmap_of :: "(uint \<Rightarrow> string) \<Rightarrow> string" where
  "bitmap_of D = (if D bitmapBlock = [] then replicate 4096 CHR 0x00 else D bitmapBlock)"

lemma data_bitmapBlock [simp]: "data_blk bitmapBlock"
  by (simp add: data_blk_def bitmapBlock_def jrnl_consts)

lemma slash_marked: "CHR ''/'' \<notin> set b \<Longrightarrow> CHR ''/'' \<notin> set (marked b S)"
  by (auto simp: marked_def in_set_conv_nth)

context block_store
begin

lemma txn_updateAndRelseBitmap:
  assumes "in_txn a i ws s" "length ws < 100" "CHR ''/'' \<notin> set b" "csafe (a_data a) C"
    and "\<And>s'. in_txn a i (ws @ [(bitmapBlock, b)]) s' \<Longrightarrow> held s' = (held s)(bitmapBlock := False) \<Longrightarrow>
      wp (f (None, handle i (ws @ [(bitmapBlock, b)]))) Q C s'"
  shows "wp (io_bind (updateAndRelseBitmap dsk (handle i ws) b) f) Q C s"
  unfolding updateAndRelseBitmap_def Let_def io_bind_assoc
  by (rule txn_WriteBlock [OF assms(1)])
    (use assms in \<open>auto simp: io_bind_assoc intro!: txn_Brelse\<close>)

lemma txn_getBitmap:
  assumes "in_txn a i ws s" "\<not> held s bitmapBlock" "csafe (a_data a) C"
    and "\<And>s'. in_txn a i ws s' \<Longrightarrow> held s' = (held s)(bitmapBlock := True) \<Longrightarrow> wp (f (bitmap_of (a_data a))) Q C s'"
  shows "wp (io_bind (getBitmap dsk) f) Q C s"
  unfolding getBitmap_def io_bind_assoc
  by (rule txn_Bget [OF assms(1)]) (use assms in \<open>auto simp: bitmap_of_def\<close>)

lemma txn_AllocBlocks:
  fixes sd n :: uint and a :: ajournal
  defines "fr \<equiv> take (unat n) (frees (bitmap_of (a_data a)))"
  defines "w \<equiv> (bitmapBlock, marked (bitmap_of (a_data a)) (set fr))"
  assumes "in_txn a i ws s" "length ws < 100" "\<not> held s bitmapBlock" "csafe (a_data a) C"
    and bm: "CHR ''/'' \<notin> set (bitmap_of (a_data a))" "length (bitmap_of (a_data a)) < 2 ^ 64"
      "unat n \<le> length (frees (bitmap_of (a_data a)))"
    and "\<And>s'. in_txn a i (ws @ [w]) s' \<Longrightarrow> held s' = held s \<Longrightarrow>
      wp (f (map (\<lambda>i. of_nat i + sd) fr, handle i (ws @ [w]))) Q C s'"
  shows "wp (io_bind (AllocBlocks dsk sd (handle i ws) n) f) Q C s"
  unfolding wp_bind
proof (rule wp_unfold [where m = "AllocBlocks dsk sd (handle i ws) n", OF AllocBlocks.simps], rule txn_getBitmap [OF assms(3)])
  fix s1 assume s1: "in_txn a i ws s1" "held s1 = (held s)(bitmapBlock := True)"
  have loop: "alloc_loop sd (unat n) (bitmap_of (a_data a)) = Ret (map (\<lambda>i. of_nat i + sd) fr, snd w)"
    using alloc_loop_eq [OF bm(2), of sd "unat n"] by (simp add: fr_def w_def)
  have len: "length fr = unat n" using bm(3) by (simp add: fr_def)
  have w: "(bitmapBlock, snd w) = w" by (simp add: w_def)
  have slash: "CHR ''/'' \<notin> set (snd w)" using bm(1) by (simp add: w_def slash_marked)
  have "wp (io_bind (updateAndRelseBitmap dsk (handle i ws) (snd w)) (\<lambda>u.
      if fst u \<noteq> None then AllocBlocks dsk sd (snd u) 0 else io_return (map (\<lambda>i. of_nat i + sd) fr, snd u)))
      (\<lambda>x. wp (f x) Q C) C s1"
    by (rule txn_updateAndRelseBitmap [OF s1(1) assms(4) slash assms(6)])
      (use s1 assms(5,10) in \<open>auto simp: w fun_upd_idem\<close>)
  then show "wp (io_bind (io_of_outcome (alloc_loop sd (unat n) (bitmap_of (a_data a)))) (\<lambda>r.
      if length (fst r) < unat n then io_fatal ''no blocks to alloc big sad''
      else io_bind (updateAndRelseBitmap dsk (handle i ws) (snd r)) (\<lambda>u.
        if fst u \<noteq> None then AllocBlocks dsk sd (snd u) 0 else io_return (fst r, snd u))))
      (\<lambda>x. wp (f x) Q C) C s1"
    by (intro wp_bind_outcomeI [OF loop], unfold fst_conv snd_conv) (simp add: len)
qed (use assms in auto)

end

subsection \<open>Properties\<close>

text \<open>A transaction that allocates \<open>n\<close> blocks.\<close>

definition alloc_txn :: "'s Disk \<Rightarrow> uint \<Rightarrow> uint \<Rightarrow> ('s, uint list) io" where
  "alloc_txn dsk sd n =
     io_bind (BeginTransaction dsk) (\<lambda>t.
     io_bind (AllocBlocks dsk sd t n) (\<lambda>r.
     io_bind (EndTransaction dsk (snd r) False) (\<lambda>_. io_return (fst r))))"

lemma bitmap_of_nonempty [simp]: "bitmap_of D \<noteq> []"
  by (simp add: bitmap_of_def)

lemma bitmap_of_cong: "same_data V W \<Longrightarrow> bitmap_of V = bitmap_of W"
  by (simp add: bitmap_of_def same_data_def)

lemma marked_eq_Nil [simp]: "marked b S = [] \<longleftrightarrow> b = []"
  by (metis length_0_conv length_marked)

lemma bitmap_of_marked [simp]: "b \<noteq> [] \<Longrightarrow> bitmap_of (V(bitmapBlock := marked b S)) = marked b S"
  by (simp add: bitmap_of_def)

context block_store
begin

lemma wp_alloc_txn:
  fixes D :: "uint \<Rightarrow> string" and sd n :: uint
  defines "fr \<equiv> take (unat n) (frees (bitmap_of D))"
  defines "D' \<equiv> D(bitmapBlock := marked (bitmap_of D) (set fr))"
  assumes s: "idle_on D s" "\<not> held s bitmapBlock" and C: "csafe D C" "csafe D' C"
    and bm: "CHR ''/'' \<notin> set (bitmap_of D)" "length (bitmap_of D) < 2 ^ 64" "unat n \<le> length (frees (bitmap_of D))"
    and Q: "\<And>s'. idle_on D' s' \<Longrightarrow> Q (map (\<lambda>i. of_nat i + sd) fr) s'"
  shows "wp (alloc_txn dsk sd n) Q C s"
proof -
  let ?w = "(bitmapBlock, marked (bitmap_of D) (set fr))"
  have W: "apply_writes [?w] D = D'" by (simp add: D'_def)
  have fin: "wp (EndTransaction dsk (handle 0 [?w]) False) (\<lambda>_ s'. Q (map (\<lambda>i. of_nat i + sd) fr) s') C s'"
    if "in_txn (a_single D) 0 [?w] s'" for s'
    by (rule txn_End [OF that]) (use C Q W in auto)
  show ?thesis
    unfolding alloc_txn_def
  proof (rule txn_Begin [OF s(1) C(1)])
    fix s1 assume s1: "in_txn (a_single D) 0 [] s1" "held s1 = held s"
    show "wp (io_bind (AllocBlocks dsk sd (handle 0 []) n) (\<lambda>r.
        io_bind (EndTransaction dsk (snd r) False) (\<lambda>_. io_return (fst r)))) Q C s1"
      by (rule txn_AllocBlocks [OF s1(1)])
        (use s C bm s1 fin in \<open>auto simp: fr_def wp_bind wp_return_eta\<close>)
  qed
qed

end

text \<open>
  C23: the allocator. A transaction that allocates \<open>n\<close> blocks, when so many are free, comes to its
  end and returns \<open>n\<close> different blocks that were free, the first ones of the bitmap; afterwards the
  bitmap marks these and otherwise is as it was, and releasing them gives the old bitmap back.
\<close>

theorem AllocBlocks_allocates:
  fixes sd n :: uint
  assumes "jrnl_idle m" and "\<not> mock_held m bitmapBlock" and "bm = bitmap_of (mock_val m)"
    and "CHR ''/'' \<notin> set bm" and "unat sd + length bm < 2 ^ 64" and "unat n \<le> length (frees bm)"
  shows "\<exists>blks m'. alloc_txn mock_disk sd n m = Some (Ret blks, m') \<and> length blks = unat n \<and> distinct blks \<and>
    (\<forall>b \<in> set blks. sd \<le> b \<and> unat (b - sd) < length bm \<and> bm ! unat (b - sd) = CHR 0x00) \<and>
    bitmap_of (mock_val m') = marked bm ((\<lambda>b. unat (b - sd)) ` set blks) \<and>
    relse_loop sd blks (bitmap_of (mock_val m')) = Ret bm"
proof -
  let ?fr = "take (unat n) (frees bm)"
  let ?blks = "map (\<lambda>i. of_nat i + sd) ?fr"
  have sub: "set ?fr \<subseteq> {i. i < length bm \<and> bm ! i = CHR 0x00}"
    using set_take_subset [of "unat n" "frees bm"] set_frees [of bm] by auto
  have le: "unat sd + length bm \<le> 2 ^ 64" using assms(5) by simp
  note idx = block_index [OF _ le]
  have inj: "inj_on (\<lambda>i. of_nat i + sd) (set ?fr)"
    using sub idx(2) by (intro inj_onI) (metis (no_types, lifting) mem_Collect_eq subsetD)
  have img: "(\<lambda>b. unat (b - sd)) ` set ?blks = set ?fr"
    using sub idx(2) by (force simp: image_image)
  have "wp (alloc_txn mock_disk sd n) (\<lambda>r m'. r = ?blks \<and> bitmap_of (mock_val m') = marked bm (set ?fr)) (\<lambda>_ _. False) m"
  proof (rule mock.wp_alloc_txn [OF mock_idle_on [OF assms(1)] assms(2)])
    fix s' assume "mock.idle_on ((mock_val m)(bitmapBlock := marked (bitmap_of (mock_val m))
        (set (take (unat n) (frees (bitmap_of (mock_val m))))))) s'"
    from mock.idle_onD(3) [OF this data_bitmapBlock]
    show "map (\<lambda>i. of_nat i + sd) (take (unat n) (frees (bitmap_of (mock_val m)))) = ?blks \<and>
        bitmap_of (mock_val s') = marked bm (set ?fr)"
      by (simp add: assms(3) bitmap_of_def [of "mock_val s'"])
  qed (use assms in \<open>auto simp: mock.csafe_def crash_safe_def\<close>)
  then obtain m' where "alloc_txn mock_disk sd n m = Some (Ret ?blks, m')" "bitmap_of (mock_val m') = marked bm (set ?fr)"
    by (auto dest: wp_RetD)
  moreover have "relse_loop sd ?blks (marked bm (set ?fr)) = Ret bm"
    using relse_loop_marked [OF _ sub le, of "{}"] by simp
  moreover have "\<forall>b \<in> set ?blks. sd \<le> b \<and> unat (b - sd) < length bm \<and> bm ! unat (b - sd) = CHR 0x00"
    using sub idx by (auto simp: not_less)
  ultimately show ?thesis
    using assms(6) img inj by (intro exI [of _ ?blks] exI [of _ m']) (simp add: distinct_map)
qed

theorem AllocBlocks_allocates_witness:
  "\<exists>blks m'. alloc_txn mock_disk 116390 3 witness_disk = Some (Ret blks, m') \<and> length blks = 3 \<and> distinct blks"
proof -
  have bm: "bitmap_of (mock_val witness_disk) = replicate 4096 CHR 0x00"
    by (simp add: bitmap_of_def witness_disk_def mock_val_def mget_def bitmapBlock_def jrnl_consts)
  have "frees (replicate 4096 CHR 0x00) = [0..<4096]"
    by (simp add: frees_def filter_id_conv)
  moreover have "\<not> mock_held witness_disk bitmapBlock"
    by (simp add: mock_held_def witness_disk_def mget_def)
  ultimately show ?thesis
    using AllocBlocks_allocates [OF witness_disk_idle [folded witness_disk_def] _ bm [symmetric], of 116390 3] by auto
qed

subsection \<open>Waiting for a block\<close>

text \<open>On a mock disk, waiting for a block one holds never ends.\<close>

lemma Bget_held_never: "mock_held m n \<Longrightarrow> Bget mock_disk n m = None"
  by (subst Bget.simps) (simp add: io_bind_def mock_disk_def mock_held_def MockDisk_Acquire_held)

text \<open>
  \<open>Bget\<close> on a mock disk returns exactly when nobody holds the lock of the block, the caller
  included; then it returns the block, with its lock and nothing else changed.
\<close>

theorem Bget_returns_iff_free:
  "(\<exists>r. Bget mock_disk n m = Some r) \<longleftrightarrow> \<not> mock_held m n \<and>
    Bget mock_disk n m = Some (Ret \<lparr>Nr = n, Data = mock_val m n\<rparr>, m\<lparr>kv := (kv m)(lock_key (fmt_d n) \<mapsto> ''1'')\<rparr>)"
proof (cases "mock_held m n")
  case True
  then show ?thesis by (simp add: Bget_held_never)
next
  case False
  then have "MockDisk_Acquire (fmt_d n) m = Some (Ret (), m\<lparr>kv := (kv m)(lock_key (fmt_d n) \<mapsto> ''1'')\<rparr>)"
    by (subst MockDisk_Acquire.simps) (simp add: mock_held_def)
  then have "Bget mock_disk n m = Some (Ret \<lparr>Nr = n, Data = mock_val m n\<rparr>, m\<lparr>kv := (kv m)(lock_key (fmt_d n) \<mapsto> ''1'')\<rparr>)"
    by (subst Bget.simps) (simp add: io_bind_def io_return_def mock_disk_def MockDisk_Get_def mock_val_def)
  with False show ?thesis by simp
qed

lemma getBitmap_held_never: "mock_held m bitmapBlock \<Longrightarrow> getBitmap mock_disk m = None"
  by (simp add: getBitmap_def io_bind_def Bget_held_never)

text \<open>
  C37: a full transaction. When the segment of its transaction has no room for the bitmap, the
  allocation never returns: the write is refused, and the next attempt waits for the lock of the
  bitmap, which the call itself holds. (On the key-value service the lease runs out first; then
  the attempt asks for no blocks at all.)
\<close>

theorem AllocBlocks_full_hangs:
  assumes "blkPerSys \<le> offset t" and "\<not> mock_held m bitmapBlock" and "bm = bitmap_of (mock_val m)"
    and "length bm < 2 ^ 64" and "unat n \<le> length (frees bm)"
  shows "AllocBlocks mock_disk sd t n m = None"
proof -
  let ?m = "m\<lparr>kv := (kv m)(lock_key (fmt_d bitmapBlock) \<mapsto> ''1'')\<rparr>"
  have "MockDisk_Acquire (fmt_d bitmapBlock) m = Some (Ret (), ?m)"
    using assms(2) by (subst MockDisk_Acquire.simps) (simp add: mock_held_def)
  then have "Bget mock_disk bitmapBlock m = Some (Ret \<lparr>Nr = bitmapBlock, Data = mock_val m bitmapBlock\<rparr>, ?m)"
    by (subst Bget.simps) (simp add: io_bind_def io_return_def mock_disk_def MockDisk_Get_def mock_val_def)
  then have get: "getBitmap mock_disk m = Some (Ret bm, ?m)"
    using assms(3) by (simp add: getBitmap_def io_bind_def io_return_def bitmap_of_def)
  have "mock_held ?m bitmapBlock" by (simp add: mock_held_def)
  then have again: "AllocBlocks mock_disk sd t 0 ?m = None"
    by (subst AllocBlocks.simps) (simp add: io_bind_def getBitmap_held_never)
  obtain blks b where "alloc_loop sd (unat n) bm = Ret (blks, b)" "length blks = unat n"
    using alloc_loop_eq [OF assms(4), of sd "unat n"] assms(5) by simp
  with get again assms(1) show ?thesis
    by (subst AllocBlocks.simps)
      (simp add: io_bind_def io_of_outcome_def updateAndRelseBitmap_def WriteBlock_def io_return_def)
qed

theorem AllocBlocks_full_hangs_witness:
  "AllocBlocks mock_disk 116390 \<lparr>blkSeg = 0, offset = 100\<rparr> 1 \<lparr>kv = [fmt_d bitmapBlock \<mapsto> [CHR 0x00, CHR 0x00]]\<rparr> = None"
  by (rule AllocBlocks_full_hangs [OF _ _ refl])
    (simp_all add: blkPerSys_def mock_held_def mock_val_def bitmap_of_def frees_def)

end
