(* ===== verification/Inode.thy ===== *)
theory Inode
  imports Balloc "HOL-Library.Log_Nat"
begin

section \<open>Inodes: src/inode\<close>

text \<open>
  \<open>inode.go\<close> keeps one inode per block after the bitmap, \<open>iblock.go\<close> reads and writes files through
  the addresses in it. How an inode is written as bytes (\<open>encode.go\<close>) is the business of
  \<open>encoding/gob\<close>: the encoder and the decoder are arguments, \<open>ienc\<close> and \<open>idec\<close>. An inode is a value
  here; a method that changes it returns it. The diagnostic prints are left out.
\<close>

subsection \<open>inode.go\<close>

definition nDirectBlocks :: uint where
  "nDirectBlocks = 511"

definition firstInodeAddr :: uint where
  "firstInodeAddr = EndJrnl + 2"

definition numInodes :: uint where
  "numInodes = 16384"

definition EndInode :: uint where
  "EndInode = firstInodeAddr + numInodes + 1"

datatype IType = Dir | File

record Inode =
  Serialnum :: uint16
  Refcnt :: uint16
  Filesize :: uint
  Addrs :: "uint list"
  Mode :: IType

definition inode_block :: "uint16 \<Rightarrow> uint" where
  "inode_block inum = ucast inum + firstInodeAddr"

definition EnqWrite :: "'s Disk \<Rightarrow> (Inode \<Rightarrow> string) \<Rightarrow> TxnHandle \<Rightarrow> Inode \<Rightarrow> ('s, goerr \<times> TxnHandle) io" where
  "EnqWrite dsk ienc t i = WriteBlock dsk t \<lparr>Nr = inode_block (Serialnum i), Data = ienc i\<rparr>"

definition Relse :: "'s Disk \<Rightarrow> (Inode \<Rightarrow> string) \<Rightarrow> Inode \<Rightarrow> ('s, unit) io" where
  "Relse dsk ienc i =
     io_bind (Brelse dsk \<lparr>Nr = inode_block (Serialnum i), Data = ienc i\<rparr>) (\<lambda>_. io_return ())"

definition Renew :: "'s Disk \<Rightarrow> (Inode \<Rightarrow> string) \<Rightarrow> Inode \<Rightarrow> ('s, goerr) io" where
  "Renew dsk ienc i =
     io_bind (Brenew dsk \<lparr>Nr = inode_block (Serialnum i), Data = ienc i\<rparr>) (\<lambda>err.
       io_return (if err \<noteq> OK then Some ''failed to renew lock'' else None))"

text \<open>
  The scan of \<open>Alloci\<close>, from index \<open>i\<close> on with \<open>k\<close> inodes to go; \<open>Inl\<close> is the jump to \<open>retry\<close>.
\<close>

definition new_inode :: "nat \<Rightarrow> IType \<Rightarrow> Inode" where
  "new_inode i mode = \<lparr>Serialnum = of_nat i, Refcnt = 1, Filesize = 0, Addrs = [], Mode = mode\<rparr>"

fun alloci_scan ::
  "'s Disk \<Rightarrow> (Inode \<Rightarrow> string) \<Rightarrow> (string \<Rightarrow> Inode) \<Rightarrow> TxnHandle \<Rightarrow> IType \<Rightarrow> nat \<Rightarrow> nat \<Rightarrow>
   ('s, TxnHandle + Inode \<times> TxnHandle) io"
where
  "alloci_scan dsk ienc idec t mode 0 i = io_fatal ''no allocatable Inodes''"
| "alloci_scan dsk ienc idec t mode (Suc k) i =
     io_bind (Bget dsk (firstInodeAddr + of_nat i)) (\<lambda>blk.
       if Data blk = [] then
         (let ni = new_inode i mode in
          io_bind (EnqWrite dsk ienc t ni) (\<lambda>u.
            if fst u \<noteq> None then io_return (Inl (snd u)) else io_return (Inr (ni, snd u))))
       else if Refcnt (idec (Data blk)) = 0 then
         (let ni = new_inode i mode in
          io_bind (EnqWrite dsk ienc t ni) (\<lambda>u.
            if fst u \<noteq> None then io_return (Inl (snd u)) else io_return (Inr (ni, snd u))))
       else
         io_bind (Brelse dsk blk) (\<lambda>_. alloci_scan dsk ienc idec t mode k (Suc i)))"

partial_function (option) Alloci ::
  "'s Disk \<Rightarrow> (Inode \<Rightarrow> string) \<Rightarrow> (string \<Rightarrow> Inode) \<Rightarrow> TxnHandle \<Rightarrow> IType \<Rightarrow> 's \<Rightarrow>
   ((Inode \<times> TxnHandle) outcome \<times> 's) option"
where
  "Alloci dsk ienc idec t mode s =
     io_bind (alloci_scan dsk ienc idec t mode (unat numInodes) 0) (\<lambda>r.
       case r of
         Inl t' \<Rightarrow> Alloci dsk ienc idec t' mode
       | Inr x \<Rightarrow> io_return x) s"

definition Free ::
  "'s Disk \<Rightarrow> (Inode \<Rightarrow> string) \<Rightarrow> TxnHandle \<Rightarrow> Inode \<Rightarrow> ('s, goerr \<times> Inode \<times> TxnHandle) io"
where
  "Free dsk ienc t i =
     (if Refcnt i = 0 then io_fatal ''double free''
      else
        (let i' = i\<lparr>Refcnt := Refcnt i - 1\<rparr> in
         io_bind (EnqWrite dsk ienc t i') (\<lambda>u.
           if fst u \<noteq> None then io_return (fst u, i', snd u)
           else io_bind (Relse dsk ienc i') (\<lambda>_. io_return (None, i', snd u)))))"

definition Probei :: "'s Disk \<Rightarrow> uint16 \<Rightarrow> ('s, bool) io" where
  "Probei dsk inum =
     (let id = firstInodeAddr + ucast inum in
      if firstInodeAddr + numInodes \<le> id then io_fatal ''inode id out of range''
      else
        io_bind (Bget dsk id) (\<lambda>blk.
        io_bind (Brelse dsk blk) (\<lambda>_. io_return (Data blk \<noteq> []))))"

definition Geti :: "'s Disk \<Rightarrow> (string \<Rightarrow> Inode) \<Rightarrow> uint16 \<Rightarrow> ('s, Inode) io" where
  "Geti dsk idec inum =
     (let id = firstInodeAddr + ucast inum in
      if firstInodeAddr + numInodes \<le> id then io_fatal ''inode id out of range''
      else
        io_bind (Bget dsk id) (\<lambda>blk.
          if Data blk = [] then io_fatal ''empty Inode'' else io_return (idec (Data blk))))"

subsection \<open>iblock.go\<close>

text \<open>
  \<open>uint(math.Ceil(float64(a) / float64(b)))\<close>. The conversion to \<open>float64\<close> rounds to 53 bits, to even
  in the middle (\<open>float64_nat\<close>); every call has \<open>b = 4096\<close>, a power of two, by which the division is
  exact.
\<close>

definition float64_nat :: "nat \<Rightarrow> nat" where
  "float64_nat a =
     (if a < 2 ^ 53 then a
      else
        (let u = 2 ^ (floorlog 2 a - 53); q = a div u; r = a mod u in
         if 2 * r < u \<or> 2 * r = u \<and> even q then q * u else (q + 1) * u))"

definition saneCeil :: "uint \<Rightarrow> uint \<Rightarrow> uint" where
  "saneCeil a b = of_nat ((float64_nat (unat a) + unat b - 1) div unat b)"

definition increaseSize ::
  "'s Disk \<Rightarrow> (Inode \<Rightarrow> string) \<Rightarrow> uint \<Rightarrow> TxnHandle \<Rightarrow> Inode \<Rightarrow> uint \<Rightarrow> ('s, goerr \<times> Inode \<times> TxnHandle) io"
where
  "increaseSize dsk ienc startData t i ns =
     (if ns \<le> Filesize i then io_fatal ''unneeded alloc''
      else if nDirectBlocks < saneCeil ns 4096 then io_return (Some ''file would be too large'', i, t)
      else
        (let addedBlocks = saneCeil ns 4096 - saneCeil (Filesize i) 4096 in
         io_bind
           (if 0 < addedBlocks then
              io_bind (AllocBlocks dsk startData t addedBlocks) (\<lambda>r.
                io_return (i\<lparr>Addrs := Addrs i @ fst r\<rparr>, snd r))
            else io_return (i, t)) (\<lambda>it.
         let i' = (fst it)\<lparr>Filesize := ns\<rparr> in
         io_bind (EnqWrite dsk ienc (snd it) i') (\<lambda>u. io_return (None, i', snd u)))))"

definition truncate ::
  "'s Disk \<Rightarrow> (Inode \<Rightarrow> string) \<Rightarrow> uint \<Rightarrow> TxnHandle \<Rightarrow> Inode \<Rightarrow> ('s, Inode \<times> TxnHandle) io"
where
  "truncate dsk ienc startData t i =
     io_bind (RelseBlocks dsk startData t (Addrs i)) (\<lambda>t'.
     let i' = i\<lparr>Addrs := [], Filesize := 0\<rparr> in
     io_bind (EnqWrite dsk ienc t' i') (\<lambda>u. io_return (i', snd u)))"

text \<open>
  The loop of \<open>Readi\<close>, from the address of block \<open>j\<close> on; the slice of the addresses to come replaces
  the index.
\<close>

fun read_loop :: "'s Disk \<Rightarrow> uint list \<Rightarrow> uint \<Rightarrow> uint \<Rightarrow> string \<Rightarrow> ('s, string) io" where
  "read_loop dsk as count bo res =
     (if count = 0 then io_return res
      else
        (case as of
           [] \<Rightarrow> io_fatal ''index out of range''
         | a # as' \<Rightarrow>
             io_bind (Bget dsk a) (\<lambda>blk.
               if 0 < bo \<and> length (Data blk) \<le> unat bo then
                 io_bind (Brelse dsk blk) (\<lambda>_. io_return res)
               else
                 (let data = drop (unat bo) (Data blk);
                      toread = (if unat count < length data then unat count else length data);
                      res' = res @ take toread data
                  in
                  io_bind (Brelse dsk blk) (\<lambda>_.
                    if as' = [] then io_return res'
                    else read_loop dsk as' (count - of_nat toread) 0 res')))))"

definition Readi ::
  "'s Disk \<Rightarrow> (Inode \<Rightarrow> string) \<Rightarrow> (string \<Rightarrow> Inode) \<Rightarrow> uint16 \<Rightarrow> uint \<Rightarrow> uint \<Rightarrow> ('s, string) io"
where
  "Readi dsk ienc idec inum off count =
     io_bind (Geti dsk idec inum) (\<lambda>i.
     let bn = off div 4096; bo = off mod 4096 in
     io_bind
       (if length (Addrs i) \<le> unat bn then io_return []
        else read_loop dsk (drop (unat bn) (Addrs i)) count bo []) (\<lambda>res.
     io_bind (Relse dsk ienc i) (\<lambda>_. io_return res)))"

text \<open>
  The new content of a block in the loop of \<open>Writei\<close>: the block, the data left and the number of
  bytes left. The prefix \<open>bdata[:bo]\<close> panics when the block is shorter.
\<close>

definition write_block :: "uint \<Rightarrow> nat \<Rightarrow> string \<Rightarrow> string \<Rightarrow> (string \<times> string \<times> nat) outcome" where
  "write_block bo totalbytes data bdata =
     (if 0 < bo then
        (let o' = unat bo in
         if length bdata < o' then Fatal ''slice bounds out of range''
         else if 4096 - o' < totalbytes then
           Ret (take o' bdata @ take (4096 - o') data, drop (4096 - o') data, totalbytes - (4096 - o'))
         else if length bdata \<le> o' + length data then Ret (take o' bdata @ data, data, 0)
         else Ret (take o' bdata @ data @ drop (length data + o') bdata, data, 0))
      else if totalbytes < 4096 then
        if totalbytes < length bdata then Ret (take totalbytes data @ drop totalbytes bdata, data, 0)
        else Ret (take totalbytes data, data, 0)
      else Ret (take 4096 data, drop 4096 data, totalbytes - 4096))"

text \<open>The loop of \<open>Writei\<close>; an error of \<open>WriteBlock\<close> is not looked at.\<close>

fun write_loop :: "'s Disk \<Rightarrow> TxnHandle \<Rightarrow> uint list \<Rightarrow> uint \<Rightarrow> nat \<Rightarrow> string \<Rightarrow> ('s, TxnHandle) io" where
  "write_loop dsk t as bo totalbytes data =
     (if totalbytes = 0 then io_return t
      else
        (case as of
           [] \<Rightarrow> io_fatal ''index out of range''
         | a # as' \<Rightarrow>
             io_bind (Bget dsk a) (\<lambda>blk.
             io_bind (io_of_outcome (write_block bo totalbytes data (Data blk))) (\<lambda>r.
             let blk' = blk\<lparr>Data := fst r\<rparr> in
             io_bind (WriteBlock dsk t blk') (\<lambda>u.
             io_bind (Brelse dsk blk') (\<lambda>_.
               write_loop dsk (snd u) as' 0 (snd (snd r)) (fst (snd r))))))))"

definition Writei ::
  "'s Disk \<Rightarrow> (Inode \<Rightarrow> string) \<Rightarrow> (string \<Rightarrow> Inode) \<Rightarrow> uint \<Rightarrow> TxnHandle \<Rightarrow> uint16 \<Rightarrow> uint \<Rightarrow> string \<Rightarrow>
   ('s, (uint \<times> goerr) \<times> TxnHandle) io"
where
  "Writei dsk ienc idec startData t inum off data =
     io_bind (Geti dsk idec inum) (\<lambda>i.
     let bn = off div 4096; bo = off mod 4096;
         tb = (of_nat (length data) :: uint);
         leave = (\<lambda>i r t. io_bind (Relse dsk ienc i) (\<lambda>_. io_return (r, t)))
     in
     if nDirectBlocks \<le> bn then leave i (0, Some ''maximum valid blocks exceeded'') t
     else if Filesize i < off \<and> off \<noteq> 0 \<and> Filesize i \<noteq> 0 then
       leave i (0, Some ''tried to append past the end of the file'') t
     else if nDirectBlocks * 4096 < off + tb then leave i (0, Some ''that write too big'') t
     else
       io_bind
         (if Filesize i < off + tb then
            io_bind (increaseSize dsk ienc startData t i (off + tb)) (\<lambda>r. io_return (snd r))
          else io_return (i, t)) (\<lambda>it.
       io_bind (write_loop dsk (snd it) (drop (unat bn) (Addrs (fst it))) bo (length data) data) (\<lambda>t'.
         leave (fst it) (tb, None) t')))"

declare read_loop.simps [simp del] write_loop.simps [simp del]

subsection \<open>Reading\<close>

definition blocks_of :: "(uint \<Rightarrow> string) \<Rightarrow> uint list \<Rightarrow> string" where
  "blocks_of V as = concat (map V as)"

lemma blocks_of_simps [simp]:
  "blocks_of V [] = []" "blocks_of V (a # as) = V a @ blocks_of V as"
  "blocks_of V (as @ bs) = blocks_of V as @ blocks_of V bs"
  by (simp_all add: blocks_of_def)

lemma unat_minus_of_nat: "n \<le> unat w \<Longrightarrow> unat (w - of_nat n :: uint) = unat w - n"
proof -
  assume n: "n \<le> unat w"
  then have "n < 2 ^ LENGTH(64)" using unsigned_less [of w] by (rule le_less_trans)
  then have "unat (of_nat n :: uint) = n" by (simp add: unat_of_nat take_bit_nat_eq_self)
  with n show ?thesis by (simp add: unat_sub word_le_nat_alt)
qed

context block_store
begin

lemma wp_read_loop:
  assumes "okay s" "safe C (val s)" "\<forall>a \<in> set as. \<not> held s a" "as \<noteq> [] \<or> count = 0"
    and "bo = 0 \<or> as = [] \<or> unat bo < length (val s (hd as)) \<or> tl as = []"
    and "\<And>s'. okay s' \<Longrightarrow> val s' = val s \<Longrightarrow> held s' = held s \<Longrightarrow>
      Q (res @ take (unat count) (drop (unat bo) (blocks_of (val s) as))) s'"
  shows "wp (read_loop dsk as count bo res) Q C s"
  using assms
proof (induction as arbitrary: count bo res s)
  case Nil
  then show ?case by (simp add: read_loop.simps [of dsk "[]"])
next
  case (Cons a as)
  show ?case
  proof (cases "count = 0")
    case True
    with Cons.prems show ?thesis by (simp add: read_loop.simps [of dsk "a # as"])
  next
    case False
    let ?v = "val s a"
    let ?data = "drop (unat bo) ?v"
    let ?n = "if unat count < length ?data then unat count else length ?data"
    let ?res = "res @ take ?n ?data"
    have short: "tl (a # as) = []" "0 < unat bo" if "0 < bo \<and> length ?v \<le> unat bo"
      using that Cons.prems(5) by (auto simp: word_less_nat_alt)
    have full: "take (unat count) (drop (unat bo) (?v @ blocks_of (val s) as)) =
        take ?n ?data @ take (unat count - ?n) (blocks_of (val s) as)" if "\<not> (0 < bo \<and> length ?v \<le> unat bo)"
    proof -
      have "unat bo \<le> length ?v" using that by (auto simp: word_less_nat_alt)
      then show ?thesis by simp
    qed
    have step: "wp (if as = [] then io_return ?res else read_loop dsk as (count - of_nat ?n) 0 ?res) Q C s'"
      if s': "okay s'" "val s' = val s" "held s' = held s" and nb: "\<not> (0 < bo \<and> length ?v \<le> unat bo)" for s'
    proof (cases "as = []")
      case True
      with Cons.prems(6) [OF s'] full [OF nb] show ?thesis by simp
    next
      case ne: False
      have n: "unat (count - of_nat ?n) = unat count - ?n" by (rule unat_minus_of_nat) simp
      have "wp (read_loop dsk as (count - of_nat ?n) 0 ?res) Q C s'"
        by (rule Cons.IH) (use s' Cons.prems ne full [OF nb] n in \<open>auto simp del: blocks_of_simps(3)\<close>)
      with ne show ?thesis by simp
    qed
    have rel: "(held s)(a := True, a := False) = held s" using Cons.prems(3) by (auto simp: fun_eq_iff)
    show ?thesis
      unfolding read_loop.simps [of dsk "a # as"] Let_def
      using False Cons.prems(1-3) short Cons.prems(6) step rel
      by (auto intro!: bind_Bget bind_Brelse simp del: if_split)
  qed
qed

end

text \<open>Every block of a file is full, but for the last.\<close>

definition full_but_last :: "(uint \<Rightarrow> string) \<Rightarrow> uint list \<Rightarrow> bool" where
  "full_but_last V as \<longleftrightarrow>
     (\<forall>k. Suc k < length as \<longrightarrow> length (V (as ! k)) = 4096) \<and> (\<forall>a \<in> set as. length (V a) \<le> 4096)"

lemma full_but_last_Cons:
  "full_but_last V (a # as) \<longleftrightarrow>
     (if as = [] then length (V a) \<le> 4096 else length (V a) = 4096 \<and> full_but_last V as)"
proof (cases "as = []")
  case False
  have "(\<forall>k. Suc k < length (a # as) \<longrightarrow> length (V ((a # as) ! k)) = 4096) \<longleftrightarrow>
      length (V a) = 4096 \<and> (\<forall>k. Suc k < length as \<longrightarrow> length (V (as ! k)) = 4096)"
    using False by (auto simp: nth_Cons split: nat.splits)
  with False show ?thesis by (auto simp: full_but_last_def)
qed (simp add: full_but_last_def)

lemma full_but_last_drop: "full_but_last V as \<Longrightarrow> full_but_last V (drop n as)"
proof (induction as arbitrary: n)
  case (Cons a as)
  then show ?case
    by (cases n) (auto simp: full_but_last_Cons full_but_last_def [of V "[]"] split: if_splits)
qed simp

lemma drop_blocks_of:
  assumes "full_but_last V as"
  shows "n < length as \<Longrightarrow> drop (n * 4096) (blocks_of V as) = blocks_of V (drop n as)"
    and "length (blocks_of V as) \<le> length as * 4096"
  using assms
proof (induction as arbitrary: n)
  case (Cons a as)
  {
    case 1
    then show ?case
      using Cons.IH(1) [of "n - 1"] by (cases n) (auto simp: full_but_last_Cons split: if_splits)
  next
    case 2
    then show ?case
      using Cons.IH(2) by (cases "as = []") (auto simp: full_but_last_Cons)
  }
qed simp_all

lemma unat_ucast16 [simp]: "unat (ucast inum :: uint) = unat inum" for inum :: uint16
proof -
  have "unat inum < 2 ^ 16" using unsigned_less [where 'a = nat, of inum] by simp
  then have "unat inum < 2 ^ 64" by simp
  then show ?thesis by (simp add: unsigned_ucast_eq take_bit_nat_eq_self)
qed

lemma inode_block_less: "unat inum < 16384 \<Longrightarrow> \<not> firstInodeAddr + numInodes \<le> firstInodeAddr + ucast inum"
  for inum :: uint16
proof -
  assume "unat inum < 16384"
  then show ?thesis
    unfolding word_le_nat_alt firstInodeAddr_def numInodes_def jrnl_consts
    by (simp add: unat_word_ariths)
qed

lemma unat_inode_block: "unat (inode_block inum) = unat inum + 100005"
proof -
  have "unat inum < 65536" using unsigned_less [where 'a = nat, of inum] by simp
  then show ?thesis
    by (simp add: inode_block_def firstInodeAddr_def jrnl_consts unat_word_ariths)
qed

lemma data_inode_block [simp]: "data_blk (inode_block inum)"
  by (simp add: data_blk_def unat_inode_block)

text \<open>Inode \<open>inum\<close> is on the disk and is \<open>i\<close>.\<close>

definition inode_on :: "(Inode \<Rightarrow> string) \<Rightarrow> (string \<Rightarrow> Inode) \<Rightarrow> (uint \<Rightarrow> string) \<Rightarrow> uint16 \<Rightarrow> Inode \<Rightarrow> bool" where
  "inode_on ienc idec V inum i \<longleftrightarrow> unat inum < 16384 \<and> Serialnum i = inum \<and>
     V (inode_block inum) \<noteq> [] \<and> idec (V (inode_block inum)) = i"

context block_store
begin

lemma bind_Geti:
  assumes "okay s" "safe C (val s)" "inode_on ienc idec (val s) inum i" "\<not> held s (inode_block inum)"
    and "\<And>s'. okay s' \<Longrightarrow> val s' = val s \<Longrightarrow> held s' = (held s)(inode_block inum := True) \<Longrightarrow> wp (f i) Q C s'"
  shows "wp (io_bind (Geti dsk idec inum) f) Q C s"
proof -
  have id: "firstInodeAddr + ucast inum = inode_block inum" by (simp add: inode_block_def add.commute)
  have "\<not> firstInodeAddr + numInodes \<le> inode_block inum"
    using inode_block_less [of inum] assms(3) by (simp add: inode_on_def id)
  then show ?thesis
    using assms by (auto simp: Geti_def Let_def id io_bind_assoc inode_on_def intro!: bind_Bget)
qed

lemma bind_Relse:
  assumes "okay s" "safe C (val s)"
    and "\<And>s'. okay s' \<Longrightarrow> val s' = val s \<Longrightarrow> held s' = (held s)(inode_block (Serialnum i) := False) \<Longrightarrow> wp (f ()) Q C s'"
  shows "wp (io_bind (Relse dsk ienc i) f) Q C s"
  using assms by (auto simp: Relse_def io_bind_assoc intro!: bind_Brelse)

lemma wp_Readi:
  assumes s: "okay s" "safe C (val s)" and i: "inode_on ienc idec (val s) inum i" "full_but_last (val s) (Addrs i)"
    and free: "\<not> held s (inode_block inum)" "\<forall>a \<in> set (Addrs i). \<not> held s a \<and> a \<noteq> inode_block inum"
    and Q: "\<And>s'. okay s' \<Longrightarrow> val s' = val s \<Longrightarrow> held s' = held s \<Longrightarrow>
      Q (take (unat count) (drop (unat off) (blocks_of (val s) (Addrs i)))) s'"
  shows "wp (Readi dsk ienc idec inum off count) Q C s"
  unfolding Readi_def
proof (rule bind_Geti [OF s i(1) free(1)])
  fix s1 assume s1: "okay s1" "val s1 = val s" "held s1 = (held s)(inode_block inum := True)"
  let ?bn = "unat off div 4096" and ?bo = "unat off mod 4096"
  let ?c = "blocks_of (val s) (Addrs i)"
  have div: "unat (off div 4096) = ?bn" "unat (off mod 4096) = ?bo" by (simp_all add: unat_div unat_mod)
  have fin: "wp (io_bind (Relse dsk ienc i) (\<lambda>_. io_return (take (unat count) (drop (unat off) ?c)))) Q C s'"
    if "okay s'" "val s' = val s" "held s' = held s1" for s'
    using that s(2) s1 i(1) free(1) by (intro bind_Relse) (auto simp: inode_on_def fun_upd_idem intro!: Q)
  show "wp (let bn = off div 4096; bo = off mod 4096 in
      io_bind (if length (Addrs i) \<le> unat bn then io_return [] else read_loop dsk (drop (unat bn) (Addrs i)) count bo [])
        (\<lambda>res. io_bind (Relse dsk ienc i) (\<lambda>_. io_return res))) Q C s1"
  proof (cases "length (Addrs i) \<le> ?bn")
    case True
    then have "length ?c \<le> unat off"
      using drop_blocks_of(2) [OF i(2)] by (meson div_le_dividend le_trans less_eq_div_iff_mult_less_eq mult_le_mono1 zero_less_numeral)
    with True fin [OF s1(1,2)] show ?thesis by (simp add: Let_def div)
  next
    case False
    have dr: "drop (unat off) ?c = drop ?bo (blocks_of (val s) (drop ?bn (Addrs i)))"
    proof -
      have "drop (unat off) ?c = drop (?bo + ?bn * 4096) ?c" by simp
      also have "\<dots> = drop ?bo (drop (?bn * 4096) ?c)" by (simp only: drop_drop)
      also have "drop (?bn * 4096) ?c = blocks_of (val s) (drop ?bn (Addrs i))"
        using drop_blocks_of(1) [OF i(2), of ?bn] False by simp
      finally show ?thesis .
    qed
    have head: "tl (drop ?bn (Addrs i)) = [] \<or> ?bo < length (val s (hd (drop ?bn (Addrs i))))"
      using full_but_last_drop [OF i(2), of ?bn] False
      by (cases "drop ?bn (Addrs i)") (auto simp: full_but_last_Cons split: if_splits)
    have "wp (read_loop dsk (drop ?bn (Addrs i)) count (off mod 4096) []) (\<lambda>res.
        wp (io_bind (Relse dsk ienc i) (\<lambda>_. io_return res)) Q C) C s1"
      by (rule wp_read_loop)
        (use s s1 False free head dr fin in \<open>auto simp: div dest!: in_set_dropD\<close>)
    with False show ?thesis by (simp add: Let_def div wp_bind)
  qed
qed

end

end
