(* ===== verification/Inode_Write.thy ===== *)
theory Inode_Write
  imports Inode
begin

section \<open>Writing a file\<close>

text \<open>
  What \<open>Writei\<close> puts into the log of its transaction, as a function of the data on disk
  (\<open>block_writes\<close>), that these writes splice the new data into the file, and the rules for
  \<open>increaseSize\<close>, the loop and \<open>Writei\<close> in a transaction.
\<close>

subsection \<open>The writes of the loop\<close>

fun block_writes :: "(uint \<Rightarrow> string) \<Rightarrow> uint list \<Rightarrow> nat \<Rightarrow> string \<Rightarrow> wr list" where
  "block_writes V as bo [] = []"
| "block_writes V [] bo data = []"
| "block_writes V (a # as) bo data =
     (if 4096 - bo < length data
      then (a, take bo (V a) @ take (4096 - bo) data) # block_writes V as 0 (drop (4096 - bo) data)
      else [(a, take bo (V a) @ data @ drop (bo + length data) (V a))])"

lemma block_writes_Nil [simp]: "block_writes V as bo [] = []"
  by (cases as) auto

lemma write_block_eq:
  assumes "data \<noteq> []" "length bdata \<le> 4096" "unat bo < 4096" "unat bo \<le> length bdata"
  shows "\<exists>data'. write_block bo (length data) data bdata =
    (if 4096 - unat bo < length data
     then Ret (take (unat bo) bdata @ take (4096 - unat bo) data, drop (4096 - unat bo) data, length (drop (4096 - unat bo) data))
     else Ret (take (unat bo) bdata @ data @ drop (unat bo + length data) bdata, data', 0))"
proof (cases "0 < bo")
  case True
  with assms show ?thesis by (auto simp: write_block_def Let_def add.commute)
next
  case False
  then have "unat bo = 0" by (simp add: word_less_nat_alt)
  with False assms show ?thesis
    by (cases "length data = 4096") (auto simp: write_block_def Let_def)
qed

lemma fst_block_writes: "fst ` set (block_writes V as bo data) \<subseteq> set as"
  by (induction V as bo data rule: block_writes.induct) auto

lemma length_block_writes: "length (block_writes V as bo data) \<le> length as"
  by (induction V as bo data rule: block_writes.induct) auto

lemma block_writes_noslash:
  assumes "CHR ''/'' \<notin> set data" "\<forall>a \<in> set as. CHR ''/'' \<notin> set (V a)" "w \<in> set (block_writes V as bo data)"
  shows "CHR ''/'' \<notin> set (snd w)"
  using assms
proof (induction V as bo data rule: block_writes.induct)
  case (3 V a as bo v va)
  have "CHR ''/'' \<notin> set (drop (4096 - bo) (v # va))" using 3(2) by (metis in_set_dropD)
  with 3 show ?case
    by (auto split: if_splits dest!: in_set_takeD) (auto dest!: in_set_dropD)
qed simp_all

lemma block_writes_cong: "(\<And>a. a \<in> set as \<Longrightarrow> V a = W a) \<Longrightarrow> block_writes V as bo data = block_writes W as bo data"
  by (induction V as bo data rule: block_writes.induct) auto

subsection \<open>They splice the data into the file\<close>

text \<open>Full blocks, then at most one that is not, then empty ones.\<close>

fun stair :: "(uint \<Rightarrow> string) \<Rightarrow> uint list \<Rightarrow> bool" where
  "stair V [] = True"
| "stair V (a # as) = (length (V a) \<le> 4096 \<and> stair V as \<and> (length (V a) = 4096 \<or> blocks_of V as = []))"

definition splice :: "nat \<Rightarrow> string \<Rightarrow> string \<Rightarrow> string" where
  "splice off data c = take off c @ data @ drop (off + length data) c"

lemma blocks_of_cong: "(\<And>a. a \<in> set as \<Longrightarrow> V a = W a) \<Longrightarrow> blocks_of V as = blocks_of W as"
  by (induction as) auto

lemma stair_cong: "(\<And>a. a \<in> set as \<Longrightarrow> V a = W a) \<Longrightarrow> stair V as = stair W as"
proof (induction as)
  case (Cons a as)
  have "blocks_of V as = blocks_of W as" by (rule blocks_of_cong) (use Cons.prems in auto)
  with Cons show ?case by simp
qed simp

lemma block_writes_step:
  assumes as: "distinct (a # as)" "length (V a) \<le> 4096" "length (V a) = 4096 \<or> blocks_of V as = []"
    and bo: "bo < 4096" "bo \<le> length (V a)" and len: "4096 - bo < length data"
    and IH: "blocks_of (apply_writes (block_writes V as 0 (drop (4096 - bo) data)) V) as
        = splice 0 (drop (4096 - bo) data) (blocks_of V as)"
      "stair (apply_writes (block_writes V as 0 (drop (4096 - bo) data)) V) as"
  defines "W \<equiv> apply_writes (block_writes V (a # as) bo data) V"
  shows "blocks_of W (a # as) = splice bo data (blocks_of V (a # as)) \<and> stair W (a # as)"
proof -
  let ?rest = "drop (4096 - bo) data"
  let ?x = "take bo (V a) @ take (4096 - bo) data"
  obtain d ds where data: "data = d # ds" using len by (cases data) auto
  have W: "W = apply_writes (block_writes V as 0 ?rest) (V(a := ?x))"
    using len by (simp add: W_def data)
  have "a \<notin> fst ` set (block_writes V as 0 ?rest)" using fst_block_writes as(1) by fastforce
  then have "W a = ?x" by (simp add: W apply_writes_other)
  moreover have "W b = apply_writes (block_writes V as 0 ?rest) V b" if "b \<in> set as" for b
    unfolding W using that as(1) by (intro apply_writes_cong) auto
  then have "blocks_of W as = splice 0 ?rest (blocks_of V as)" "stair W as"
    using IH blocks_of_cong [of as W] stair_cong [of as W] by auto
  moreover have "length ?x = 4096" using bo len by simp
  moreover have "drop (length ?rest) (blocks_of V as) = drop (bo + length data) (V a @ blocks_of V as)"
    using as(2,3) bo len by (auto simp: add.commute)
  ultimately show ?thesis using bo by (simp add: splice_def)
qed

lemma block_writes_last:
  assumes as: "distinct (a # as)" "stair V (a # as)" and bo: "bo \<le> length (V a)"
    and len: "data \<noteq> []" "length data \<le> 4096 - bo" "bo < 4096"
  defines "W \<equiv> apply_writes (block_writes V (a # as) bo data) V"
  shows "blocks_of W (a # as) = splice bo data (blocks_of V (a # as)) \<and> stair W (a # as)"
proof -
  let ?x = "take bo (V a) @ data @ drop (bo + length data) (V a)"
  have W: "W = V(a := ?x)" using len by (cases data) (simp_all add: W_def)
  have "W b = V b" if "b \<in> set as" for b using that as(1) by (auto simp: W)
  then have "blocks_of W as = blocks_of V as" "stair W as"
    using blocks_of_cong [of as W V] stair_cong [of as W V] as(2) by auto
  moreover have "length ?x = max (bo + length data) (length (V a))" using bo by auto
  moreover have "drop (bo + length data) (V a) @ blocks_of V as = drop (bo + length data) (V a @ blocks_of V as)"
    using as(2) bo len by auto
  ultimately show ?thesis using bo as(2) len by (auto simp: W splice_def)
qed

lemma block_writes_splice:
  assumes "distinct as" "stair V as" "bo + length data \<le> 4096 * length as"
    and "bo < 4096" "as \<noteq> [] \<longrightarrow> bo \<le> length (V (hd as))"
  shows "blocks_of (apply_writes (block_writes V as bo data) V) as = splice bo data (blocks_of V as) \<and>
    stair (apply_writes (block_writes V as bo data) V) as"
  using assms
proof (induction as arbitrary: bo data)
  case Nil
  then show ?case by (simp add: splice_def)
next
  case (Cons a as)
  consider "data = []" | "data \<noteq> []" "length data \<le> 4096 - bo" | "4096 - bo < length data" by fastforce
  then show ?case
  proof cases
    case 1
    with Cons.prems show ?thesis by (simp add: splice_def)
  next
    case 2
    with Cons.prems show ?thesis by (intro block_writes_last) auto
  next
    case 3
    with Cons.prems Cons.IH [of 0 "drop (4096 - bo) data"] show ?thesis
      by (intro block_writes_step) auto
  qed
qed

text \<open>With no block too many, all but the last are full.\<close>

lemma stair_empty: "stair V as \<Longrightarrow> blocks_of V as = [] \<Longrightarrow> a \<in> set as \<Longrightarrow> V a = []"
  by (induction as) auto

lemma stair_length: "stair V as \<Longrightarrow> length (blocks_of V as) \<le> 4096 * length as"
  by (induction as) auto

lemma stair_full:
  "stair V as \<Longrightarrow> 4096 * length as < length (blocks_of V as) + 4096 \<Longrightarrow> full_but_last V as"
proof (induction as)
  case (Cons a as)
  show ?case
  proof (cases "as = []")
    case False
    then have "length (V a) = 4096"
      using Cons.prems by (cases as) auto
    with Cons False show ?thesis by (simp add: full_but_last_Cons)
  qed (use Cons.prems in \<open>simp add: full_but_last_Cons\<close>)
qed (simp add: full_but_last_def)

lemma full_stair: "full_but_last V as \<Longrightarrow> (\<forall>b \<in> set bs. V b = []) \<Longrightarrow> stair V (as @ bs)"
proof (induction as)
  case Nil
  then show ?case by (induction bs) (auto simp: blocks_of_def)
next
  case (Cons a as)
  have "blocks_of V bs = []" using Cons.prems(2) by (induction bs) auto
  with Cons show ?case by (auto simp: full_but_last_Cons full_but_last_def [of V "[]"] split: if_splits)
qed

subsection \<open>The loop in a transaction\<close>

context block_store
begin

lemma txn_write_loop:
  assumes "in_txn a j ws s" "csafe (a_data a) C"
    and "distinct as" "\<forall>b \<in> set as. data_blk b \<and> \<not> held s b \<and> length (a_data a b) \<le> 4096 \<and> CHR ''/'' \<notin> set (a_data a b)"
    and "CHR ''/'' \<notin> set data" "unat bo + length data \<le> 4096 * length as"
    and "unat bo < 4096" "as \<noteq> [] \<longrightarrow> unat bo \<le> length (a_data a (hd as))"
    and "length ws + length (block_writes (a_data a) as (unat bo) data) \<le> 100"
    and "\<And>s'. in_txn a j (ws @ block_writes (a_data a) as (unat bo) data) s' \<Longrightarrow> held s' = held s \<Longrightarrow>
      wp (f (handle j (ws @ block_writes (a_data a) as (unat bo) data))) Q C s'"
  shows "wp (io_bind (write_loop dsk (handle j ws) as bo (length data) data) f) Q C s"
  using assms
proof (induction as arbitrary: ws s bo data)
  case Nil
  then show ?case by (simp add: write_loop.simps [of dsk _ "[]"])
next
  case (Cons b as)
  show ?case
  proof (cases "data = []")
    case True
    with Cons.prems show ?thesis by (simp add: write_loop.simps [of dsk _ "b # as"])
  next
    case False
    let ?V = "a_data a"
    let ?o = "unat bo"
    note unf = write_loop.simps [of dsk _ "b # as"]
    have b: "data_blk b" "\<not> held s b" "length (?V b) \<le> 4096" "CHR ''/'' \<notin> set (?V b)" "?o \<le> length (?V b)"
      using Cons.prems(4,8) by auto
    have rel: "(held s)(b := False) = held s" using b(2) by (auto simp: fun_eq_iff)
    obtain data' where blk: "write_block bo (length data) data (?V b) =
        (if 4096 - ?o < length data
         then Ret (take ?o (?V b) @ take (4096 - ?o) data, drop (4096 - ?o) data, length (drop (4096 - ?o) data))
         else Ret (take ?o (?V b) @ data @ drop (?o + length data) (?V b), data', 0))"
      using write_block_eq [OF False b(3) Cons.prems(7) b(5)] by blast

    have step: "wp (io_bind (write_loop dsk (handle j ws) (b # as) bo (length data) data) f) Q C s"
      if r: "write_block bo (length data) data (?V b) = Ret (x, rest, n)" and x: "CHR ''/'' \<notin> set x" and lt: "length ws < 100"
        and cont: "\<And>s'. in_txn a j (ws @ [(b, x)]) s' \<Longrightarrow> held s' = held s \<Longrightarrow>
          wp (io_bind (write_loop dsk (handle j (ws @ [(b, x)])) as 0 n rest) f) Q C s'" for x rest n
    proof -
      have "wp (io_bind (Bget dsk b) (\<lambda>blk. io_bind (io_of_outcome (write_block bo (length data) data (Data blk))) (\<lambda>r.
          io_bind (WriteBlock dsk (handle j ws) (blk\<lparr>Data := fst r\<rparr>)) (\<lambda>u. io_bind (Brelse dsk (blk\<lparr>Data := fst r\<rparr>)) (\<lambda>_.
          io_bind (write_loop dsk (snd u) as 0 (snd (snd r)) (fst (snd r))) f))))) Q C s"
      proof (rule txn_Bget [OF Cons.prems(1) b(1,2) Cons.prems(2)], simp only: Block.select_convs, rule wp_bind_outcomeI [OF r])
        fix s1 assume s1: "in_txn a j ws s1" "held s1 = (held s)(b := True)"
        show "wp (io_bind (WriteBlock dsk (handle j ws) (\<lparr>Nr = b, Data = ?V b\<rparr>\<lparr>Data := fst (x, rest, n)\<rparr>)) (\<lambda>u.
            io_bind (Brelse dsk (\<lparr>Nr = b, Data = ?V b\<rparr>\<lparr>Data := fst (x, rest, n)\<rparr>)) (\<lambda>_.
            io_bind (write_loop dsk (snd u) as 0 (snd (snd (x, rest, n))) (fst (snd (x, rest, n)))) f))) Q C s1"
          by (rule txn_WriteBlock [OF s1(1) _ _ lt Cons.prems(2)])
            (use b x s1(2) Cons.prems(2) in \<open>auto simp: rel intro!: txn_Brelse cont\<close>)
      qed
      with False show ?thesis by (simp add: unf Let_def io_bind_assoc)
    qed
    obtain d ds where dd: "data = d # ds" using False by (cases data) auto
    show ?thesis
    proof (cases "4096 - ?o < length data")
      case True
      let ?rest = "drop (4096 - ?o) data"
      let ?x = "take ?o (?V b) @ take (4096 - ?o) data"
      have bw: "block_writes ?V (b # as) ?o data = (b, ?x) # block_writes ?V as 0 ?rest"
        using True by (simp add: dd)
      have x: "CHR ''/'' \<notin> set ?x" and rest: "CHR ''/'' \<notin> set ?rest"
        using b(4) Cons.prems(5) by (auto dest!: in_set_takeD in_set_dropD)
      show ?thesis
      proof (rule step)
        show "write_block bo (length data) data (?V b) = Ret (?x, ?rest, length ?rest)" using blk True by simp
        show "length ws < 100" using Cons.prems(9) by (simp add: bw)
        fix s' assume s': "in_txn a j (ws @ [(b, ?x)]) s'" "held s' = held s"
        show "wp (io_bind (write_loop dsk (handle j (ws @ [(b, ?x)])) as 0 (length ?rest) ?rest) f) Q C s'"
          by (rule Cons.IH [OF s'(1) Cons.prems(2)]) (use Cons.prems s' rest bw in auto)
      qed (rule x)
    next
      case len: False
      let ?x = "take ?o (?V b) @ data @ drop (?o + length data) (?V b)"
      have bw: "block_writes ?V (b # as) ?o data = [(b, ?x)]" using len by (simp add: dd)
      have x: "CHR ''/'' \<notin> set ?x" using b(4) Cons.prems(5) by (auto dest!: in_set_takeD in_set_dropD)
      show ?thesis
        by (rule step [of ?x data' 0]) (use blk len x bw Cons.prems(9,10) in \<open>auto simp: write_loop.simps\<close>)
    qed
  qed
qed

end

subsection \<open>Growing a file\<close>

definition nblocks :: "nat \<Rightarrow> nat" where
  "nblocks n = (n + 4095) div 4096"

lemma unat_saneCeil:
  fixes a :: uint
  assumes "unat a < 2 ^ 53"
  shows "unat (saneCeil a 4096) = nblocks (unat a)"
proof -
  have "nblocks (unat a) < 2 ^ 64" using assms by (simp add: nblocks_def)
  with assms show ?thesis
    by (simp add: saneCeil_def float64_nat_def nblocks_def unat_of_nat take_bit_nat_eq_self)
qed

lemma nblocks_mono: "m \<le> n \<Longrightarrow> nblocks m \<le> nblocks n"
  by (simp add: nblocks_def div_le_mono)

definition added :: "uint \<Rightarrow> (uint \<Rightarrow> string) \<Rightarrow> Inode \<Rightarrow> nat \<Rightarrow> nat list" where
  "added sd D i ns = take (nblocks ns - nblocks (unat (Filesize i))) (frees (bitmap_of D))"

definition grown :: "uint \<Rightarrow> (uint \<Rightarrow> string) \<Rightarrow> Inode \<Rightarrow> nat \<Rightarrow> Inode" where
  "grown sd D i ns =
     i\<lparr>Filesize := of_nat ns, Addrs := Addrs i @ map (\<lambda>k. of_nat k + sd) (added sd D i ns)\<rparr>"

definition grow_writes :: "(Inode \<Rightarrow> string) \<Rightarrow> uint \<Rightarrow> (uint \<Rightarrow> string) \<Rightarrow> Inode \<Rightarrow> nat \<Rightarrow> wr list" where
  "grow_writes ienc sd D i ns =
     (if nblocks (unat (Filesize i)) < nblocks ns
      then [(bitmapBlock, marked (bitmap_of D) (set (added sd D i ns)))] else [])
     @ [(inode_block (Serialnum i), ienc (grown sd D i ns))]"

lemma length_grow_writes: "length (grow_writes ienc sd D i ns) \<le> 2"
  by (simp add: grow_writes_def)

context block_store
begin

lemma txn_EnqWrite:
  assumes "in_txn a j ws s" "length ws < 100" "csafe (a_data a) C" "CHR ''/'' \<notin> set (ienc i)"
    and "\<And>s'. in_txn a j (ws @ [(inode_block (Serialnum i), ienc i)]) s' \<Longrightarrow> held s' = held s \<Longrightarrow>
      wp (f (None, handle j (ws @ [(inode_block (Serialnum i), ienc i)]))) Q C s'"
  shows "wp (io_bind (EnqWrite dsk ienc (handle j ws) i) f) Q C s"
  unfolding EnqWrite_def by (rule txn_WriteBlock [OF assms(1)]) (use assms in auto)

lemma txn_increaseSize:
  fixes ns sd :: uint and a :: ajournal and i :: Inode and ienc :: "Inode \<Rightarrow> string"
  defines "D \<equiv> a_data a"
  defines "i' \<equiv> grown sd D i (unat ns)" and "gw \<equiv> grow_writes ienc sd D i (unat ns)"
  assumes s: "in_txn a j ws s" "length ws \<le> 98" "\<not> held s bitmapBlock" "csafe D C"
    and bm: "CHR ''/'' \<notin> set (bitmap_of D)" "length (bitmap_of D) < 2 ^ 64"
      "nblocks (unat ns) - nblocks (unat (Filesize i)) \<le> length (frees (bitmap_of D))"
    and ns: "Filesize i < ns" "unat ns \<le> 511 * 4096" and slash: "CHR ''/'' \<notin> set (ienc i')"
    and f: "\<And>s'. in_txn a j (ws @ gw) s' \<Longrightarrow> held s' = held s \<Longrightarrow> wp (f (None, i', handle j (ws @ gw))) Q C s'"
  shows "wp (io_bind (increaseSize dsk ienc sd (handle j ws) i ns) f) Q C s"
proof -
  have lt: "unat (Filesize i) < unat ns" using ns(1) by (simp add: word_less_nat_alt)
  have ceil: "unat (saneCeil ns 4096) = nblocks (unat ns)" "unat (saneCeil (Filesize i) 4096) = nblocks (unat (Filesize i))"
    using ns(2) lt by (simp_all add: unat_saneCeil)
  have le: "nblocks (unat (Filesize i)) \<le> nblocks (unat ns)" using lt by (intro nblocks_mono) simp
  have more: "unat (saneCeil ns 4096 - saneCeil (Filesize i) 4096) = nblocks (unat ns) - nblocks (unat (Filesize i))"
    using ceil le by (simp add: unat_sub word_le_nat_alt)
  have "nblocks (unat ns) \<le> 511" using ns(2) by (simp add: nblocks_def)
  then have ok: "\<not> nDirectBlocks < saneCeil ns 4096" "\<not> ns \<le> Filesize i"
    using ceil lt by (simp_all add: nDirectBlocks_def word_less_nat_alt word_le_nat_alt)
  have fin: "wp (io_bind (EnqWrite dsk ienc (handle j ws') i') (\<lambda>u. f (None, i', snd u))) Q C s'"
    if "in_txn a j ws' s'" "held s' = held s" "length ws' < 100" "ws @ gw = ws' @ [(inode_block (Serialnum i), ienc i')]" for ws' s'
    by (rule txn_EnqWrite [OF that(1,3)]) (use that s(4) slash f in \<open>auto simp: D_def i'_def grown_def\<close>)
  show ?thesis
  proof (cases "nblocks (unat (Filesize i)) < nblocks (unat ns)")
    case True
    then have pos: "0 < saneCeil ns 4096 - saneCeil (Filesize i) 4096" using more by (simp add: word_less_nat_alt)
    let ?w = "(bitmapBlock, marked (bitmap_of D) (set (added sd D i (unat ns))))"
    have "wp (io_bind (AllocBlocks dsk sd (handle j ws) (saneCeil ns 4096 - saneCeil (Filesize i) 4096)) (\<lambda>r.
        io_bind (EnqWrite dsk ienc (snd r) (i\<lparr>Addrs := Addrs i @ fst r, Filesize := ns\<rparr>)) (\<lambda>u.
          f (None, i\<lparr>Addrs := Addrs i @ fst r, Filesize := ns\<rparr>, snd u)))) Q C s"
    proof (rule txn_AllocBlocks [OF s(1)], unfold D_def [symmetric] more added_def [of sd D i, symmetric] fst_conv snd_conv)
      fix s' assume "in_txn a j (ws @ [?w]) s'" "held s' = held s"
      moreover have "i\<lparr>Addrs := Addrs i @ map (\<lambda>k. of_nat k + sd) (added sd D i (unat ns)), Filesize := ns\<rparr> = i'"
        by (simp add: i'_def grown_def)
      ultimately show "wp (io_bind (EnqWrite dsk ienc (handle j (ws @ [?w]))
          (i\<lparr>Addrs := Addrs i @ map (\<lambda>k. of_nat k + sd) (added sd D i (unat ns)), Filesize := ns\<rparr>)) (\<lambda>u.
          f (None, i\<lparr>Addrs := Addrs i @ map (\<lambda>k. of_nat k + sd) (added sd D i (unat ns)), Filesize := ns\<rparr>, snd u))) Q C s'"
        using fin s(2) True by (simp add: gw_def grow_writes_def i'_def)
    qed (use s bm in auto)
    with ok pos show ?thesis by (simp add: increaseSize_def Let_def io_bind_assoc)
  next
    case False
    then have z: "\<not> 0 < saneCeil ns 4096 - saneCeil (Filesize i) 4096" using more by (simp add: word_less_nat_alt)
    have i': "i\<lparr>Filesize := ns\<rparr> = i'" using False by (simp add: i'_def grown_def added_def)
    have "wp (io_bind (EnqWrite dsk ienc (handle j ws) i') (\<lambda>u. f (None, i', snd u))) Q C s"
      by (rule fin) (use s False in \<open>auto simp: gw_def grow_writes_def i'_def\<close>)
    with ok z i' show ?thesis by (simp add: increaseSize_def Let_def io_bind_assoc)
  qed
qed

end

end
