(* ===== verification/Inode_File.thy ===== *)
theory Inode_File
  imports Inode_Write
begin

section \<open>Files on disk\<close>

text \<open>
  When an inode and the block pool are in order (\<open>file_ok\<close>, \<open>pool_ok\<close>, \<open>owned\<close>), what the writes of
  \<open>Writei\<close> do to the disk: they splice the data into the file and keep everything in order. Then
  the rule for \<open>Writei\<close> in a transaction.
\<close>

subsection \<open>The layout\<close>

definition file_ok :: "(uint \<Rightarrow> string) \<Rightarrow> Inode \<Rightarrow> bool" where
  "file_ok D i \<longleftrightarrow>
     full_but_last D (Addrs i) \<and> length (blocks_of D (Addrs i)) = unat (Filesize i) \<and>
     length (Addrs i) = nblocks (unat (Filesize i)) \<and> unat (Filesize i) \<le> 511 * 4096 \<and>
     distinct (Addrs i) \<and> (\<forall>a \<in> set (Addrs i). CHR ''/'' \<notin> set (D a))"

definition pool_ok :: "uint \<Rightarrow> (uint \<Rightarrow> string) \<Rightarrow> bool" where
  "pool_ok sd D \<longleftrightarrow>
     EndInode \<le> sd \<and> unat sd + length (bitmap_of D) < 2 ^ 64 \<and> CHR ''/'' \<notin> set (bitmap_of D) \<and>
     (\<forall>k \<in> set (frees (bitmap_of D)). D (of_nat k + sd) = [])"

definition owned :: "uint \<Rightarrow> (uint \<Rightarrow> string) \<Rightarrow> uint list \<Rightarrow> bool" where
  "owned sd D as \<longleftrightarrow>
     (\<forall>a \<in> set as. \<exists>k < length (bitmap_of D). a = of_nat k + sd \<and> bitmap_of D ! k \<noteq> CHR 0x00)"

lemma unat_EndInode: "unat EndInode = 116390"
  by (simp add: EndInode_def firstInodeAddr_def numInodes_def jrnl_consts)

lemma pool_okD:
  assumes "pool_ok sd D"
  shows "116390 \<le> unat sd" "unat sd + length (bitmap_of D) \<le> 2 ^ 64" "CHR ''/'' \<notin> set (bitmap_of D)"
    "k \<in> set (frees (bitmap_of D)) \<Longrightarrow> D (of_nat k + sd) = []"
  using assms by (simp_all add: pool_ok_def word_le_nat_alt unat_EndInode)

text \<open>A block of the pool is neither the bitmap nor an inode.\<close>

lemma pool_block:
  assumes "pool_ok sd D" "k < length (bitmap_of D)"
  shows "data_blk (of_nat k + sd)" "of_nat k + sd \<noteq> bitmapBlock"
    "unat inum < 16384 \<Longrightarrow> of_nat k + sd \<noteq> inode_block inum"
proof -
  note sd = pool_okD [OF assms(1)]
  have u: "unat (of_nat k + sd) = k + unat sd" by (rule block_index(3) [OF assms(2) sd(2)])
  show "data_blk (of_nat k + sd)" using sd(1) by (simp add: data_blk_def u)
  have "unat bitmapBlock = 100004" by (simp add: bitmapBlock_def jrnl_consts)
  with u sd(1) show "of_nat k + sd \<noteq> bitmapBlock" by (auto simp flip: word_unat_eq_iff)
  show "of_nat k + sd \<noteq> inode_block inum" if "unat inum < 16384"
  proof
    assume "of_nat k + sd = inode_block inum"
    then have "k + unat sd = unat inum + 100005" using u unat_inode_block [of inum] by simp
    with that sd(1) show False by simp
  qed
qed

lemma pool_inj:
  assumes "pool_ok sd D" "k < length (bitmap_of D)" "l < length (bitmap_of D)" "of_nat k + sd = (of_nat l + sd :: uint)"
  shows "k = l"
  using assms block_index(3) [OF _ pool_okD(2) [OF assms(1)]] by (metis add_right_cancel)

lemma bitmap_not_inode [simp]: "bitmapBlock \<noteq> inode_block inum" "inode_block inum \<noteq> bitmapBlock"
proof -
  have "unat bitmapBlock = 100004" by (simp add: bitmapBlock_def jrnl_consts)
  with unat_inode_block [of inum] show "bitmapBlock \<noteq> inode_block inum" by auto
  then show "inode_block inum \<noteq> bitmapBlock" by simp
qed

lemma inode_block_inj [simp]: "inode_block a = inode_block b \<longleftrightarrow> a = b"
  using unat_inode_block [of a] unat_inode_block [of b] by (metis add_right_cancel word_unat_eq_iff)

subsection \<open>The inode after a write\<close>

definition writei_inode :: "uint \<Rightarrow> (uint \<Rightarrow> string) \<Rightarrow> Inode \<Rightarrow> nat \<Rightarrow> Inode" where
  "writei_inode sd D i ns = (if unat (Filesize i) < ns then grown sd D i ns else i)"

definition writei_writes :: "(Inode \<Rightarrow> string) \<Rightarrow> uint \<Rightarrow> (uint \<Rightarrow> string) \<Rightarrow> Inode \<Rightarrow> nat \<Rightarrow> string \<Rightarrow> wr list" where
  "writei_writes ienc sd D i off data =
     (let ns = off + length data in
      (if unat (Filesize i) < ns then grow_writes ienc sd D i ns else []) @
      block_writes D (drop (off div 4096) (Addrs (writei_inode sd D i ns))) (off mod 4096) data)"

definition room :: "(uint \<Rightarrow> string) \<Rightarrow> Inode \<Rightarrow> nat \<Rightarrow> bool" where
  "room D i ns \<longleftrightarrow> ns \<le> 511 * 4096 \<and> nblocks ns - nblocks (unat (Filesize i)) \<le> length (frees (bitmap_of D))"

lemma Serialnum_writei_inode [simp]: "Serialnum (writei_inode sd D i ns) = Serialnum i"
  and Refcnt_writei_inode [simp]: "Refcnt (writei_inode sd D i ns) = Refcnt i"
  and Mode_writei_inode [simp]: "Mode (writei_inode sd D i ns) = Mode i"
  by (simp_all add: writei_inode_def grown_def)

lemma Filesize_writei_inode:
  "ns \<le> 511 * 4096 \<Longrightarrow> unat (Filesize (writei_inode sd D i ns)) = max (unat (Filesize i)) ns"
  by (simp add: writei_inode_def grown_def unat_of_nat take_bit_nat_eq_self)

lemma set_added: "k \<in> set (added sd D i ns) \<Longrightarrow> k \<in> set (frees (bitmap_of D))"
  by (auto simp: added_def dest: in_set_takeD)

lemma added_free: "k \<in> set (added sd D i ns) \<Longrightarrow> k < length (bitmap_of D) \<and> bitmap_of D ! k = CHR 0x00"
  using set_added set_frees by fastforce

lemma Addrs_writei_inode:
  "Addrs (writei_inode sd D i ns) = Addrs i @ map (\<lambda>k. of_nat k + sd) (added sd D i ns)"
proof (cases "unat (Filesize i) < ns")
  case False
  then have "nblocks ns \<le> nblocks (unat (Filesize i))" by (intro nblocks_mono) simp
  with False show ?thesis by (simp add: writei_inode_def added_def)
qed (simp add: writei_inode_def grown_def)

lemma writei_inode_layout:
  assumes ok: "file_ok D i" "pool_ok sd D" "owned sd D (Addrs i)" and rm: "room D i ns"
  defines "as \<equiv> Addrs (writei_inode sd D i ns)"
  shows "distinct as" "stair D as" "length as = nblocks (max (unat (Filesize i)) ns)"
    "\<forall>a \<in> set as. \<exists>k < length (bitmap_of D). a = of_nat k + sd"
    "\<forall>a \<in> set as. length (D a) \<le> 4096 \<and> CHR ''/'' \<notin> set (D a)"
    "blocks_of D as = blocks_of D (Addrs i)"
proof -
  let ?new = "map (\<lambda>k. of_nat k + sd) (added sd D i ns)"
  have as: "as = Addrs i @ ?new" by (simp add: as_def Addrs_writei_inode)
  have new: "D a = []" if "a \<in> set ?new" for a
    using that set_added pool_okD(4) [OF ok(2)] by auto
  have inj: "inj_on (\<lambda>k. of_nat k + sd) (set (added sd D i ns))"
    using added_free pool_inj [OF ok(2)] by (intro inj_onI) blast
  have "set (Addrs i) \<inter> set ?new = {}"
  proof -
    have False if "a \<in> set (Addrs i)" "a = of_nat k + sd" "k \<in> set (added sd D i ns)" for a k
      using that ok(3) pool_inj [OF ok(2)] added_free [OF that(3)] unfolding owned_def by blast
    then show ?thesis by auto
  qed
  with inj ok(1) show "distinct as" by (simp add: as file_ok_def distinct_map added_def)
  show "stair D as"
    unfolding as by (rule full_stair) (use ok(1) new in \<open>auto simp: file_ok_def\<close>)
  have "nblocks (unat (Filesize i)) + (nblocks ns - nblocks (unat (Filesize i))) = nblocks (max (unat (Filesize i)) ns)"
    using nblocks_mono [of ns "unat (Filesize i)"] nblocks_mono [of "unat (Filesize i)" ns] by (simp add: max_def)
  then show "length as = nblocks (max (unat (Filesize i)) ns)"
    using rm ok(1) by (simp add: as added_def file_ok_def room_def)
  show "\<forall>a \<in> set as. \<exists>k < length (bitmap_of D). a = of_nat k + sd"
    using ok(3) added_free unfolding as owned_def by fastforce
  show "\<forall>a \<in> set as. length (D a) \<le> 4096 \<and> CHR ''/'' \<notin> set (D a)"
    using ok(1) new unfolding as file_ok_def full_but_last_def by auto
  have "blocks_of D ?new = []" using new by (induction "added sd D i ns") (auto simp: blocks_of_def)
  then show "blocks_of D as = blocks_of D (Addrs i)" by (simp add: as)
qed

subsection \<open>The disk after a write\<close>

lemma stair_append: "\<forall>a \<in> set as. length (V a) = 4096 \<Longrightarrow> stair V (as @ bs) = stair V bs"
  by (induction as) auto

lemma stair_drop: "stair V as \<Longrightarrow> stair V (drop n as)"
proof (induction as arbitrary: n)
  case (Cons a as)
  then show ?case by (cases n) auto
qed simp

lemma stair_take_full:
  assumes "stair V as" "n * 4096 \<le> length (blocks_of V as)" "a \<in> set (take n as)"
  shows "length (V a) = 4096"
  using assms
proof (induction as arbitrary: n)
  case (Cons b as)
  obtain k where n: "n = Suc k" using Cons.prems(3) by (cases n) auto
  have b: "length (V b) = 4096" if "as = [] \<or> blocks_of V as = []"
    using Cons.prems(1,2) that by (auto simp: n)
  have "k * 4096 \<le> length (blocks_of V as)" using Cons.prems(1,2) by (auto simp: n)
  with Cons b show ?case by (auto simp: n)
qed simp

lemma length_blocks_of_full: "\<forall>a \<in> set as. length (V a) = 4096 \<Longrightarrow> length (blocks_of V as) = 4096 * length as"
  by (induction as) auto

lemma splice_append: "length A \<le> off \<Longrightarrow> splice off data (A @ B) = A @ splice (off - length A) data B"
  by (simp add: splice_def)

lemma length_splice: "off \<le> length c \<Longrightarrow> length (splice off data c) = max (length c) (off + length data)"
  by (simp add: splice_def)

lemma set_splice_subset: "set (splice off data c) \<subseteq> set data \<union> set c"
  by (auto simp: splice_def dest: in_set_takeD in_set_dropD)

text \<open>Splicing at any offset of the file.\<close>

lemma block_writes_at:
  fixes D :: "uint \<Rightarrow> string" and as :: "uint list" and off :: nat
  assumes as: "distinct as" "stair D as" and off: "off \<le> length (blocks_of D as)" "off + length data \<le> 4096 * length as"
  defines "bn \<equiv> off div 4096" and "bo \<equiv> off mod 4096"
  defines "W \<equiv> apply_writes (block_writes D (drop bn as) bo data) D"
  shows "blocks_of W as = splice off data (blocks_of D as)" "stair W as"
    "drop bn as \<noteq> [] \<Longrightarrow> bo \<le> length (D (hd (drop bn as)))"
proof -
  let ?A = "take bn as" and ?B = "drop bn as"
  have decomp: "off = bn * 4096 + bo" by (simp add: bn_def bo_def)
  have full: "length (D a) = 4096" if "a \<in> set ?A" for a
    by (rule stair_take_full [OF as(2) _ that]) (use off decomp in simp)
  have lenA: "length ?A = bn"
  proof -
    have "bn * 4096 \<le> 4096 * length as" using off stair_length [OF as(2)] decomp by linarith
    then show ?thesis by simp
  qed
  have A: "length (blocks_of D ?A) = bn * 4096"
    using length_blocks_of_full [of ?A D] full lenA by simp
  have split: "blocks_of D as = blocks_of D ?A @ blocks_of D ?B" by (metis append_take_drop_id blocks_of_simps(3))
  have bo: "bo \<le> length (blocks_of D ?B)" using off(1) A split decomp by simp
  show hd: "bo \<le> length (D (hd ?B))" if "?B \<noteq> []"
  proof (cases ?B)
    case (Cons b bs)
    then have "length (D b) = 4096 \<or> blocks_of D bs = []" using stair_drop [OF as(2), of bn] by simp
    moreover have "bo < 4096" by (simp add: bo_def)
    ultimately show ?thesis using bo Cons by auto
  qed (use that in simp)
  have B: "blocks_of W ?B = splice bo data (blocks_of D ?B) \<and> stair W ?B"
    unfolding W_def
  proof (rule block_writes_splice)
    show "distinct ?B" using as(1) by (rule distinct_drop)
    show "stair D ?B" using as(2) by (rule stair_drop)
    show "bo + length data \<le> 4096 * length ?B" using off(2) decomp lenA by simp
    show "bo < 4096" by (simp add: bo_def)
  qed (use hd in blast)
  have same: "W a = D a" if "a \<in> set ?A" for a
  proof -
    have "a \<notin> set ?B" using that as(1) by (metis append_take_drop_id disjoint_iff distinct_append)
    then show ?thesis unfolding W_def using fst_block_writes by (intro apply_writes_other) blast
  qed
  have "blocks_of W as = blocks_of W ?A @ blocks_of W ?B" by (metis append_take_drop_id blocks_of_simps(3))
  also have "blocks_of W ?A = blocks_of D ?A" using same by (rule blocks_of_cong)
  finally show "blocks_of W as = splice off data (blocks_of D as)"
    using B split A decomp by (simp add: splice_append)
  have "stair W (?A @ ?B)" using B full same stair_append by metis
  then show "stair W as" by simp
qed

lemma nblocks_le: "n \<le> 4096 * nblocks n" and nblocks_less: "4096 * nblocks n < n + 4096"
  unfolding nblocks_def by linarith+

lemma fst_grow_writes: "fst ` set (grow_writes ienc sd D i ns) \<subseteq> {bitmapBlock, inode_block (Serialnum i)}"
  by (auto simp: grow_writes_def)

lemma file_ok_cong: "file_ok D i \<Longrightarrow> (\<And>a. a \<in> set (Addrs i) \<Longrightarrow> W a = D a) \<Longrightarrow> file_ok W i"
  using blocks_of_cong [of "Addrs i" W D] by (auto simp: file_ok_def full_but_last_def)

lemma writei_disk:
  fixes D :: "uint \<Rightarrow> string" and i :: Inode and off :: nat and ienc :: "Inode \<Rightarrow> string"
  assumes ok: "file_ok D i" "pool_ok sd D" "owned sd D (Addrs i)" "unat (Serialnum i) < 16384"
    and rm: "room D i (off + length data)" and off: "off \<le> unat (Filesize i)" and slash: "CHR ''/'' \<notin> set data"
  defines "i' \<equiv> writei_inode sd D i (off + length data)"
  defines "W \<equiv> apply_writes (writei_writes ienc sd D i off data) D"
  shows "blocks_of W (Addrs i') = splice off data (blocks_of D (Addrs i))" "file_ok W i'"
    "n \<notin> {bitmapBlock, inode_block (Serialnum i)} \<union> set (Addrs i') \<Longrightarrow> W n = D n"
    "bitmap_of W = marked (bitmap_of D) (set (added sd D i (off + length data)))"
    "W (inode_block (Serialnum i)) = (if unat (Filesize i) < off + length data then ienc i' else D (inode_block (Serialnum i)))"
proof -
  let ?as = "Addrs i'" and ?bn = "off div 4096" and ?bo = "off mod 4096" and ?ns = "off + length data"
  let ?gw = "if unat (Filesize i) < ?ns then grow_writes ienc sd D i ?ns else []"
  let ?D = "apply_writes ?gw D"
  note lay = writei_inode_layout [OF ok(1-3) rm, folded i'_def]
  have gw: "fst ` set ?gw \<subseteq> {bitmapBlock, inode_block (Serialnum i)}" by (cases "unat (Filesize i) < ?ns") (simp_all add: fst_grow_writes)
  have apart: "a \<noteq> bitmapBlock" "a \<noteq> inode_block (Serialnum i)" if "a \<in> set ?as" for a
    using that lay(4) pool_block(2,3) [OF ok(2)] ok(4) by metis+
  have same: "?D a = D a" if "a \<in> set ?as" for a
    using apart [OF that] gw by (intro apply_writes_other) blast
  have bw: "block_writes D (drop ?bn ?as) ?bo data = block_writes ?D (drop ?bn ?as) ?bo data"
    using same by (intro block_writes_cong) (auto dest: in_set_dropD)
  have W: "W = apply_writes (block_writes ?D (drop ?bn ?as) ?bo data) ?D"
    by (simp only: W_def writei_writes_def Let_def i'_def [symmetric] apply_writes_append bw)
  have cont: "blocks_of ?D ?as = blocks_of D (Addrs i)" using blocks_of_cong [OF same] lay(6) by simp
  have len: "length (blocks_of D (Addrs i)) = unat (Filesize i)" using ok(1) by (simp add: file_ok_def)
  have fs: "unat (Filesize i') = max (unat (Filesize i)) ?ns"
    using rm by (simp add: i'_def Filesize_writei_inode room_def)
  have fits: "?ns \<le> 4096 * length ?as" using nblocks_le [of "unat (Filesize i')"] lay(3) fs by simp
  have st: "stair ?D ?as" using stair_cong [OF same] lay(2) by simp
  note at = block_writes_at [OF lay(1) st, of off data, unfolded cont len, OF off fits, folded W]
  show c: "blocks_of W ?as = splice off data (blocks_of D (Addrs i))" by (rule at(1))
  then have len': "length (blocks_of W ?as) = unat (Filesize i')" using len off fs by (simp add: length_splice)
  have touched: "fst ` set (block_writes ?D (drop ?bn ?as) ?bo data) \<subseteq> set ?as"
    using fst_block_writes set_drop_subset by (rule subset_trans)
  have no: "CHR ''/'' \<notin> set (W a)" if "a \<in> set ?as" for a
  proof -
    have "CHR ''/'' \<notin> set (blocks_of D (Addrs i))" using ok(1) by (auto simp: file_ok_def blocks_of_def)
    then have "CHR ''/'' \<notin> set (blocks_of W ?as)" using slash set_splice_subset unfolding c by blast
    with that show ?thesis by (auto simp: blocks_of_def)
  qed
  have "full_but_last W ?as"
    by (rule stair_full [OF at(2)]) (use nblocks_less [of "unat (Filesize i')"] lay(3) fs len' in simp)
  with len' no lay(1,3) fs rm ok(1) show "file_ok W i'" by (simp add: file_ok_def room_def)
  show "W n = D n" if "n \<notin> {bitmapBlock, inode_block (Serialnum i)} \<union> set ?as"
  proof -
    have "W n = ?D n" unfolding W using that touched by (intro apply_writes_other) blast
    also have "?D n = D n" using that gw by (intro apply_writes_other) blast
    finally show ?thesis .
  qed
  have keep: "W n = ?D n" if "n \<notin> set ?as" for n
    unfolding W using that touched by (intro apply_writes_other) blast
  have "bitmapBlock \<notin> set ?as" "inode_block (Serialnum i) \<notin> set ?as" using apart by blast+
  note k = this [THEN keep]
  show "W (inode_block (Serialnum i)) = (if unat (Filesize i) < ?ns then ienc i' else D (inode_block (Serialnum i)))"
    using k(2) by (simp add: grow_writes_def i'_def writei_inode_def)
  have "added sd D i ?ns = []" if "\<not> nblocks (unat (Filesize i)) < nblocks ?ns" using that by (simp add: added_def)
  moreover have "nblocks ?ns \<le> nblocks (unat (Filesize i))" if "\<not> unat (Filesize i) < ?ns" using that by (intro nblocks_mono) simp
  ultimately show "bitmap_of W = marked (bitmap_of D) (set (added sd D i ?ns))"
    using k(1) by (auto simp: grow_writes_def bitmap_of_def [of W]) (auto simp: bitmap_of_def)
qed

subsection \<open>Writei in a transaction\<close>

context block_store
begin

lemma txn_Geti:
  assumes "in_txn a j ws s" "csafe (a_data a) C" "inode_on ienc idec (a_data a) inum i" "\<not> held s (inode_block inum)"
    and "\<And>s'. in_txn a j ws s' \<Longrightarrow> held s' = (held s)(inode_block inum := True) \<Longrightarrow> wp (f i) Q C s'"
  shows "wp (io_bind (Geti dsk idec inum) f) Q C s"
proof (rule bind_Geti)
  show "safe C (val s)" using assms(2) in_txnD(4) [OF assms(1)] by (simp add: csafe_def)
  show "inode_on ienc idec (val s) inum i"
    using assms(3) in_txnD(3) [OF assms(1) data_inode_block] by (simp add: inode_on_def)
qed (use assms in_txnD(1) in_txn_frame [OF assms(1)] in auto)

lemma txn_Relse:
  assumes "in_txn a j ws s" "csafe (a_data a) C"
    and "\<And>s'. in_txn a j ws s' \<Longrightarrow> held s' = (held s)(inode_block (Serialnum i) := False) \<Longrightarrow> wp (f ()) Q C s'"
  shows "wp (io_bind (Relse dsk ienc i) f) Q C s"
proof (rule bind_Relse)
  show "safe C (val s)" using assms(2) in_txnD(4) [OF assms(1)] by (simp add: csafe_def)
qed (use assms in_txnD(1) in_txn_frame [OF assms(1)] in auto)

lemma txn_Writei:
  fixes off sd :: uint and a :: ajournal and i :: Inode and ienc :: "Inode \<Rightarrow> string"
  defines "D \<equiv> a_data a"
  assumes s: "in_txn a j ws s" "csafe D C" and on: "inode_on ienc idec D inum i"
    and ok: "file_ok D i" "pool_ok sd D" "owned sd D (Addrs i)"
    and rm: "room D i (unat off + length data)" and off: "off \<le> Filesize i"
    and slash: "CHR ''/'' \<notin> set data" "CHR ''/'' \<notin> set (ienc (writei_inode sd D i (unat off + length data)))"
    and free: "\<not> held s (inode_block inum)" "\<not> held s bitmapBlock" "\<forall>k < length (bitmap_of D). \<not> held s (of_nat k + sd)"
    and len: "length ws \<le> 98" "length (ws @ writei_writes ienc sd D i (unat off) data) \<le> 100" "off < nDirectBlocks * 4096"
    and f: "\<And>s'. in_txn a j (ws @ writei_writes ienc sd D i (unat off) data) s' \<Longrightarrow> held s' = held s \<Longrightarrow>
      wp (f ((of_nat (length data), None), handle j (ws @ writei_writes ienc sd D i (unat off) data))) Q C s'"
  shows "wp (io_bind (Writei dsk ienc idec sd (handle j ws) inum off data) f) Q C s"
proof -
  let ?tb = "of_nat (length data) :: uint" and ?ns = "unat off + length data"
  let ?i = "writei_inode sd D i ?ns" and ?ww = "writei_writes ienc sd D i (unat off) data"
  let ?bn = "unat off div 4096" and ?bo = "unat off mod 4096"
  let ?bw = "block_writes D (drop ?bn (Addrs ?i)) ?bo data"
  let ?gw = "if unat (Filesize i) < ?ns then grow_writes ienc sd D i ?ns else []"
  have ww: "?ww = ?gw @ ?bw" by (simp add: writei_writes_def Let_def)
  have ser: "Serialnum i = inum" "unat inum < 16384" using on by (simp_all add: inode_on_def)
  have small: "?ns \<le> 511 * 4096" using rm by (simp add: room_def)
  then have ns: "unat (off + ?tb) = ?ns"
    by (simp add: unat_word_ariths unat_of_nat take_bit_nat_eq_self)
  have div: "unat (off div 4096) = ?bn" "unat (off mod 4096) = ?bo" by (simp_all add: unat_div unat_mod)
  have guards: "\<not> nDirectBlocks \<le> off div 4096" "\<not> Filesize i < off" "\<not> nDirectBlocks * 4096 < off + ?tb"
    "Filesize i < off + ?tb \<longleftrightarrow> unat (Filesize i) < ?ns"
    using len(3) off small ns div by (auto simp: nDirectBlocks_def word_less_nat_alt word_le_nat_alt)
  have offn: "unat off \<le> unat (Filesize i)" using off by (simp add: word_le_nat_alt)
  note lay = writei_inode_layout [OF ok rm]
  have cont: "length (blocks_of D (Addrs ?i)) = unat (Filesize i)" using ok(1) lay(6) by (simp add: file_ok_def)
  have "?ns \<le> 4096 * length (Addrs ?i)" using nblocks_le [of "max (unat (Filesize i)) ?ns"] lay(3) by simp
  note at = block_writes_at(3) [OF lay(1,2), of "unat off" data, unfolded cont, OF offn this]
  have fits: "?bo + length data \<le> 4096 * length (drop ?bn (Addrs ?i))"
  proof -
    have "4096 * (unat off div 4096) + unat off mod 4096 = unat off" by simp
    with \<open>?ns \<le> 4096 * length (Addrs ?i)\<close> show ?thesis unfolding length_drop right_diff_distrib' by linarith
  qed
  have blk: "data_blk b \<and> \<not> held s b \<and> b \<noteq> inode_block inum \<and> length (D b) \<le> 4096 \<and> CHR ''/'' \<notin> set (D b)"
    if "b \<in> set (drop ?bn (Addrs ?i))" for b
    using in_set_dropD [OF that] lay(4,5) pool_block [OF ok(2)] free(3) ser(2) by metis
  have rel: "(held s)(inode_block inum := True, inode_block inum := False) = held s" using free(1) by (simp add: fun_upd_idem)
  have loop: "wp (io_bind (write_loop dsk (handle j ws') (drop ?bn (Addrs ?i)) (off mod 4096) (length data) data)
      (\<lambda>t'. io_bind (Relse dsk ienc ?i) (\<lambda>_. f ((?tb, None), t')))) Q C s'"
    if s': "in_txn a j ws' s'" "held s' = (held s)(inode_block inum := True)" and ws': "ws' @ ?bw = ws @ ?ww" for ws' s'
  proof (rule txn_write_loop [OF s'(1)], unfold D_def [symmetric] div)
    show "\<forall>b \<in> set (drop ?bn (Addrs ?i)). data_blk b \<and> \<not> held s' b \<and> length (D b) \<le> 4096 \<and> CHR ''/'' \<notin> set (D b)"
      using blk s'(2) by auto
    show "length ws' + length ?bw \<le> 100" using len(2) ws' by (metis length_append)
    fix s2 assume s2: "in_txn a j (ws' @ ?bw) s2" "held s2 = held s'"
    show "wp (io_bind (Relse dsk ienc ?i) (\<lambda>_. f ((?tb, None), handle j (ws' @ ?bw)))) Q C s2"
      unfolding ws'
      by (rule txn_Relse [OF s2(1) [unfolded ws'] s(2) [unfolded D_def]]) (use s2(2) s'(2) ser rel f in auto)
  qed (use s(2) slash(1) fits at lay(1) in auto)
  have body: "wp (io_bind (if Filesize i < off + ?tb
        then io_bind (increaseSize dsk ienc sd (handle j ws) i (off + ?tb)) (\<lambda>r. io_return (snd r))
        else io_return (i, handle j ws)) (\<lambda>it.
      io_bind (write_loop dsk (snd it) (drop ?bn (Addrs (fst it))) (off mod 4096) (length data) data) (\<lambda>t'.
        io_bind (Relse dsk ienc (fst it)) (\<lambda>_. f ((?tb, None), t'))))) Q C s1"
    if s1: "in_txn a j ws s1" "held s1 = (held s)(inode_block inum := True)" for s1
  proof (cases "unat (Filesize i) < ?ns")
    case True
    have "wp (io_bind (increaseSize dsk ienc sd (handle j ws) i (off + ?tb)) (\<lambda>r.
        io_bind (write_loop dsk (snd (snd r)) (drop ?bn (Addrs (fst (snd r)))) (off mod 4096) (length data) data) (\<lambda>t'.
        io_bind (Relse dsk ienc (fst (snd r))) (\<lambda>_. f ((?tb, None), t'))))) Q C s1"
    proof (rule txn_increaseSize [OF s1(1) len(1)], unfold D_def [symmetric] ns fst_conv snd_conv)
      have i: "grown sd D i ?ns = ?i" using True by (simp add: writei_inode_def)
      show "CHR ''/'' \<notin> set (ienc (grown sd D i ?ns))" using slash(2) i by simp
      show "nblocks ?ns - nblocks (unat (Filesize i)) \<le> length (frees (bitmap_of D))" using rm by (simp add: room_def)
      fix s2 assume s2: "in_txn a j (ws @ grow_writes ienc sd D i ?ns) s2" "held s2 = held s1"
      show "wp (io_bind (write_loop dsk (handle j (ws @ grow_writes ienc sd D i ?ns)) (drop ?bn (Addrs (grown sd D i ?ns)))
          (off mod 4096) (length data) data) (\<lambda>t'. io_bind (Relse dsk ienc (grown sd D i ?ns)) (\<lambda>_. f ((?tb, None), t')))) Q C s2"
        unfolding i by (rule loop [OF s2(1)]) (use s2(2) s1(2) True ww in auto)
    qed (use s(2) s1(2) free(2) ok(2) guards True small in \<open>auto simp: pool_ok_def\<close>)
    with True guards show ?thesis by (simp add: io_bind_assoc)
  next
    case False
    then have "?i = i" by (simp add: writei_inode_def)
    with False guards loop [OF s1] ww show ?thesis by simp
  qed
  show ?thesis
    unfolding Writei_def io_bind_assoc
    by (rule txn_Geti [OF s(1)])
      (use s(2) on free(1) guards body in \<open>auto simp: D_def Let_def io_bind_assoc div\<close>)
qed

end

end
