(* ===== verification/Fs.thy ===== *)
theory Fs
  imports Inode_File Codec
begin

section \<open>The file system: src/fs\<close>

text \<open>
  \<open>fs.go\<close>: a table of open files over the inodes; the root directory is a file of entries
  \<open>name,inum\<close> that are separated by blanks. A \<open>Filesystem\<close> is passed and returned; a descriptor is a
  64-bit number. The encoder and the decoder of inodes and the first data block are arguments as
  in the layer below.
\<close>

unbundle bit_operations_syntax

subsection \<open>fs.go\<close>

record FileHandle =
  fh_inum :: uint16
  fh_offset :: uint

record Filesystem =
  rooti :: uint16
  fdTable :: "64 word \<rightharpoonup> FileHandle"
  maxFd :: "64 word"

definition mkFd :: "Filesystem \<Rightarrow> 64 word \<times> Filesystem" where
  "mkFd f = (let f' = f\<lparr>maxFd := maxFd f + 1\<rparr> in (maxFd f' - 1, f'))"

definition Mount :: "'s Disk \<Rightarrow> (Inode \<Rightarrow> string) \<Rightarrow> (string \<Rightarrow> Inode) \<Rightarrow> ('s, Filesystem) io" where
  "Mount dsk ienc idec =
     (let f = \<lparr>rooti = 0, fdTable = Map.empty, maxFd = 0\<rparr> in
      io_bind (Probei dsk 0) (\<lambda>found.
      io_bind
        (if \<not> found then
           io_bind (BeginTransaction dsk) (\<lambda>t.
           io_bind (Alloci dsk ienc idec t Dir) (\<lambda>(root, t).
           io_bind (Relse dsk ienc root) (\<lambda>_.
             EndTransaction dsk t False)))
         else io_return ()) (\<lambda>_.
      io_return (f\<lparr>rooti := 0\<rparr>))))"

text \<open>
  The search of \<open>Open\<close> through the entries: \<open>Ret None\<close> when no entry has the name; \<open>data[1]\<close> of an
  entry without a comma is out of range. An error of \<open>ParseUint\<close> is not looked at.
\<close>

fun find_entry :: "string \<Rightarrow> string list \<Rightarrow> uint16 option outcome" where
  "find_entry fname [] = Ret None"
| "find_entry fname (entry # es) =
     (let data = Split entry CHR '','' in
      if hd data = fname then
        if length data < 2 then Fatal ''index out of range''
        else Ret (Some (of_nat (fst (ParseUint (data ! 1) 10 16))))
      else find_entry fname es)"

definition dir_entry :: "string \<Rightarrow> uint16 \<Rightarrow> string" where
  "dir_entry fname inum = fname @ '','' @ fmt_d inum @ '' ''"

definition Open ::
  "'s Disk \<Rightarrow> (Inode \<Rightarrow> string) \<Rightarrow> (string \<Rightarrow> Inode) \<Rightarrow> uint \<Rightarrow> Filesystem \<Rightarrow> string \<Rightarrow> ('s, 64 word \<times> Filesystem) io"
where
  "Open dsk ienc idec startData f fname =
     io_bind (Readi dsk ienc idec (rooti f) 0 (NOT 0)) (\<lambda>rawroot.
     io_bind (io_of_outcome (find_entry fname (Split rawroot CHR '' ''))) (\<lambda>found.
     io_bind
       (case found of
          Some inum \<Rightarrow> io_return inum
        | None \<Rightarrow>
            io_bind (BeginTransaction dsk) (\<lambda>t.
            io_bind (Alloci dsk ienc idec t File) (\<lambda>(newi, t).
            io_bind (Writei dsk ienc idec startData t (rooti f) (of_nat (length rawroot)) (dir_entry fname (Serialnum newi))) (\<lambda>(_, t).
            io_bind (EndTransaction dsk t False) (\<lambda>_. io_return (Serialnum newi)))))) (\<lambda>inum.
     let (newFd, f') = mkFd f in
     io_return (newFd, f'\<lparr>fdTable := (fdTable f')(newFd \<mapsto> \<lparr>fh_inum = inum, fh_offset = 0\<rparr>)\<rparr>))))"

definition Read ::
  "'s Disk \<Rightarrow> (Inode \<Rightarrow> string) \<Rightarrow> (string \<Rightarrow> Inode) \<Rightarrow> Filesystem \<Rightarrow> 64 word \<Rightarrow> uint \<Rightarrow>
   ('s, (string \<times> goerr) \<times> Filesystem) io"
where
  "Read dsk ienc idec f fd count =
     (case fdTable f fd of
        None \<Rightarrow> io_return (([], Some ''no such fd''), f)
      | Some fl \<Rightarrow>
          io_bind (Readi dsk ienc idec (fh_inum fl) (fh_offset fl) count) (\<lambda>content.
          io_return ((content, None),
            f\<lparr>fdTable := (fdTable f)(fd \<mapsto> fl\<lparr>fh_offset := fh_offset fl + of_nat (length content)\<rparr>)\<rparr>)))"

definition Write ::
  "'s Disk \<Rightarrow> (Inode \<Rightarrow> string) \<Rightarrow> (string \<Rightarrow> Inode) \<Rightarrow> uint \<Rightarrow> Filesystem \<Rightarrow> 64 word \<Rightarrow> string \<Rightarrow>
   ('s, (uint \<times> goerr) \<times> Filesystem) io"
where
  "Write dsk ienc idec startData f fd data =
     (case fdTable f fd of
        None \<Rightarrow> io_return ((0, Some ''no such fd''), f)
      | Some fl \<Rightarrow>
          io_bind (BeginTransaction dsk) (\<lambda>t.
          io_bind (Writei dsk ienc idec startData t (fh_inum fl) (fh_offset fl) data) (\<lambda>((cnt, err), t).
            if err \<noteq> None then io_bind (AbortTransaction dsk t) (\<lambda>_. io_return ((0, err), f))
            else
              io_bind (EndTransaction dsk t False) (\<lambda>_.
              io_return ((cnt, None),
                f\<lparr>fdTable := (fdTable f)(fd \<mapsto> fl\<lparr>fh_offset := fh_offset fl + cnt\<rparr>)\<rparr>)))))"

definition Close :: "Filesystem \<Rightarrow> 64 word \<Rightarrow> Filesystem" where
  "Close f fd = f\<lparr>fdTable := (fdTable f)(fd := None)\<rparr>"

subsection \<open>A file system in order\<close>

definition present :: "(uint \<Rightarrow> string) \<Rightarrow> uint16 \<Rightarrow> bool" where
  "present D inum \<longleftrightarrow> unat inum < 16384 \<and> D (inode_block inum) \<noteq> []"

definition inode_of :: "(string \<Rightarrow> Inode) \<Rightarrow> (uint \<Rightarrow> string) \<Rightarrow> uint16 \<Rightarrow> Inode" where
  "inode_of idec D inum = idec (D (inode_block inum))"

definition file_content :: "(string \<Rightarrow> Inode) \<Rightarrow> (uint \<Rightarrow> string) \<Rightarrow> uint16 \<Rightarrow> string" where
  "file_content idec D inum = blocks_of D (Addrs (inode_of idec D inum))"

text \<open>
  Every inode on disk describes its file, no two files share a block, every block of a file is
  marked in the bitmap, and the blocks that are not are empty.
\<close>

definition fs_ok :: "(string \<Rightarrow> Inode) \<Rightarrow> uint \<Rightarrow> (uint \<Rightarrow> string) \<Rightarrow> bool" where
  "fs_ok idec sd D \<longleftrightarrow> pool_ok sd D \<and>
     (\<forall>inum. present D inum \<longrightarrow>
        Serialnum (inode_of idec D inum) = inum \<and> Refcnt (inode_of idec D inum) \<noteq> 0 \<and>
        file_ok D (inode_of idec D inum) \<and> owned sd D (Addrs (inode_of idec D inum))) \<and>
     (\<forall>inum inum'. present D inum \<and> present D inum' \<and> inum \<noteq> inum' \<longrightarrow>
        set (Addrs (inode_of idec D inum)) \<inter> set (Addrs (inode_of idec D inum')) = {})"

lemma fs_okD:
  assumes "fs_ok idec sd D"
  shows "pool_ok sd D"
    and "present D inum \<Longrightarrow> Serialnum (inode_of idec D inum) = inum"
    and "present D inum \<Longrightarrow> Refcnt (inode_of idec D inum) \<noteq> 0"
    and "present D inum \<Longrightarrow> file_ok D (inode_of idec D inum)"
    and "present D inum \<Longrightarrow> owned sd D (Addrs (inode_of idec D inum))"
    and "present D inum \<Longrightarrow> present D inum' \<Longrightarrow> inum \<noteq> inum' \<Longrightarrow> a \<in> set (Addrs (inode_of idec D inum)) \<Longrightarrow>
      a \<notin> set (Addrs (inode_of idec D inum'))"
  using assms unfolding fs_ok_def by blast+

lemma inode_on_present: "fs_ok idec sd D \<Longrightarrow> present D inum \<Longrightarrow> inode_on ienc idec D inum (inode_of idec D inum)"
  using fs_okD(2) by (simp add: inode_on_def present_def inode_of_def)

text \<open>The law of the encoding that is needed: an inode comes back, and its bytes are not empty.\<close>

definition inode_codec :: "(Inode \<Rightarrow> string) \<Rightarrow> (string \<Rightarrow> Inode) \<Rightarrow> bool" where
  "inode_codec ienc idec \<longleftrightarrow> (\<forall>i. idec (ienc i) = i \<and> ienc i \<noteq> [])"

lemma frees_marked: "k \<in> set (frees (marked b S)) \<Longrightarrow> S \<subseteq> {..<length b} \<Longrightarrow> k \<in> set (frees b) \<and> k \<notin> S"
  by (auto simp: set_frees split: if_splits)

lemma owned_marked:
  "owned sd D as \<Longrightarrow> bitmap_of W = marked (bitmap_of D) S \<Longrightarrow> owned sd W as"
proof -
  have "marked (bitmap_of D) S ! k \<noteq> CHR 0x00" if "k < length (bitmap_of D)" "bitmap_of D ! k \<noteq> CHR 0x00" for k
    using that by simp
  then show "owned sd D as \<Longrightarrow> bitmap_of W = marked (bitmap_of D) S \<Longrightarrow> owned sd W as"
    unfolding owned_def by (metis length_marked)
qed

lemma pool_ok_marked:
  assumes "pool_ok sd D" "bitmap_of W = marked (bitmap_of D) S" "S \<subseteq> {..<length (bitmap_of D)}"
    and "\<And>k. k \<in> set (frees (bitmap_of D)) \<Longrightarrow> k \<notin> S \<Longrightarrow> W (of_nat k + sd) = D (of_nat k + sd)"
  shows "pool_ok sd W"
proof -
  have "W (of_nat k + sd) = []" if "k \<in> set (frees (bitmap_of W))" for k
    using frees_marked [OF that [unfolded assms(2)] assms(3)] assms(4) pool_okD(4) [OF assms(1)] by simp
  with assms(1,2) slash_marked show ?thesis by (simp add: pool_ok_def)
qed

lemma fs_ok_write:
  fixes D :: "uint \<Rightarrow> string" and off :: nat
  assumes ok: "fs_ok idec sd D" "present D inum" "inode_codec ienc idec"
    and rm: "room D (inode_of idec D inum) (off + length data)"
    and off: "off \<le> unat (Filesize (inode_of idec D inum))" and slash: "CHR ''/'' \<notin> set data"
  defines "W \<equiv> apply_writes (writei_writes ienc sd D (inode_of idec D inum) off data) D"
  shows "fs_ok idec sd W" "present W k \<longleftrightarrow> present D k"
    "inode_of idec W inum = writei_inode sd D (inode_of idec D inum) (off + length data)"
    "file_content idec W inum = splice off data (file_content idec D inum)"
    "k \<noteq> inum \<Longrightarrow> present D k \<Longrightarrow> inode_of idec W k = inode_of idec D k \<and> file_content idec W k = file_content idec D k"
proof -
  let ?i = "inode_of idec D inum" and ?ns = "off + length data"
  let ?i' = "writei_inode sd D ?i ?ns" and ?new = "added sd D ?i ?ns"
  note P = fs_okD(1) [OF ok(1)] and F = fs_okD(2-) [OF ok(1)]
  have inum: "unat inum < 16384" "Serialnum ?i = inum" using ok(2) F(1) by (simp_all add: present_def)
  note w = writei_disk [OF F(3) [OF ok(2)] P F(4) [OF ok(2)] _ rm off slash, where ienc = ienc, folded W_def, unfolded inum(2), OF inum(1)]
  note lay = writei_inode_layout [OF F(3) [OF ok(2)] P F(4) [OF ok(2)] rm]
  have new: "set ?new \<subseteq> {..<length (bitmap_of D)}" using added_free by auto
  have old: "a \<in> set (Addrs ?i) \<or> (\<exists>l \<in> set ?new. a = of_nat l + sd)" if "a \<in> set (Addrs ?i')" for a
    using that by (auto simp: Addrs_writei_inode)
  have sep: "of_nat l + sd \<notin> set (Addrs ?i')"
    if l: "l < length (bitmap_of D)" "l \<notin> set ?new" "\<And>a. a \<in> set (Addrs ?i) \<Longrightarrow> a \<noteq> of_nat l + sd" for l
    using old l pool_inj [OF P] new by blast
  have other: "W (inode_block k) = D (inode_block k)" if "k \<noteq> inum" "unat k < 16384" for k
    by (rule w(3)) (use that lay(4) pool_block(3) [OF P] in force)
  have here: "W (inode_block inum) = (if unat (Filesize ?i) < ?ns then ienc ?i' else D (inode_block inum))" by (rule w(5))
  show pres: "present W k \<longleftrightarrow> present D k" for k
    using other here ok(2,3) by (cases "k = inum") (auto simp: present_def inode_codec_def)
  show i': "inode_of idec W inum = ?i'"
    using here ok(3) by (auto simp: inode_of_def inode_codec_def writei_inode_def)
  show "file_content idec W inum = splice off data (file_content idec D inum)"
    unfolding file_content_def i' by (rule w(1))
  have blk: "a \<notin> set (Addrs ?i')" and off_meta: "a \<notin> {bitmapBlock, inode_block inum}"
    if k: "k \<noteq> inum" "present D k" "a \<in> set (Addrs (inode_of idec D k))" for k a
  proof -
    obtain l where l: "l < length (bitmap_of D)" "a = of_nat l + sd" "bitmap_of D ! l \<noteq> CHR 0x00"
      using F(4) [OF k(2)] k(3) unfolding owned_def by blast
    have "l \<notin> set ?new" using l(3) added_free by metis
    moreover have "b \<noteq> of_nat l + sd" if "b \<in> set (Addrs ?i)" for b
      using F(5) [OF k(2) ok(2) k(1,3)] that l(2) by auto
    ultimately show "a \<notin> set (Addrs ?i')" using sep [OF l(1)] l(2) by simp
    show "a \<notin> {bitmapBlock, inode_block inum}" using pool_block(2) [OF P l(1)] pool_block(3) [OF P l(1) inum(1)] l(2) by simp
  qed
  have keep: "W a = D a" if "k \<noteq> inum" "present D k" "a \<in> set (Addrs (inode_of idec D k))" for k a
    using blk [OF that] off_meta [OF that] by (intro w(3)) blast
  show same: "inode_of idec W k = inode_of idec D k \<and> file_content idec W k = file_content idec D k"
    if "k \<noteq> inum" "present D k" for k
  proof -
    have "inode_of idec W k = inode_of idec D k" using other that by (simp add: inode_of_def present_def)
    then show ?thesis unfolding file_content_def using blocks_of_cong [OF keep [OF that]] by simp
  qed
  have pool: "pool_ok sd W"
  proof (rule pool_ok_marked [OF P w(4) new])
    fix l assume l: "l \<in> set (frees (bitmap_of D))" "l \<notin> set ?new"
    then have "l < length (bitmap_of D)" "bitmap_of D ! l = CHR 0x00" by (auto simp: set_frees)
    note l' = this
    have "b \<noteq> of_nat l + sd" if "b \<in> set (Addrs ?i)" for b
      using F(4) [OF ok(2)] that l' pool_inj [OF P] unfolding owned_def by metis
    then have "of_nat l + sd \<notin> set (Addrs ?i')" using sep [OF l'(1) l(2)] by blast
    moreover have "of_nat l + sd \<notin> {bitmapBlock, inode_block inum}" using pool_block(2) [OF P l'(1)] pool_block(3) [OF P l'(1) inum(1)] by simp
    ultimately show "W (of_nat l + sd) = D (of_nat l + sd)" by (intro w(3)) blast
  qed
  have own: "owned sd W (Addrs ?i')"
  proof -
    have "\<exists>l < length (bitmap_of W). a = of_nat l + sd \<and> bitmap_of W ! l \<noteq> CHR 0x00" if "a \<in> set (Addrs ?i')" for a
      using old [OF that]
    proof
      assume "a \<in> set (Addrs ?i)"
      then show ?thesis using owned_marked [OF F(4) [OF ok(2)] w(4)] unfolding owned_def by blast
    next
      assume "\<exists>l \<in> set ?new. a = of_nat l + sd"
      with new show ?thesis by (fastforce simp: w(4))
    qed
    then show ?thesis by (simp add: owned_def)
  qed
  have each: "Serialnum (inode_of idec W k) = k \<and> Refcnt (inode_of idec W k) \<noteq> 0 \<and> file_ok W (inode_of idec W k) \<and>
      owned sd W (Addrs (inode_of idec W k))" if k: "present W k" for k
  proof (cases "k = inum")
    case True
    with i' w(2) own F(2) [OF ok(2)] inum(2) show ?thesis by simp
  next
    case False
    have k: "present D k" using k pres by simp
    note same [OF False k] file_ok_cong [OF F(3) [OF k] keep [OF False k]] owned_marked [OF F(4) [OF k] w(4)]
    with F(1,2) [OF k] show ?thesis by simp
  qed
  have apart: "set (Addrs ?i') \<inter> set (Addrs (inode_of idec D k)) = {}" if k: "present D k" "k \<noteq> inum" for k
  proof -
    have "a \<notin> set (Addrs ?i')" if "a \<in> set (Addrs (inode_of idec D k))" for a
      by (rule blk [OF k(2,1) that])
    then show ?thesis by blast
  qed
  have "set (Addrs (inode_of idec W k)) \<inter> set (Addrs (inode_of idec W l)) = {}"
    if p: "present W k" "present W l" and ne: "k \<noteq> l" for k l
  proof -
    have kl: "present D k" "present D l" using p pres by simp_all
    consider "k = inum" "l \<noteq> inum" | "k \<noteq> inum" "l = inum" | "k \<noteq> inum" "l \<noteq> inum" using ne by blast
    then show ?thesis
    proof cases
      case 1
      with apart [OF kl(2)] same [OF _ kl(2)] i' show ?thesis by simp
    next
      case 2
      with apart [OF kl(1)] same [OF _ kl(1)] i' show ?thesis by (simp add: Int_commute)
    next
      case 3
      with same [OF _ kl(1)] same [OF _ kl(2)] F(5) [OF kl ne] show ?thesis by auto
    qed
  qed
  with pool each show "fs_ok idec sd W" unfolding fs_ok_def by blast
qed

subsection \<open>Reading and writing through a descriptor\<close>

text \<open>The capacity of a transaction: 100 blocks, two of which may be the bitmap and the inode.\<close>

lemma length_block_writes_le: "length (block_writes V as bo data) \<le> nblocks (bo + length data)"
proof (induction V as bo data rule: block_writes.induct)
  case (3 V a as bo d ds)
  have one: "1 \<le> nblocks (bo + length (d # ds))" by (simp add: nblocks_def)
  have "Suc (nblocks (length (d # ds) - (4096 - bo))) \<le> nblocks (bo + length (d # ds))" if "4096 - bo < length (d # ds)"
    using that unfolding nblocks_def by linarith
  with 3 one show ?case by auto
qed simp_all

lemma length_writei_writes': "length (writei_writes ienc sd D i off data) \<le> 2 + nblocks (off mod 4096 + length data)"
  using length_grow_writes [of ienc sd D i "off + length data"]
    length_block_writes_le [of D "drop (off div 4096) (Addrs (writei_inode sd D i (off + length data)))" "off mod 4096" data]
  by (simp add: writei_writes_def Let_def)

lemma length_writei_writes:
  assumes "length data \<le> 97 * 4096"
  shows "length (writei_writes ienc sd D i off data) \<le> 100"
proof -
  have "off mod 4096 < 4096" by simp
  with assms have "nblocks (off mod 4096 + length data) \<le> 98" unfolding nblocks_def by linarith
  then show ?thesis using length_writei_writes' [of ienc sd D i off data] by linarith
qed

lemma writei_writes_nonempty:
  assumes "file_ok D i" "pool_ok sd D" "owned sd D (Addrs i)" "room D i (off + length data)" "off \<le> unat (Filesize i)" "data \<noteq> []"
  shows "writei_writes ienc sd D i off data \<noteq> []"
proof -
  let ?i = "writei_inode sd D i (off + length data)"
  have "off + length data \<le> 4096 * length (Addrs ?i)"
    using writei_inode_layout(3) [OF assms(1-4)] nblocks_le [of "max (unat (Filesize i)) (off + length data)"] by simp
  with assms(6) have "off div 4096 < length (Addrs ?i)"
    by (metis add_lessD1 le_neq_implies_less length_greater_0_conv less_add_same_cancel1 less_le_trans less_mult_imp_div_less mult.commute)
  then obtain a as where "drop (off div 4096) (Addrs ?i) = a # as" by (metis Cons_nth_drop_Suc)
  moreover obtain d ds where "data = d # ds" using assms(6) by (cases data) auto
  ultimately show ?thesis by (simp add: writei_writes_def Let_def)
qed

text \<open>What a call of \<open>Write\<close> needs in order to succeed.\<close>

definition can_write :: "(Inode \<Rightarrow> string) \<Rightarrow> (string \<Rightarrow> Inode) \<Rightarrow> uint \<Rightarrow> (uint \<Rightarrow> string) \<Rightarrow> uint16 \<Rightarrow> nat \<Rightarrow> string \<Rightarrow> bool" where
  "can_write ienc idec sd D inum off data \<longleftrightarrow>
     present D inum \<and> off \<le> unat (Filesize (inode_of idec D inum)) \<and> off < 511 * 4096 \<and>
     room D (inode_of idec D inum) (off + length data) \<and> data \<noteq> [] \<and> length data \<le> 97 * 4096 \<and>
     CHR ''/'' \<notin> set data \<and> CHR ''/'' \<notin> set (ienc (writei_inode sd D (inode_of idec D inum) (off + length data)))"

definition written :: "(Inode \<Rightarrow> string) \<Rightarrow> (string \<Rightarrow> Inode) \<Rightarrow> uint \<Rightarrow> (uint \<Rightarrow> string) \<Rightarrow> uint16 \<Rightarrow> nat \<Rightarrow> string \<Rightarrow> uint \<Rightarrow> string" where
  "written ienc idec sd D inum off data = apply_writes (writei_writes ienc sd D (inode_of idec D inum) off data) D"

context block_store
begin

definition fs_on :: "(uint \<Rightarrow> string) \<Rightarrow> 's \<Rightarrow> bool" where
  "fs_on D s \<longleftrightarrow> idle_on D s \<and> (\<forall>n. \<not> held s n)"

lemma fs_onD: "fs_on D s \<Longrightarrow> idle_on D s" "fs_on D s \<Longrightarrow> \<not> held s n"
  by (simp_all add: fs_on_def)

lemma fs_on_frame: "fs_on D s \<Longrightarrow> okay s' \<Longrightarrow> val s' = val s \<Longrightarrow> held s' = held s \<Longrightarrow> fs_on D s'"
  by (simp add: fs_on_def idle_on_def)

lemma wp_fs_Readi:
  assumes s: "fs_on D s" "csafe D C" and ok: "fs_ok idec sd D" "present D inum"
    and Q: "\<And>s'. fs_on D s' \<Longrightarrow> Q (take (unat count) (drop (unat off) (file_content idec D inum))) s'"
  shows "wp (Readi dsk ienc idec inum off count) Q C s"
proof -
  let ?i = "inode_of idec D inum"
  note I = idle_onD [OF fs_onD(1) [OF s(1)]]
  have blk: "data_blk a \<and> a \<noteq> inode_block inum" if "a \<in> set (Addrs ?i)" for a
    using that fs_okD(5) [OF ok] pool_block(1,3) [OF fs_okD(1) [OF ok(1)]] ok(2) unfolding owned_def present_def by metis
  have same: "val s a = D a" if "a \<in> set (Addrs ?i)" for a using I(3) blk that by blast
  have c: "blocks_of (val s) (Addrs ?i) = file_content idec D inum"
    unfolding file_content_def using same by (rule blocks_of_cong)
  show ?thesis
  proof (rule wp_Readi [where i = ?i], unfold c)
    show "safe C (val s)" using s(2) I(4) by (simp add: csafe_def)
    show "inode_on ienc idec (val s) inum ?i"
      using inode_on_present [OF ok] I(3) [OF data_inode_block] by (simp add: inode_on_def)
    show "full_but_last (val s) (Addrs ?i)"
      using fs_okD(4) [OF ok] same by (auto simp: file_ok_def full_but_last_def)
  qed (use I(1) blk fs_onD(2) [OF s(1)] fs_on_frame [OF s(1)] Q in auto)
qed

lemma wp_fs_Write:
  fixes D :: "uint \<Rightarrow> string" and sd :: uint and f :: Filesystem
  assumes s: "fs_on D s" "csafe D C" "csafe (written ienc idec sd D inum (unat off) data) C"
    and ok: "fs_ok idec sd D" "can_write ienc idec sd D inum (unat off) data"
    and fd: "fdTable f fd = Some \<lparr>fh_inum = inum, fh_offset = off\<rparr>"
    and Q: "\<And>s'. fs_on (written ienc idec sd D inum (unat off) data) s' \<Longrightarrow>
      Q ((of_nat (length data), None), f\<lparr>fdTable := (fdTable f)(fd \<mapsto> \<lparr>fh_inum = inum, fh_offset = off + of_nat (length data)\<rparr>)\<rparr>) s'"
  shows "wp (Write dsk ienc idec sd f fd data) Q C s"
proof -
  let ?i = "inode_of idec D inum"
  let ?ww = "writei_writes ienc sd D ?i (unat off) data"
  note cw = ok(2) [unfolded can_write_def]
  note F = fs_okD [OF ok(1)]
  have end_: "wp (EndTransaction dsk (handle 0 ?ww) False) (\<lambda>_. Q ((of_nat (length data), None),
      f\<lparr>fdTable := (fdTable f)(fd \<mapsto> \<lparr>fh_inum = inum, fh_offset = off + of_nat (length data)\<rparr>)\<rparr>)) C s2"
    if "in_txn (a_single D) 0 ?ww s2" "held s2 = held s" for s2
  proof (rule txn_End [OF that(1)])
    show "?ww \<noteq> []" by (rule writei_writes_nonempty) (use cw F in auto)
  qed (use s that(2) Q fs_onD(2) [OF s(1)] in \<open>auto simp: written_def fs_on_def\<close>)
  have wr: "wp (io_bind (Writei dsk ienc idec sd (handle 0 []) inum off data) (\<lambda>((cnt, err), t).
      if err \<noteq> None then io_bind (AbortTransaction dsk t) (\<lambda>_. io_return ((0, err), f))
      else io_bind (EndTransaction dsk t False) (\<lambda>_. io_return ((cnt, None),
        f\<lparr>fdTable := (fdTable f)(fd \<mapsto> \<lparr>fh_inum = inum, fh_offset = off + cnt\<rparr>)\<rparr>)))) Q C s1"
    if s1: "in_txn (a_single D) 0 [] s1" "held s1 = held s" for s1
  proof (rule txn_Writei [OF s1(1), where i = ?i], unfold a_single_data)
    show "inode_on ienc idec D inum ?i" by (rule inode_on_present) (use ok cw in auto)
    show "length ([] @ ?ww) \<le> 100" using length_writei_writes cw by simp
    show "off < nDirectBlocks * 4096" using cw by (simp add: nDirectBlocks_def word_less_nat_alt)
    show "off \<le> Filesize ?i" using cw by (simp add: word_le_nat_alt)
  qed (use s s1 cw F fs_onD(2) [OF s(1)] end_ in \<open>auto simp: wp_bind wp_return_eta\<close>)
  show ?thesis
    unfolding Write_def fd option.case FileHandle.select_convs FileHandle.update_convs
    by (rule txn_Begin [OF fs_onD(1) [OF s(1)] s(2)]) (use wr in auto)
qed

lemma wp_fs_Read:
  fixes f :: Filesystem
  assumes "fs_on D s" "csafe D C" "fs_ok idec sd D" "present D inum"
    and fd: "fdTable f fd = Some \<lparr>fh_inum = inum, fh_offset = off\<rparr>"
    and c: "c = take (unat count) (drop (unat off) (file_content idec D inum))"
    and Q: "\<And>s'. fs_on D s' \<Longrightarrow>
      Q ((c, None), f\<lparr>fdTable := (fdTable f)(fd \<mapsto> \<lparr>fh_inum = inum, fh_offset = off + of_nat (length c)\<rparr>)\<rparr>) s'"
  shows "wp (Read dsk ienc idec f fd count) Q C s"
  unfolding Read_def fd option.case FileHandle.select_convs FileHandle.update_convs wp_bind
  by (rule wp_fs_Readi [OF assms(1-4)]) (use Q in \<open>simp add: c\<close>)

end

end
