(* ===== verification/Fs_Dir.thy ===== *)
theory Fs_Dir
  imports Fs
begin

section \<open>The directory\<close>

text \<open>
  The allocation of inodes, the format of the root directory, and with both the rules for \<open>Open\<close>
  and \<open>Mount\<close>.
\<close>

subsection \<open>The first free inode\<close>

definition first_inode :: "(uint \<Rightarrow> string) \<Rightarrow> nat \<Rightarrow> bool" where
  "first_inode D m \<longleftrightarrow> m < 16384 \<and> D (inode_block (of_nat m)) = [] \<and> (\<forall>l < m. present D (of_nat l))"

lemma unat_of_nat16: "m < 65536 \<Longrightarrow> unat (of_nat m :: uint16) = m"
  by (simp add: unat_of_nat take_bit_nat_eq_self)

lemma inode_block_of_nat: "m < 16384 \<Longrightarrow> firstInodeAddr + of_nat m = inode_block (of_nat m)"
  using unat_of_nat16 [of m]
  by (simp add: inode_block_def add.commute) (metis unat_ucast16 of_nat_unat ucast_id word_unat_eq_iff unat_of_nat16)

lemma new_inode_simps [simp]:
  "Serialnum (new_inode m mode) = of_nat m" "Refcnt (new_inode m mode) = 1" "Filesize (new_inode m mode) = 0"
  "Addrs (new_inode m mode) = []" "Mode (new_inode m mode) = mode"
  by (simp_all add: new_inode_def)

context block_store
begin

lemma txn_alloci_scan:
  assumes "in_txn a j ws s" "length ws < 100" "csafe (a_data a) C" "CHR ''/'' \<notin> set (ienc (new_inode m mode))"
    and "i \<le> m" "m < 16384" "a_data a (inode_block (of_nat m)) = []"
    and "\<forall>l. i \<le> l \<and> l < m \<longrightarrow> a_data a (inode_block (of_nat l)) \<noteq> [] \<and> Refcnt (idec (a_data a (inode_block (of_nat l)))) \<noteq> 0"
    and "\<forall>l. i \<le> l \<and> l \<le> m \<longrightarrow> \<not> held s (inode_block (of_nat l))"
    and "\<And>s' w. w = (inode_block (of_nat m), ienc (new_inode m mode)) \<Longrightarrow> in_txn a j (ws @ [w]) s' \<Longrightarrow>
      held s' = (held s)(inode_block (of_nat m) := True) \<Longrightarrow> wp (f (Inr (new_inode m mode, handle j (ws @ [w])))) Q C s'"
  shows "wp (io_bind (alloci_scan dsk ienc idec (handle j ws) mode (16384 - i) i) f) Q C s"
  using assms(1,5,8-10)
proof (induction "m - i" arbitrary: i s)
  case 0
  then have i: "i = m" "16384 - i = Suc (16384 - Suc m)" using assms(6) by simp_all
  show ?case
    unfolding i(2) unfolding i(1) alloci_scan.simps io_bind_assoc inode_block_of_nat [OF assms(6)]
  proof (rule txn_Bget [OF 0(2)])
    fix s1 assume s1: "in_txn a j ws s1" "held s1 = (held s)(inode_block (of_nat m) := True)"
    have "wp (io_bind (EnqWrite dsk ienc (handle j ws) (new_inode m mode)) (\<lambda>u.
        io_bind (if fst u \<noteq> None then io_return (Inl (snd u)) else io_return (Inr (new_inode m mode, snd u))) f)) Q C s1"
      by (rule txn_EnqWrite [OF s1(1) assms(2,3)]) (use 0(6) s1(2) assms(4) in auto)
    then show "wp (io_bind (if Data \<lparr>Nr = inode_block (of_nat m), Data = a_data a (inode_block (of_nat m))\<rparr> = []
        then let ni = new_inode m mode in io_bind (EnqWrite dsk ienc (handle j ws) ni) (\<lambda>u. if fst u \<noteq> None then io_return (Inl (snd u)) else io_return (Inr (ni, snd u)))
        else if Refcnt (idec (Data \<lparr>Nr = inode_block (of_nat m), Data = a_data a (inode_block (of_nat m))\<rparr>)) = 0
        then let ni = new_inode m mode in io_bind (EnqWrite dsk ienc (handle j ws) ni) (\<lambda>u. if fst u \<noteq> None then io_return (Inl (snd u)) else io_return (Inr (ni, snd u)))
        else io_bind (Brelse dsk \<lparr>Nr = inode_block (of_nat m), Data = a_data a (inode_block (of_nat m))\<rparr>) (\<lambda>_. alloci_scan dsk ienc idec (handle j ws) mode (16384 - Suc m) (Suc m))) f) Q C s1"
      using assms(7) by (simp add: Let_def io_bind_assoc)
  qed (use 0 assms(3,6) i in auto)
next
  case (Suc k)
  then have i: "i < m" "16384 - i = Suc (16384 - Suc i)" "k = m - Suc i" using assms(6) by simp_all
  have here: "a_data a (inode_block (of_nat i)) \<noteq> []" "Refcnt (idec (a_data a (inode_block (of_nat i)))) \<noteq> 0"
    "\<not> held s (inode_block (of_nat i))" using Suc.prems(3,4) i(1) by simp_all
  have lt: "i < 16384" using i assms(6) by simp
  have "wp (io_bind (Brelse dsk \<lparr>Nr = inode_block (of_nat i), Data = a_data a (inode_block (of_nat i))\<rparr>) (\<lambda>_.
      io_bind (alloci_scan dsk ienc idec (handle j ws) mode (16384 - Suc i) (Suc i)) f)) Q C s1"
    if s1: "in_txn a j ws s1" "held s1 = (held s)(inode_block (of_nat i) := True)" for s1
  proof (rule txn_Brelse [OF s1(1)])
    fix r s2 assume s2: "in_txn a j ws s2" "held s2 = (held s1)(Nr \<lparr>Nr = inode_block (of_nat i), Data = a_data a (inode_block (of_nat i))\<rparr> := False)"
    then have h: "held s2 = held s" using s1(2) here(3) by (simp add: fun_upd_idem)
    show "wp (io_bind (alloci_scan dsk ienc idec (handle j ws) mode (16384 - Suc i) (Suc i)) f) Q C s2"
      by (rule Suc.hyps(1) [OF i(3) s2(1)]) (use i(1) Suc.prems h in auto)
  qed (use assms(3) in simp_all)
  with here show ?case
    unfolding i(2) alloci_scan.simps io_bind_assoc inode_block_of_nat [OF lt]
    by (intro txn_Bget [OF Suc.prems(1)]) (use assms(3) in \<open>auto simp: io_bind_assoc\<close>)
qed

lemma txn_Alloci:
  assumes s: "in_txn a j ws s" "length ws < 100" "csafe (a_data a) C" and m: "first_inode (a_data a) m"
    and ok: "fs_ok idec sd (a_data a)" "CHR ''/'' \<notin> set (ienc (new_inode m mode))"
    and free: "\<forall>n. \<not> held s n"
    and f: "\<And>s' w. w = (inode_block (of_nat m), ienc (new_inode m mode)) \<Longrightarrow> in_txn a j (ws @ [w]) s' \<Longrightarrow>
      held s' = (held s)(inode_block (of_nat m) := True) \<Longrightarrow> wp (f (new_inode m mode, handle j (ws @ [w]))) Q C s'"
  shows "wp (io_bind (Alloci dsk ienc idec (handle j ws) mode) f) Q C s"
proof -
  have n: "unat numInodes = 16384 - 0" by (simp add: numInodes_def)
  have "Refcnt (idec (a_data a (inode_block (of_nat l)))) \<noteq> 0" if "l < m" for l
    using fs_okD(3) [OF ok(1), of "of_nat l"] m that by (simp add: first_inode_def inode_of_def)
  then have "wp (io_bind (alloci_scan dsk ienc idec (handle j ws) mode (16384 - 0) 0) (\<lambda>r.
      case r of Inl t' \<Rightarrow> Alloci dsk ienc idec t' mode | Inr x \<Rightarrow> io_return x)) (\<lambda>x. wp (f x) Q C) C s"
    using m by (intro txn_alloci_scan [OF s, of ienc m]) (use ok free f in \<open>auto simp: first_inode_def present_def\<close>)
  then show ?thesis
    unfolding wp_bind [of "Alloci dsk ienc idec (handle j ws) mode"]
    by (intro wp_unfold [where m = "Alloci dsk ienc idec (handle j ws) mode", OF Alloci.simps]) (simp only: n)
qed

end

subsection \<open>A new inode on disk\<close>

definition created :: "(Inode \<Rightarrow> string) \<Rightarrow> (uint \<Rightarrow> string) \<Rightarrow> nat \<Rightarrow> IType \<Rightarrow> uint \<Rightarrow> string" where
  "created ienc D m mode = D(inode_block (of_nat m) := ienc (new_inode m mode))"

lemma bitmap_of_created [simp]: "bitmap_of (created ienc D m mode) = bitmap_of D"
  by (simp add: bitmap_of_def created_def)

lemma created_pool:
  "pool_ok sd D \<Longrightarrow> k < length (bitmap_of D) \<Longrightarrow> m < 16384 \<Longrightarrow> created ienc D m mode (of_nat k + sd) = D (of_nat k + sd)"
  using pool_block(3) [of sd D k "of_nat m"] by (simp add: created_def unat_of_nat16)

lemma created_owned:
  assumes "pool_ok sd D" "owned sd D as" "m < 16384" "a \<in> set as"
  shows "created ienc D m mode a = D a"
  using assms(2,4) created_pool [OF assms(1) _ assms(3)] unfolding owned_def by metis

lemma fs_ok_created:
  fixes D :: "uint \<Rightarrow> string" and m :: nat and mode :: IType
  assumes ok: "fs_ok idec sd D" "inode_codec ienc idec" "first_inode D m"
  defines "W \<equiv> created ienc D m mode"
  shows "fs_ok idec sd W" "present W k \<longleftrightarrow> present D k \<or> k = of_nat m" "file_content idec W (of_nat m) = []"
    "present D k \<Longrightarrow> inode_of idec W k = inode_of idec D k \<and> file_content idec W k = file_content idec D k"
    "inode_of idec W (of_nat m) = new_inode m mode"
proof -
  note P = fs_okD(1) [OF ok(1)] and F = fs_okD(2-) [OF ok(1)]
  have m: "m < 16384" "unat (of_nat m :: uint16) = m" "\<not> present D (of_nat m)"
    using ok(3) unat_of_nat16 [of m] by (simp_all add: first_inode_def present_def)
  show new: "inode_of idec W (of_nat m) = new_inode m mode"
    using ok(2) by (simp add: W_def created_def inode_of_def inode_codec_def)
  then show c: "file_content idec W (of_nat m) = []" by (simp add: file_content_def)
  have other: "W (inode_block k) = D (inode_block k)" if "k \<noteq> of_nat m" for k
    using that by (simp add: W_def created_def)
  show pres: "present W k \<longleftrightarrow> present D k \<or> k = of_nat m" for k
    using other [of k] ok(2) m by (cases "k = of_nat m") (auto simp: present_def W_def created_def inode_codec_def)
  have keep: "W a = D a" if "present D k" "a \<in> set (Addrs (inode_of idec D k))" for k a
    unfolding W_def by (rule created_owned [OF P F(4) [OF that(1)] m(1) that(2)])
  show same: "inode_of idec W k = inode_of idec D k \<and> file_content idec W k = file_content idec D k" if k: "present D k" for k
  proof -
    have "k \<noteq> of_nat m" using k m(3) by blast
    then have "inode_of idec W k = inode_of idec D k" using other by (simp add: inode_of_def)
    then show ?thesis unfolding file_content_def using blocks_of_cong [OF keep [OF k]] by simp
  qed
  have bm: "bitmap_of W = bitmap_of D" by (simp add: W_def)
  have "W (of_nat k + sd) = D (of_nat k + sd)" if "k \<in> set (frees (bitmap_of D))" for k
    unfolding W_def by (rule created_pool [OF P _ m(1)]) (use that in \<open>simp add: set_frees\<close>)
  then have pool: "pool_ok sd W" using P by (simp add: pool_ok_def bm)
  have each: "Serialnum (inode_of idec W k) = k \<and> Refcnt (inode_of idec W k) \<noteq> 0 \<and> file_ok W (inode_of idec W k) \<and>
      owned sd W (Addrs (inode_of idec W k))" if "present W k" for k
  proof (cases "present D k")
    case True
    note same [OF True] file_ok_cong [OF F(3) [OF True] keep [OF True]] F(4) [OF True, unfolded owned_def]
    with F(1,2) [OF True] show ?thesis by (simp add: owned_def bm)
  next
    case False
    with that pres have "k = of_nat m" by blast
    with new show ?thesis by (simp add: file_ok_def full_but_last_def nblocks_def owned_def)
  qed
  have "set (Addrs (inode_of idec W k)) \<inter> set (Addrs (inode_of idec W l)) = {}"
    if kl: "present W k" "present W l" "k \<noteq> l" for k l
    using kl pres new same [of k] same [of l] F(5) [of k l] by (cases "present D k"; cases "present D l") auto
  with pool each show "fs_ok idec sd W" unfolding fs_ok_def by blast
qed

lemma writei_inode_created [simp]: "writei_inode sd (created ienc D m mode) i ns = writei_inode sd D i ns"
  by (simp add: writei_inode_def grown_def added_def)

lemma writei_writes_created:
  assumes "file_ok D i" "pool_ok sd D" "owned sd D (Addrs i)" "room D i (off + length data)" "m < 16384"
  shows "writei_writes ienc sd (created ienc D m mode) i off data = writei_writes ienc sd D i off data"
proof -
  let ?W = "created ienc D m mode" and ?as = "Addrs (writei_inode sd D i (off + length data))"
  have "?W a = D a" if "a \<in> set ?as" for a
    using writei_inode_layout(4) [OF assms(1-4)] that created_pool [OF assms(2) _ assms(5)] by metis
  then have "block_writes ?W (drop (off div 4096) ?as) (off mod 4096) data = block_writes D (drop (off div 4096) ?as) (off mod 4096) data"
    by (intro block_writes_cong) (auto dest: in_set_dropD)
  then show ?thesis by (simp add: writei_writes_def Let_def grow_writes_def added_def grown_def)
qed

subsection \<open>The format of the directory\<close>

definition dir_text :: "(string \<times> uint16) list \<Rightarrow> string" where
  "dir_text ents = concat (map (\<lambda>(n, k). dir_entry n k) ents)"

definition name_ok :: "string \<Rightarrow> bool" where
  "name_ok n \<longleftrightarrow> n \<noteq> [] \<and> CHR '','' \<notin> set n \<and> CHR '' '' \<notin> set n \<and> CHR ''/'' \<notin> set n"

lemma sep_notin_fmt_d [simp]: "CHR '','' \<notin> set (fmt_d w)" "CHR '' '' \<notin> set (fmt_d w)"
  unfolding fmt_d_def by (rule dec_not_in; simp)+

lemma Split_dir_text:
  "\<forall>e \<in> set ents. name_ok (fst e) \<Longrightarrow>
   Split (dir_text ents) CHR '' '' = map (\<lambda>(n, k). n @ CHR '','' # fmt_d k) ents @ [[]]"
proof (induction ents)
  case (Cons e ents)
  obtain n k where e: "e = (n, k)" by (cases e)
  have "CHR '' '' \<notin> set (n @ CHR '','' # fmt_d k)" using Cons.prems by (simp add: e name_ok_def)
  from Split_append_sep [OF this, of "dir_text ents"] Cons show ?case
    by (simp add: e dir_text_def dir_entry_def)
qed (simp add: dir_text_def)

lemma find_entry_dir:
  assumes "\<forall>e \<in> set ents. name_ok (fst e)" "fname \<noteq> []"
  shows "find_entry fname (map (\<lambda>(n, k). n @ CHR '','' # fmt_d k) ents @ [[]]) = Ret (map_of ents fname)"
  using assms
proof (induction ents)
  case (Cons e ents)
  obtain n k where e: "e = (n, k)" by (cases e)
  have "Split (n @ CHR '','' # fmt_d k) CHR '','' = [n, fmt_d k]"
    using Cons.prems by (simp add: e name_ok_def Split_append_sep Split_no_sep)
  moreover have "ParseUint (fmt_d k) 10 16 = (unat k, None)"
    unfolding fmt_d_def using unsigned_less [where 'a = nat, of k] by (intro ParseUint_dec) simp_all
  ultimately show ?case using Cons by (simp add: e Let_def)
qed simp

subsection \<open>Open\<close>

definition dir_ok :: "(string \<Rightarrow> Inode) \<Rightarrow> (uint \<Rightarrow> string) \<Rightarrow> (string \<times> uint16) list \<Rightarrow> bool" where
  "dir_ok idec D ents \<longleftrightarrow>
     present D 0 \<and> file_content idec D 0 = dir_text ents \<and> distinct (map fst ents) \<and>
     (\<forall>e \<in> set ents. name_ok (fst e) \<and> snd e \<noteq> 0 \<and> present D (snd e))"

text \<open>What \<open>Open\<close> needs in order to create a file.\<close>

definition can_create :: "(Inode \<Rightarrow> string) \<Rightarrow> (string \<Rightarrow> Inode) \<Rightarrow> uint \<Rightarrow> (uint \<Rightarrow> string) \<Rightarrow> nat \<Rightarrow> string \<Rightarrow> bool" where
  "can_create ienc idec sd D m fname \<longleftrightarrow>
     first_inode D m \<and> name_ok fname \<and> length fname \<le> 4000 \<and> CHR ''/'' \<notin> set (ienc (new_inode m File)) \<and>
     can_write ienc idec sd D 0 (length (file_content idec D 0)) (dir_entry fname (of_nat m))"

definition after_create :: "(Inode \<Rightarrow> string) \<Rightarrow> (string \<Rightarrow> Inode) \<Rightarrow> uint \<Rightarrow> (uint \<Rightarrow> string) \<Rightarrow> nat \<Rightarrow> string \<Rightarrow> uint \<Rightarrow> string" where
  "after_create ienc idec sd D m fname =
     written ienc idec sd (created ienc D m File) 0 (length (file_content idec D 0)) (dir_entry fname (of_nat m))"

definition open_fd :: "Filesystem \<Rightarrow> uint16 \<Rightarrow> 64 word \<times> Filesystem" where
  "open_fd f inum =
     (maxFd f, f\<lparr>maxFd := maxFd f + 1, fdTable := (fdTable f)(maxFd f \<mapsto> \<lparr>fh_inum = inum, fh_offset = 0\<rparr>)\<rparr>)"

lemma length_dec: "length (dec n) \<le> Suc n"
proof (induction n rule: dec.induct)
  case (1 n)
  then show ?case by (subst dec.simps) (auto intro: le_trans)
qed

lemma content_length:
  assumes "fs_ok idec sd D" "present D inum"
  shows "length (file_content idec D inum) = unat (Filesize (inode_of idec D inum))"
    "length (file_content idec D inum) \<le> 511 * 4096"
  using fs_okD(4) [OF assms] by (simp_all add: file_content_def file_ok_def)

context block_store
begin

lemma wp_fs_find:
  assumes s: "fs_on D s" "csafe D C" and ok: "fs_ok idec sd D" "dir_ok idec D ents" and f: "rooti f = 0" and n: "fname \<noteq> []"
    and Q: "\<And>s'. fs_on D s' \<Longrightarrow> wp (g (dir_text ents) (map_of ents fname)) Q C s'"
  shows "wp (io_bind (Readi dsk ienc idec (rooti f) 0 (NOT 0)) (\<lambda>raw.
      io_bind (io_of_outcome (find_entry fname (Split raw CHR '' ''))) (g raw))) Q C s"
  unfolding wp_bind [of "Readi dsk ienc idec (rooti f) 0 (NOT 0)"]
proof (rule wp_fs_Readi [OF s ok(1)])
  have d: "file_content idec D (rooti f) = dir_text ents" and nm: "\<forall>e \<in> set ents. name_ok (fst e)"
    using ok(2) by (simp_all add: dir_ok_def f)
  have "length (dir_text ents) \<le> unat (NOT 0 :: uint)"
    using content_length(2) [OF ok(1), of 0] ok(2) by (simp add: dir_ok_def unsigned_minus_1_eq_mask mask_eq_exp_minus_1)
  then have t: "take (unat (NOT 0 :: uint)) (drop (unat (0 :: uint)) (file_content idec D (rooti f))) = dir_text ents"
    by (simp add: d)
  fix s' assume "fs_on D s'"
  from Q [OF this] show "wp (io_bind (io_of_outcome (find_entry fname
      (Split (take (unat (NOT 0 :: uint)) (drop (unat (0 :: uint)) (file_content idec D (rooti f)))) CHR '' '')))
      (g (take (unat (NOT 0 :: uint)) (drop (unat (0 :: uint)) (file_content idec D (rooti f)))))) Q C s'"
    unfolding t Split_dir_text [OF nm] by (rule wp_bind_outcomeI [OF find_entry_dir [OF nm n]])
qed (use ok(2) in \<open>simp add: dir_ok_def f\<close>)

lemma wp_fs_Open_found:
  assumes "fs_on D s" "csafe D C" "fs_ok idec sd D" "dir_ok idec D ents" "rooti f = 0" "fname \<noteq> []"
    and "map_of ents fname = Some inum" and "\<And>s'. fs_on D s' \<Longrightarrow> Q (open_fd f inum) s'"
  shows "wp (Open dsk ienc idec sd f fname) Q C s"
  unfolding Open_def
  by (rule wp_fs_find [OF assms(1-6)]) (use assms(7,8) in \<open>simp add: mkFd_def open_fd_def Let_def\<close>)

lemma txn_fs_create:
  fixes D :: "uint \<Rightarrow> string" and sd :: uint and m :: nat
  assumes s: "fs_on D s" "csafe D C" "csafe (after_create ienc idec sd D m fname) C"
    and ok: "fs_ok idec sd D" "present D 0" "inode_codec ienc idec" "can_create ienc idec sd D m fname"
    and off: "off = of_nat (length (file_content idec D 0))"
    and Q: "\<And>s'. fs_on (after_create ienc idec sd D m fname) s' \<Longrightarrow> Q (of_nat m) s'"
  shows "wp (io_bind (BeginTransaction dsk) (\<lambda>t.
      io_bind (Alloci dsk ienc idec t File) (\<lambda>(newi, t).
      io_bind (Writei dsk ienc idec sd t 0 off (dir_entry fname (Serialnum newi))) (\<lambda>(_, t).
      io_bind (EndTransaction dsk t False) (\<lambda>_. io_return (Serialnum newi)))))) Q C s"
proof (rule txn_Begin [OF fs_onD(1) [OF s(1)] s(2)])
  let ?i = "inode_of idec D 0" and ?e = "dir_entry fname (of_nat m)" and ?len = "length (file_content idec D 0)"
  let ?w = "(inode_block (of_nat m), ienc (new_inode m File))" and ?ww = "writei_writes ienc sd D ?i ?len ?e"
  note cc = ok(4) [unfolded can_create_def] and cw = ok(4) [unfolded can_create_def can_write_def]
  note F = fs_okD [OF ok(1)] and no = fs_onD(2) [OF s(1)]
  have off': "unat off = ?len"
    using content_length(2) [OF ok(1,2)] by (simp add: off unat_of_nat take_bit_nat_eq_self)
  have m: "m < 16384" "of_nat m \<noteq> (0 :: uint16)"
    using cc ok(2) unat_of_nat16 [of m] by (auto simp: first_inode_def present_def)
  have "inode_of idec (created ienc D m File) 0 = ?i"
    using fs_ok_created(4) [OF ok(1,3) _ ok(2)] cc by blast
  moreover have "writei_writes ienc sd (created ienc D m File) ?i ?len ?e = ?ww"
    by (rule writei_writes_created) (use F ok(2) cw m in auto)
  ultimately have after: "apply_writes (?w # ?ww) D = after_create ienc idec sd D m fname"
    by (simp add: after_create_def written_def created_def)
  have "length (fmt_d (of_nat m :: uint16)) \<le> 20000" using length_dec [of m] m unat_of_nat16 [of m] by (simp add: fmt_d_def)
  then have "length ?e \<le> 30000" using cc by (simp add: dir_entry_def)
  then have few: "length ?ww \<le> 90" using length_writei_writes' [of ienc sd D ?i ?len ?e] by (simp add: nblocks_def)
  have fin: "wp (EndTransaction dsk (handle 0 ([?w] @ ?ww)) False) (\<lambda>_. Q (of_nat m)) C s3"
    if "in_txn (a_single D) 0 ([?w] @ ?ww) s3" "held s3 = (held s)(inode_block (of_nat m) := True)" for s3
  proof (rule txn_End [OF that(1)])
    fix s' assume s': "idle_on (apply_writes ([?w] @ ?ww) D) s'" "\<forall>n. held s' n \<longrightarrow> held s3 n \<and> n \<notin> fst ` set ([?w] @ ?ww)"
    then have "\<not> held s' n" for n using that(2) no by (cases "n = inode_block (of_nat m)") auto
    with s'(1) after Q show "Q (of_nat m) s'" by (simp add: fs_on_def)
  qed (use s after in auto)
  have wr: "wp (io_bind (Writei dsk ienc idec sd (handle 0 [?w]) 0 off ?e) (\<lambda>(_, t).
      io_bind (EndTransaction dsk t False) (\<lambda>_. io_return (of_nat m)))) Q C s2"
    if s2: "in_txn (a_single D) 0 [?w] s2" "held s2 = (held s)(inode_block (of_nat m) := True)" for s2
  proof (rule txn_Writei [OF s2(1), where i = ?i], unfold a_single_data off')
    show "inode_on ienc idec D 0 ?i" by (rule inode_on_present) (use ok in auto)
    show "off < nDirectBlocks * 4096" using cw off' by (simp add: nDirectBlocks_def word_less_nat_alt)
    show "off \<le> Filesize ?i" using cw off' by (simp add: word_le_nat_alt)
    show "\<forall>k < length (bitmap_of D). \<not> held s2 (of_nat k + sd)"
      using s2(2) no pool_block(3) [OF F(1), of _ "of_nat m"] unat_of_nat16 [of m] m by auto
  qed (use s s2 cw F ok(2) no fin few m in \<open>auto simp: wp_bind wp_return_eta\<close>)
  fix s1 assume s1: "in_txn (a_single D) 0 [] s1" "held s1 = held s"
  show "wp (io_bind (Alloci dsk ienc idec (handle 0 []) File) (\<lambda>(newi, t).
      io_bind (Writei dsk ienc idec sd t 0 off (dir_entry fname (Serialnum newi))) (\<lambda>(_, t).
      io_bind (EndTransaction dsk t False) (\<lambda>_. io_return (Serialnum newi))))) Q C s1"
    by (rule txn_Alloci [OF s1(1), of C m idec sd]) (use s cc ok(1) no s1(2) wr in auto)
qed

lemma wp_fs_Open_new:
  fixes D :: "uint \<Rightarrow> string" and sd :: uint and m :: nat
  assumes s: "fs_on D s" "csafe D C" "csafe (after_create ienc idec sd D m fname) C"
    and ok: "fs_ok idec sd D" "dir_ok idec D ents" "inode_codec ienc idec" "can_create ienc idec sd D m fname"
    and f: "rooti f = 0" "map_of ents fname = None"
    and Q: "\<And>s'. fs_on (after_create ienc idec sd D m fname) s' \<Longrightarrow> Q (open_fd f (of_nat m)) s'"
  shows "wp (Open dsk ienc idec sd f fname) Q C s"
  unfolding Open_def
proof (rule wp_fs_find [OF s(1,2) ok(1,2) f(1)])
  have root: "present D 0" "file_content idec D 0 = dir_text ents" using ok(2) by (simp_all add: dir_ok_def)
  fix s1 assume s1: "fs_on D s1"
  have "wp (io_bind (BeginTransaction dsk) (\<lambda>t.
      io_bind (Alloci dsk ienc idec t File) (\<lambda>(newi, t).
      io_bind (Writei dsk ienc idec sd t 0 (of_nat (length (dir_text ents))) (dir_entry fname (Serialnum newi))) (\<lambda>(_, t).
      io_bind (EndTransaction dsk t False) (\<lambda>_. io_return (Serialnum newi))))))
    (\<lambda>inum. Q (open_fd f inum)) C s1"
    by (rule txn_fs_create [OF s1 s(2,3) ok(1) root(1) ok(3,4)]) (use Q root(2) in simp_all)
  then show "wp (io_bind (case map_of ents fname of Some inum \<Rightarrow> io_return inum
      | None \<Rightarrow> io_bind (BeginTransaction dsk) (\<lambda>t. io_bind (Alloci dsk ienc idec t File) (\<lambda>(newi, t).
          io_bind (Writei dsk ienc idec sd t (rooti f) (of_nat (length (dir_text ents))) (dir_entry fname (Serialnum newi))) (\<lambda>(_, t).
          io_bind (EndTransaction dsk t False) (\<lambda>_. io_return (Serialnum newi)))))) (\<lambda>inum.
      let (newFd, f') = mkFd f in
      io_return (newFd, f'\<lparr>fdTable := (fdTable f')(newFd \<mapsto> \<lparr>fh_inum = inum, fh_offset = 0\<rparr>)\<rparr>))) Q C s1"
    unfolding f option.case wp_bind [of "io_bind (BeginTransaction dsk) _"]
    by (simp add: mkFd_def open_fd_def Let_def wp_return_eta)
qed (use ok(4) in \<open>auto simp: can_create_def name_ok_def\<close>)

end

lemma splice_end: "splice (length c) data c = c @ data"
  by (simp add: splice_def)

lemma name_ok_entry: "name_ok n \<Longrightarrow> CHR ''/'' \<notin> set (dir_entry n k)"
  by (simp add: name_ok_def dir_entry_def)

lemma after_create_ok:
  fixes D :: "uint \<Rightarrow> string" and sd :: uint and m :: nat
  assumes ok: "fs_ok idec sd D" "dir_ok idec D ents" "inode_codec ienc idec" "can_create ienc idec sd D m fname"
    and new: "map_of ents fname = None"
  defines "W \<equiv> after_create ienc idec sd D m fname"
  shows "fs_ok idec sd W" "dir_ok idec W (ents @ [(fname, of_nat m)])" "file_content idec W (of_nat m) = []"
    "present W k \<longleftrightarrow> present D k \<or> k = of_nat m"
    "present D k \<Longrightarrow> k \<noteq> 0 \<Longrightarrow> file_content idec W k = file_content idec D k"
proof -
  let ?E = "created ienc D m File" and ?len = "length (file_content idec D 0)" and ?e = "dir_entry fname (of_nat m)"
  note cc = ok(4) [unfolded can_create_def] and cw = ok(4) [unfolded can_create_def can_write_def]
  have root: "present D 0" "file_content idec D 0 = dir_text ents" using ok(2) by (simp_all add: dir_ok_def)
  note E = fs_ok_created [OF ok(1,3) conjunct1 [OF cc], where mode = File]
  have m: "of_nat m \<noteq> (0 :: uint16)" using cc root(1) by (auto simp: first_inode_def present_def)
  have i0: "inode_of idec ?E 0 = inode_of idec D 0" "file_content idec ?E 0 = dir_text ents"
    using E(4) [OF root(1)] root(2) by auto
  have p0: "present ?E 0" using E(2) root(1) by simp
  have rm: "room ?E (inode_of idec ?E 0) (?len + length ?e)" using cw by (simp add: room_def i0)
  have off: "?len \<le> unat (Filesize (inode_of idec ?E 0))" using cw by (simp add: i0)
  have slash: "CHR ''/'' \<notin> set ?e" using cw by simp
  note W = fs_ok_write [OF E(1) p0 ok(3) rm off slash, folded written_def, folded after_create_def, folded W_def]
  show "fs_ok idec sd W" by (rule W(1))
  show pres: "present W k \<longleftrightarrow> present D k \<or> k = of_nat m" for k using W(2) E(2) by simp
  show keep: "file_content idec W k = file_content idec D k" if "present D k" "k \<noteq> 0" for k
    using W(5) [OF that(2)] E(2,4) that(1) by simp
  have pm: "present ?E (of_nat m)" using E(2) by simp
  show "file_content idec W (of_nat m) = []" using W(5) [OF m pm] E(3) by simp
  have c: "file_content idec W 0 = dir_text (ents @ [(fname, of_nat m)])"
    using W(4) root(2) by (simp add: i0(2) splice_end dir_text_def)
  have "fname \<notin> fst ` set ents" using new by (simp add: map_of_eq_None_iff)
  with ok(2) cc c pres m show "dir_ok idec W (ents @ [(fname, of_nat m)])" by (auto simp: dir_ok_def)
qed

subsection \<open>Mount\<close>

definition fresh_fs :: Filesystem where
  "fresh_fs = \<lparr>rooti = 0, fdTable = Map.empty, maxFd = 0\<rparr>"

context block_store
begin

lemma wp_fs_Probei:
  assumes s: "fs_on D s" "csafe D C" and n: "unat inum < 16384"
    and f: "\<And>s'. fs_on D s' \<Longrightarrow> wp (f (present D inum)) Q C s'"
  shows "wp (io_bind (Probei dsk inum) f) Q C s"
proof -
  have id: "firstInodeAddr + ucast inum = inode_block inum" by (simp add: inode_block_def add.commute)
  have lt: "\<not> firstInodeAddr + numInodes \<le> inode_block inum" using inode_block_less [OF n] by (simp add: id)
  note I = idle_onD [OF fs_onD(1) [OF s(1)]] and no = fs_onD(2) [OF s(1)]
  have sf: "safe C (val s)" using s(2) I(4) by (simp add: csafe_def)
  have v: "(val s (inode_block inum) \<noteq> []) = present D inum" using I(3) [OF data_inode_block] n by (simp add: present_def)
  have "wp (io_bind (Bget dsk (inode_block inum)) (\<lambda>blk. io_bind (Brelse dsk blk) (\<lambda>_. f (Data blk \<noteq> [])))) Q C s"
  proof (rule bind_Bget [OF I(1) no sf])
    fix s1 assume s1: "okay s1" "val s1 = val s" "held s1 = (held s)(inode_block inum := True)"
    show "wp (io_bind (Brelse dsk \<lparr>Nr = inode_block inum, Data = val s (inode_block inum)\<rparr>)
        (\<lambda>_. f (Data \<lparr>Nr = inode_block inum, Data = val s (inode_block inum)\<rparr> \<noteq> []))) Q C s1"
      by (rule bind_Brelse) (use s1 sf no fs_on_frame [OF s(1)] v f in \<open>auto simp: fun_upd_idem\<close>)
  qed
  then show ?thesis by (simp add: Probei_def Let_def id lt io_bind_assoc)
qed

lemma wp_fs_Mount_again:
  assumes "fs_on D s" "csafe D C" "present D 0" "\<And>s'. fs_on D s' \<Longrightarrow> Q fresh_fs s'"
  shows "wp (Mount dsk ienc idec) Q C s"
  unfolding Mount_def Let_def
  by (rule wp_fs_Probei [OF assms(1,2)]) (use assms(3,4) in \<open>auto simp: fresh_fs_def\<close>)

lemma wp_fs_Mount_new:
  assumes s: "fs_on D s" "csafe D C" "csafe (created ienc D 0 Dir) C"
    and ok: "fs_ok idec sd D" "D (inode_block 0) = []" "CHR ''/'' \<notin> set (ienc (new_inode 0 Dir))"
    and Q: "\<And>s'. fs_on (created ienc D 0 Dir) s' \<Longrightarrow> Q fresh_fs s'"
  shows "wp (Mount dsk ienc idec) Q C s"
proof -
  let ?w = "(inode_block 0, ienc (new_inode 0 Dir))"
  have np: "\<not> present D 0" and first: "first_inode D 0" using ok(2) by (simp_all add: present_def first_inode_def)
  note no = fs_onD(2) [OF s(1)]
  have fin: "wp (EndTransaction dsk (handle 0 [?w]) False) (\<lambda>_. Q fresh_fs) C s2"
    if "in_txn (a_single D) 0 [?w] s2" "\<forall>n. \<not> held s2 n" for s2
    by (rule txn_End [OF that(1)]) (use that(2) s Q in \<open>auto simp: fs_on_def created_def\<close>)
  have rel: "wp (io_bind (Relse dsk ienc (new_inode 0 Dir)) (\<lambda>_. EndTransaction dsk (handle 0 [?w]) False)) (\<lambda>_. Q fresh_fs) C s1"
    if s1: "in_txn (a_single D) 0 [?w] s1" "\<forall>n. held s1 n \<longrightarrow> n = inode_block 0" for s1
  proof (rule txn_Relse [OF s1(1)])
    fix s' assume "in_txn (a_single D) 0 [?w] s'" "held s' = (held s1)(inode_block (Serialnum (new_inode 0 Dir)) := False)"
    with s1(2) show "wp (EndTransaction dsk (handle 0 [?w]) False) (\<lambda>_. Q fresh_fs) C s'" by (intro fin) auto
  qed (use s(2) in simp)
  have "wp (io_bind (BeginTransaction dsk) (\<lambda>t. io_bind (Alloci dsk ienc idec t Dir) (\<lambda>(root, t).
      io_bind (Relse dsk ienc root) (\<lambda>_. EndTransaction dsk t False)))) (\<lambda>_. Q fresh_fs) C s0" if s0: "fs_on D s0" for s0
  proof (rule txn_Begin [OF fs_onD(1) [OF s0] s(2)])
    fix s1 assume s1: "in_txn (a_single D) 0 [] s1" "held s1 = held s0"
    show "wp (io_bind (Alloci dsk ienc idec (handle 0 []) Dir) (\<lambda>(root, t).
        io_bind (Relse dsk ienc root) (\<lambda>_. EndTransaction dsk t False))) (\<lambda>_. Q fresh_fs) C s1"
      by (rule txn_Alloci [OF s1(1), of C 0 idec sd])
        (use s(2) ok first s1(2) fs_onD(2) [OF s0] rel in \<open>auto split: if_splits\<close>)
  qed
  then show ?thesis
    unfolding Mount_def Let_def
    by (intro wp_fs_Probei [OF s(1,2)]) (use np in \<open>simp_all add: wp_bind wp_return_eta fresh_fs_def\<close>)
qed

end

end
