(* ===== verification/Fs_Run.thy ===== *)
theory Fs_Run
  imports Fs_Dir
begin

section \<open>Sessions of the file system\<close>

text \<open>
  The file system against its specification: a directory, the contents of the files and the table
  of descriptors, without blocks, inodes or a journal. Any sequence of calls that the disk has room
  for returns what the specification returns (\<open>session_refines\<close>), and a machine that stops inside a
  call leaves the file system as before or after it (\<open>fs_call_crash_atomic\<close>).
\<close>

subsection \<open>The specification\<close>

datatype fs_op = FOpen string | FRead "64 word" uint | FWrite "64 word" string | FClose "64 word"

datatype fs_res = RFd "64 word" | RRead string goerr | RWrite uint goerr | RClose

record afs =
  a_tab :: Filesystem
  a_dir :: "(string \<times> uint16) list"
  a_cont :: "uint16 \<Rightarrow> string"

definition a_next :: "afs \<Rightarrow> nat" where
  "a_next a = Suc (length (a_dir a))"

definition set_off :: "64 word \<Rightarrow> FileHandle \<Rightarrow> uint \<Rightarrow> afs \<Rightarrow> afs" where
  "set_off fd h n a = a\<lparr>a_tab := (a_tab a)\<lparr>fdTable := (fdTable (a_tab a))(fd \<mapsto> h\<lparr>fh_offset := fh_offset h + n\<rparr>)\<rparr>\<rparr>"

definition a_open_file :: "uint16 \<Rightarrow> afs \<Rightarrow> fs_res \<times> afs" where
  "a_open_file inum a = (RFd (fst (open_fd (a_tab a) inum)), a\<lparr>a_tab := snd (open_fd (a_tab a) inum)\<rparr>)"

fun a_fs :: "fs_op \<Rightarrow> afs \<Rightarrow> fs_res \<times> afs" where
  "a_fs (FOpen n) a =
     (case map_of (a_dir a) n of
        Some inum \<Rightarrow> a_open_file inum a
      | None \<Rightarrow>
          (let k = of_nat (a_next a) in
           a_open_file k (a\<lparr>a_dir := a_dir a @ [(n, k)], a_cont := (a_cont a)(k := [])\<rparr>)))"
| "a_fs (FRead fd c) a =
     (case fdTable (a_tab a) fd of
        None \<Rightarrow> (RRead [] (Some ''no such fd''), a)
      | Some h \<Rightarrow>
          (let d = take (unat c) (drop (unat (fh_offset h)) (a_cont a (fh_inum h))) in
           (RRead d None, set_off fd h (of_nat (length d)) a)))"
| "a_fs (FWrite fd d) a =
     (case fdTable (a_tab a) fd of
        None \<Rightarrow> (RWrite 0 (Some ''no such fd''), a)
      | Some h \<Rightarrow>
          (RWrite (of_nat (length d)) None,
           set_off fd h (of_nat (length d))
             (a\<lparr>a_cont := (a_cont a)(fh_inum h := splice (unat (fh_offset h)) d (a_cont a (fh_inum h)))\<rparr>)))"
| "a_fs (FClose fd) a = (RClose, a\<lparr>a_tab := (a_tab a)\<lparr>fdTable := (fdTable (a_tab a))(fd := None)\<rparr>\<rparr>)"

fun a_session :: "fs_op list \<Rightarrow> afs \<Rightarrow> fs_res list \<times> afs" where
  "a_session [] a = ([], a)"
| "a_session (p # ps) a = (case a_fs p a of (r, a') \<Rightarrow> case a_session ps a' of (rs, b) \<Rightarrow> (r # rs, b))"

subsection \<open>The calls on a disk\<close>

fun fs_call :: "'s Disk \<Rightarrow> (Inode \<Rightarrow> string) \<Rightarrow> (string \<Rightarrow> Inode) \<Rightarrow> uint \<Rightarrow> fs_op \<Rightarrow> Filesystem \<Rightarrow> ('s, fs_res \<times> Filesystem) io" where
  "fs_call dsk ienc idec sd (FOpen n) f =
     io_bind (Open dsk ienc idec sd f n) (\<lambda>(fd, f'). io_return (RFd fd, f'))"
| "fs_call dsk ienc idec sd (FRead fd c) f =
     io_bind (Read dsk ienc idec f fd c) (\<lambda>((d, e), f'). io_return (RRead d e, f'))"
| "fs_call dsk ienc idec sd (FWrite fd d) f =
     io_bind (Write dsk ienc idec sd f fd d) (\<lambda>((n, e), f'). io_return (RWrite n e, f'))"
| "fs_call dsk ienc idec sd (FClose fd) f = io_return (RClose, Close f fd)"

fun session :: "'s Disk \<Rightarrow> (Inode \<Rightarrow> string) \<Rightarrow> (string \<Rightarrow> Inode) \<Rightarrow> uint \<Rightarrow> fs_op list \<Rightarrow> Filesystem \<Rightarrow> ('s, fs_res list \<times> Filesystem) io" where
  "session dsk ienc idec sd [] f = io_return ([], f)"
| "session dsk ienc idec sd (p # ps) f =
     io_bind (fs_call dsk ienc idec sd p f) (\<lambda>(r, f').
     io_bind (session dsk ienc idec sd ps f') (\<lambda>(rs, f''). io_return (r # rs, f'')))"

text \<open>
  Whether the disk has room for a call (blocks, inodes, the 100 blocks of a transaction), and that
  nothing to be written has a slash, which the journal does not store.
\<close>

fun fits :: "(Inode \<Rightarrow> string) \<Rightarrow> (string \<Rightarrow> Inode) \<Rightarrow> uint \<Rightarrow> fs_op \<Rightarrow> afs \<Rightarrow> (uint \<Rightarrow> string) \<Rightarrow> bool" where
  "fits ienc idec sd (FOpen n) a D \<longleftrightarrow>
     n \<noteq> [] \<and> (map_of (a_dir a) n = None \<longrightarrow> can_create ienc idec sd D (a_next a) n)"
| "fits ienc idec sd (FWrite fd d) a D \<longleftrightarrow>
     (\<forall>h. fdTable (a_tab a) fd = Some h \<longrightarrow> can_write ienc idec sd D (fh_inum h) (unat (fh_offset h)) d)"
| "fits ienc idec sd p a D \<longleftrightarrow> True"

fun disk_after :: "(Inode \<Rightarrow> string) \<Rightarrow> (string \<Rightarrow> Inode) \<Rightarrow> uint \<Rightarrow> fs_op \<Rightarrow> afs \<Rightarrow> (uint \<Rightarrow> string) \<Rightarrow> uint \<Rightarrow> string" where
  "disk_after ienc idec sd (FOpen n) a D =
     (if map_of (a_dir a) n = None then after_create ienc idec sd D (a_next a) n else D)"
| "disk_after ienc idec sd (FWrite fd d) a D =
     (case fdTable (a_tab a) fd of
        None \<Rightarrow> D
      | Some h \<Rightarrow> written ienc idec sd D (fh_inum h) (unat (fh_offset h)) d)"
| "disk_after ienc idec sd p a D = D"

fun all_fit :: "(Inode \<Rightarrow> string) \<Rightarrow> (string \<Rightarrow> Inode) \<Rightarrow> uint \<Rightarrow> fs_op list \<Rightarrow> afs \<Rightarrow> (uint \<Rightarrow> string) \<Rightarrow> bool" where
  "all_fit ienc idec sd [] a D = True"
| "all_fit ienc idec sd (p # ps) a D \<longleftrightarrow>
     fits ienc idec sd p a D \<and> all_fit ienc idec sd ps (snd (a_fs p a)) (disk_after ienc idec sd p a D)"

subsection \<open>The disk represents the specification's state\<close>

definition fs_rep :: "(string \<Rightarrow> Inode) \<Rightarrow> uint \<Rightarrow> (uint \<Rightarrow> string) \<Rightarrow> afs \<Rightarrow> bool" where
  "fs_rep idec sd D a \<longleftrightarrow>
     fs_ok idec sd D \<and> dir_ok idec D (a_dir a) \<and> rooti (a_tab a) = 0 \<and>
     (\<forall>k. present D k \<and> k \<noteq> 0 \<longrightarrow> a_cont a k = file_content idec D k) \<and>
     (\<forall>fd h. fdTable (a_tab a) fd = Some h \<longrightarrow> fh_inum h \<noteq> 0 \<and> present D (fh_inum h))"

lemma fs_repD:
  assumes "fs_rep idec sd D a"
  shows "fs_ok idec sd D" "dir_ok idec D (a_dir a)" "rooti (a_tab a) = 0"
    and "present D k \<Longrightarrow> k \<noteq> 0 \<Longrightarrow> a_cont a k = file_content idec D k"
    and "fdTable (a_tab a) fd = Some h \<Longrightarrow> fh_inum h \<noteq> 0 \<and> present D (fh_inum h)"
  using assms unfolding fs_rep_def by blast+

lemma dir_ok_write:
  assumes "dir_ok idec D ents" "inum \<noteq> 0" "\<And>k. present W k \<longleftrightarrow> present D k" "file_content idec W 0 = file_content idec D 0"
  shows "dir_ok idec W ents"
  using assms by (simp add: dir_ok_def)

lemma fs_rep_write:
  assumes a: "fs_rep idec sd D a" "inode_codec ienc idec" and h: "fdTable (a_tab a) fd = Some h"
    and cw: "can_write ienc idec sd D (fh_inum h) (unat (fh_offset h)) d"
  shows "fs_rep idec sd (written ienc idec sd D (fh_inum h) (unat (fh_offset h)) d) (snd (a_fs (FWrite fd d) a))"
proof -
  note R = fs_repD [OF a(1)]
  have k: "fh_inum h \<noteq> 0" "present D (fh_inum h)" using R(5) [OF h] by auto
  let ?W = "written ienc idec sd D (fh_inum h) (unat (fh_offset h)) d"
  have "room D (inode_of idec D (fh_inum h)) (unat (fh_offset h) + length d)"
    "unat (fh_offset h) \<le> unat (Filesize (inode_of idec D (fh_inum h)))" "CHR ''/'' \<notin> set d"
    using cw by (simp_all add: can_write_def)
  note W = fs_ok_write [OF R(1) k(2) a(2) this, folded written_def]
  have root: "present D 0" using R(2) by (simp add: dir_ok_def)
  have "dir_ok idec ?W (a_dir a)"
    using dir_ok_write [OF R(2) k(1) W(2)] W(5) [OF _ root] k(1) by metis
  moreover have "((a_cont a)(fh_inum h := splice (unat (fh_offset h)) d (a_cont a (fh_inum h)))) l = file_content idec ?W l"
    if "present ?W l" "l \<noteq> 0" for l
    using W(2,4,5) R(4) k that by (cases "l = fh_inum h") auto
  ultimately show ?thesis
    using W(1,2) R(3,5) h by (auto simp: fs_rep_def set_off_def)
qed

lemma fs_rep_create:
  assumes a: "fs_rep idec sd D a" "inode_codec ienc idec" and new: "map_of (a_dir a) n = None"
    and cc: "can_create ienc idec sd D (a_next a) n"
  shows "fs_rep idec sd (after_create ienc idec sd D (a_next a) n) (snd (a_fs (FOpen n) a))"
proof -
  note R = fs_repD [OF a(1)]
  let ?W = "after_create ienc idec sd D (a_next a) n" and ?k = "of_nat (a_next a) :: uint16"
  note W = after_create_ok [OF R(1,2) a(2) cc new]
  have k: "?k \<noteq> 0" using W(2) by (auto simp: dir_ok_def)
  have "((a_cont a)(?k := [])) l = file_content idec ?W l" if "present ?W l" "l \<noteq> 0" for l
    using W(3-5) R(4) that by auto
  then show ?thesis
    using W(1,2,4) R(3,5) k new by (auto simp: fs_rep_def a_open_file_def open_fd_def Let_def)
qed

lemma fs_rep_step:
  assumes a: "fs_rep idec sd D a" "inode_codec ienc idec" and fit: "fits ienc idec sd p a D"
  shows "fs_rep idec sd (disk_after ienc idec sd p a D) (snd (a_fs p a))"
proof (cases p)
  case (FOpen n)
  show ?thesis
  proof (cases "map_of (a_dir a) n")
    case None
    with FOpen fit fs_rep_create [OF a] show ?thesis by simp
  next
    case (Some k)
    then have "k \<noteq> 0 \<and> present D k" using fs_repD(2) [OF a(1)] by (auto simp: dir_ok_def dest!: map_of_SomeD)
    with FOpen Some a(1) show ?thesis by (auto simp: fs_rep_def a_open_file_def open_fd_def)
  qed
next
  case (FRead fd c)
  with a(1) show ?thesis by (auto simp: fs_rep_def set_off_def Let_def split: option.splits)
next
  case (FWrite fd d)
  show ?thesis
  proof (cases "fdTable (a_tab a) fd")
    case None
    with FWrite a(1) show ?thesis by simp
  next
    case (Some h)
    with FWrite fit fs_rep_write [OF a Some] show ?thesis by simp
  qed
next
  case (FClose fd)
  with a(1) show ?thesis by (auto simp: fs_rep_def split: if_splits)
qed

subsection \<open>The calls do what the specification says\<close>

context block_store
begin

lemma wp_fs_call:
  assumes s: "fs_on D s" "csafe D C" "csafe (disk_after ienc idec sd p a D) C"
    and a: "fs_rep idec sd D a" "inode_codec ienc idec" and fit: "fits ienc idec sd p a D"
    and Q: "\<And>s'. fs_on (disk_after ienc idec sd p a D) s' \<Longrightarrow> Q (fst (a_fs p a), a_tab (snd (a_fs p a))) s'"
  shows "wp (fs_call dsk ienc idec sd p (a_tab a)) Q C s"
proof (cases p)
  case (FOpen n)
  note R = fs_repD [OF a(1)]
  show ?thesis
  proof (cases "map_of (a_dir a) n")
    case None
    with FOpen fit have "can_create ienc idec sd D (a_next a) n" by simp
    from wp_fs_Open_new [OF s(1,2) _ R(1,2) a(2) this R(3) None] show ?thesis
      using FOpen None s(3) Q by (auto simp: wp_bind wp_return_eta a_open_file_def Let_def split_beta)
  next
    case (Some k)
    from wp_fs_Open_found [OF s(1,2) R(1,2,3) _ Some] show ?thesis
      using FOpen Some fit Q by (auto simp: wp_bind wp_return_eta a_open_file_def split_beta)
  qed
next
  case (FRead fd c)
  show ?thesis
  proof (cases "fdTable (a_tab a) fd")
    case None
    with FRead s(1) Q show ?thesis by (simp add: Read_def)
  next
    case (Some h)
    note R = fs_repD [OF a(1)]
    obtain k n where h: "h = \<lparr>fh_inum = k, fh_offset = n\<rparr>" by (cases h)
    have k: "present D k" "a_cont a k = file_content idec D k" using R(5) [OF Some] R(4) by (auto simp: h)
    show ?thesis
      unfolding FRead fs_call.simps wp_bind
      by (rule wp_fs_Read [OF s(1,2) R(1) k(1) Some [unfolded h] refl])
        (use Q k(2) Some in \<open>simp add: FRead h set_off_def Let_def\<close>)
  qed
next
  case (FWrite fd d)
  show ?thesis
  proof (cases "fdTable (a_tab a) fd")
    case None
    with FWrite s(1) Q show ?thesis by (simp add: Write_def)
  next
    case (Some h)
    with FWrite fit have "can_write ienc idec sd D (fh_inum h) (unat (fh_offset h)) d" by simp
    moreover obtain k n where h: "h = \<lparr>fh_inum = k, fh_offset = n\<rparr>" by (cases h)
    ultimately have cw: "can_write ienc idec sd D k (unat n) d" by simp
    show ?thesis
      unfolding FWrite fs_call.simps wp_bind
      by (rule wp_fs_Write [OF s(1,2) _ fs_repD(1) [OF a(1)] cw Some [unfolded h]])
        (use Q s(3) Some in \<open>simp_all add: FWrite h set_off_def\<close>)
  qed
next
  case (FClose fd)
  with s(1) Q show ?thesis by (simp add: Close_def)
qed

lemma wp_session:
  assumes "fs_on D s" "fs_rep idec sd D a" "inode_codec ienc idec" "all_fit ienc idec sd ps a D" "\<And>D'. csafe D' C"
    and "\<And>s' D'. fs_on D' s' \<Longrightarrow> fs_rep idec sd D' (snd (a_session ps a)) \<Longrightarrow>
      Q (fst (a_session ps a), a_tab (snd (a_session ps a))) s'"
  shows "wp (session dsk ienc idec sd ps (a_tab a)) Q C s"
  using assms
proof (induction ps arbitrary: a D s Q)
  case Nil
  then show ?case by simp
next
  case (Cons p ps)
  have fit: "fits ienc idec sd p a D" "all_fit ienc idec sd ps (snd (a_fs p a)) (disk_after ienc idec sd p a D)"
    using Cons.prems(4) by simp_all
  show ?case
    unfolding session.simps wp_bind [of "fs_call dsk ienc idec sd p (a_tab a)"]
  proof (rule wp_fs_call [OF Cons.prems(1,5,5,2,3) fit(1)])
    fix s1 assume s1: "fs_on (disk_after ienc idec sd p a D) s1"
    have "wp (session dsk ienc idec sd ps (a_tab (snd (a_fs p a)))) (\<lambda>x. Q (fst (a_fs p a) # fst x, snd x)) C s1"
      by (rule Cons.IH [OF s1 fs_rep_step [OF Cons.prems(2,3) fit(1)] Cons.prems(3) fit(2) Cons.prems(5)])
        (use Cons.prems(6) in \<open>simp add: split_beta\<close>)
    then show "wp (case (fst (a_fs p a), a_tab (snd (a_fs p a))) of (r, f') \<Rightarrow>
        io_bind (session dsk ienc idec sd ps f') (\<lambda>(rs, f''). io_return (r # rs, f''))) Q C s1"
      by (simp add: wp_bind split_beta wp_return_eta)
  qed
qed

end

subsection \<open>On a mock disk\<close>

text \<open>The journal is idle, no lock is held.\<close>

definition quiet :: "MockDisk \<Rightarrow> bool" where
  "quiet m \<longleftrightarrow> sb_on (mock_val m) = idle_sb \<and> (\<forall>n. \<not> mock_held m n)"

lemma wf_bitmap_unused: "wf_bitmap bm \<Longrightarrow> used_segs bm = [] \<Longrightarrow> bm = zero_bitmap"
proof (rule nth_equalityI)
  fix i assume bm: "wf_bitmap bm" "used_segs bm = []" "i < length bm"
  have "bm ! i \<in> {CHR ''0'', CHR ''1''}" using bm(1) nth_mem [OF bm(3)] unfolding wf_bitmap_def by blast
  moreover have "bm ! i \<noteq> CHR ''1''" using bm(2,3) by (simp add: used_segs_def filter_empty_conv)
  ultimately show "bm ! i = zero_bitmap ! i"
    using bm by (simp add: wf_bitmap_def zero_bitmap_def sysPerLog_def)
qed (simp add: wf_bitmap_def zero_bitmap_def sysPerLog_def)

lemma fs_on_quiet: "quiet m \<Longrightarrow> mock.fs_on (mock_val m) m"
  using mock_idle_on [of m] by (simp add: mock.fs_on_def quiet_def jrnl_idle_def)

lemma quiet_fs_on:
  assumes "mock.fs_on D m"
  shows "quiet m" "same_data (mock_val m) D"
proof -
  have on: "jrnl_on 0 (mock_val m) \<lparr>a_data = D, a_segs = Map.empty, a_open = {}\<rparr>" and no: "\<forall>n. \<not> mock_held m n"
    using assms by (simp_all add: mock.fs_on_def mock.idle_on_def)
  note J = jrnl_onD [OF on]
  have "sb_on (mock_val m) = idle_sb"
    using J(1,2,3,4) wf_bitmap_unused [of "bitmap (sb_on (mock_val m))"] by (simp add: idle_sb_def logSB.equality)
  with no show "quiet m" by (simp add: quiet_def)
  show "same_data (mock_val m) D" using J(6) by simp
qed

lemma fs_ok_cong:
  assumes D: "fs_ok idec sd D" and same: "same_data V D"
  shows "fs_ok idec sd V" "present V k \<longleftrightarrow> present D k" "inode_of idec V k = inode_of idec D k"
    "present D k \<Longrightarrow> file_content idec V k = file_content idec D k"
proof -
  note P = fs_okD(1) [OF D]
  have bm: "bitmap_of V = bitmap_of D" using same by (rule bitmap_of_cong)
  have i: "V (inode_block k) = D (inode_block k)" for k using same by (simp add: same_data_def)
  have pres: "present V k \<longleftrightarrow> present D k" "inode_of idec V k = inode_of idec D k" for k
    by (simp_all add: present_def inode_of_def i)
  have pool: "V (of_nat k + sd) = D (of_nat k + sd)" if "k < length (bitmap_of D)" for k
    using same pool_block(1) [OF P that] by (simp add: same_data_def)
  have keep: "V b = D b" if "present D k" "b \<in> set (Addrs (inode_of idec D k))" for k b
    using fs_okD(5) [OF D that(1)] that(2) pool unfolding owned_def by metis
  show "file_content idec V k = file_content idec D k" if "present D k" for k
    unfolding file_content_def pres using keep [OF that] by (rule blocks_of_cong)
  have "pool_ok sd V" using P pool by (auto simp: pool_ok_def bm set_frees)
  moreover have "file_ok V (inode_of idec D k)" if "present D k" for k
    using file_ok_cong [OF fs_okD(4) [OF D that] keep [OF that]] .
  moreover have "owned sd V as = owned sd D as" for as by (simp add: owned_def bm)
  ultimately show "fs_ok idec sd V" using D unfolding fs_ok_def pres by blast
  show "present V k \<longleftrightarrow> present D k" "inode_of idec V k = inode_of idec D k" by (rule pres)+
qed

lemma fs_rep_cong:
  assumes D: "fs_rep idec sd D a" and same: "same_data V D"
  shows "fs_rep idec sd V a"
proof -
  note R = fs_repD [OF D]
  note C = fs_ok_cong [OF R(1) same]
  have "dir_ok idec V (a_dir a)" using R(2) C(4) by (simp add: dir_ok_def C(2))
  then show ?thesis using D C by (auto simp: fs_rep_def)
qed

lemma mock_csafe: "mock.csafe D C"
  by (simp add: mock.csafe_def crash_safe_def)

text \<open>The file system without files, and what is left of one when it is mounted again.\<close>

definition no_files :: afs where
  "no_files = \<lparr>a_tab = fresh_fs, a_dir = [], a_cont = (\<lambda>_. [])\<rparr>"

definition remounted :: "afs \<Rightarrow> afs" where
  "remounted a = a\<lparr>a_tab := fresh_fs\<rparr>"

lemma fs_rep_remounted: "fs_rep idec sd D a \<Longrightarrow> fs_rep idec sd D (remounted a)"
  by (simp add: fs_rep_def remounted_def fresh_fs_def)

lemma fs_ok_empty:
  assumes "\<And>n. data_blk n \<Longrightarrow> D n = []"
  shows "fs_ok idec EndInode D"
proof -
  have bm: "bitmap_of D = replicate 4096 CHR 0x00" using assms [OF data_bitmapBlock] by (simp add: bitmap_of_def)
  have "data_blk (of_nat k + EndInode)" if "k < 4096" for k
  proof -
    have "unat (of_nat k + EndInode) = k + 116390"
      using that block_index(3) [of k "replicate 4096 CHR 0x00" EndInode] unat_EndInode by simp
    then show ?thesis by (simp add: data_blk_def)
  qed
  then have "pool_ok EndInode D" using assms unat_EndInode by (auto simp: pool_ok_def bm set_frees)
  moreover have "\<not> present D k" for k using assms by (simp add: present_def)
  ultimately show ?thesis by (simp add: fs_ok_def)
qed

lemma fs_rep_no_files:
  assumes "\<And>n. data_blk n \<Longrightarrow> D n = []" "inode_codec ienc idec"
  shows "fs_rep idec EndInode (created ienc D 0 Dir) no_files"
proof -
  have first: "first_inode D 0" using assms(1) by (simp add: first_inode_def)
  note E = fs_ok_created [OF fs_ok_empty [of D idec, OF assms(1)] assms(2) first, where mode = Dir]
  have "\<not> present D k" for k using assms(1) by (simp add: present_def)
  with E show ?thesis by (auto simp: fs_rep_def no_files_def fresh_fs_def dir_ok_def dir_text_def)
qed

text \<open>
  C3: the file system is a file system. Any sequence of \<open>Open\<close>, \<open>Read\<close>, \<open>Write\<close> and \<open>Close\<close> that
  the disk has room for runs to its end and returns exactly what the specification returns; then
  the disk represents the specification's files (every file with its content, no block shared, the
  bitmap exact), the journal is idle and no lock is held.
\<close>

theorem session_refines:
  assumes "inode_codec ienc idec" and "quiet m" and "fs_rep idec sd (mock_val m) a"
    and "all_fit ienc idec sd ps a (mock_val m)"
  shows "\<exists>m'. session mock_disk ienc idec sd ps (a_tab a) m
      = Some (Ret (fst (a_session ps a), a_tab (snd (a_session ps a))), m') \<and>
    fs_rep idec sd (mock_val m') (snd (a_session ps a)) \<and> quiet m'"
proof -
  have "wp (session mock_disk ienc idec sd ps (a_tab a)) (\<lambda>r m'. r = (fst (a_session ps a), a_tab (snd (a_session ps a))) \<and>
      fs_rep idec sd (mock_val m') (snd (a_session ps a)) \<and> quiet m') (\<lambda>_ _. False) m"
    by (rule mock.wp_session [OF fs_on_quiet [OF assms(2)] assms(3,1,4) mock_csafe])
      (use quiet_fs_on fs_rep_cong in blast)
  then show ?thesis by (auto dest: wp_RetD)
qed

text \<open>
  C24: starting on an unused disk. \<open>Binit\<close> with a mock disk, \<open>InitSb\<close> and \<open>Mount\<close> come to their ends
  and leave a file system without files.
\<close>

theorem mount_fresh:
  assumes "inode_codec ienc idec" and "CHR ''/'' \<notin> set (ienc (new_inode 0 Dir))"
  shows "\<exists>m1 m2. InitSb mock_disk Binit_test = Some (Ret (), m1) \<and> Mount mock_disk ienc idec m1 = Some (Ret fresh_fs, m2) \<and>
    fs_rep idec EndInode (mock_val m2) no_files \<and> quiet m2"
proof -
  have v: "mock_val Binit_test = (\<lambda>_. [])" and h: "\<not> mock_held Binit_test n" for n
    by (auto simp: mock_val_def mock_held_def Binit_test_def mget_def)
  have cf: "commit_flag (sb_on (\<lambda>_. [])) = 0" by (simp add: sb_on_def parseSb_def)
  have "wp (InitSb mock_disk) (\<lambda>_ m1. quiet m1 \<and> mock_val m1 = set_sb idle_sb (\<lambda>_. [])) (\<lambda>_ _. False) Binit_test"
    by (rule mock.wp_InitSb_fresh) (use v h cf in \<open>auto simp: crash_safe_def quiet_def idle_sb_def\<close>)
  then obtain m1 where m1: "InitSb mock_disk Binit_test = Some (Ret (), m1)" "quiet m1" "mock_val m1 = set_sb idle_sb (\<lambda>_. [])"
    by (auto dest!: wp_RetD)
  have empty: "mock_val m1 n = []" if "data_blk n" for n using that by (simp add: m1(3) set_sb_def data_blk_def sbNr_def) auto
  have rep: "fs_rep idec EndInode (created ienc (mock_val m1) 0 Dir) no_files"
    using empty assms(1) by (rule fs_rep_no_files)
  have "wp (Mount mock_disk ienc idec) (\<lambda>f m2. f = fresh_fs \<and> fs_rep idec EndInode (mock_val m2) no_files \<and> quiet m2) (\<lambda>_ _. False) m1"
    by (rule mock.wp_fs_Mount_new [OF fs_on_quiet [OF m1(2)] mock_csafe mock_csafe fs_ok_empty [of "mock_val m1", OF empty]])
      (use empty assms quiet_fs_on fs_rep_cong [OF rep] in auto)
  with m1(1) show ?thesis by (auto dest!: wp_RetD)
qed

lemma mount_after_recovery:
  assumes rep: "fs_rep idec sd W a" and rec: "recovers_to (mock_val m1) W"
  shows "\<exists>m2 m3 m4. start_ups ns m1 = Some m2 \<and> InitSb mock_disk (leases_expired m2) = Some (Ret (), m3) \<and>
    Mount mock_disk ienc idec m3 = Some (Ret fresh_fs, m4) \<and> fs_rep idec sd (mock_val m4) (remounted a) \<and> quiet m4"
proof -
  obtain m2 where m2: "start_ups ns m1 = Some m2" "recovers_to (mock_val m2) W" using start_ups_recover [OF rec] by blast
  obtain m3 where m3: "InitSb mock_disk (leases_expired m2) = Some (Ret (), m3)" "same_data (mock_val m3) W" "quiet m3"
    using InitSb_recovers [OF m2(2)] by (auto simp: quiet_def)
  have rep3: "fs_rep idec sd (mock_val m3) a" by (rule fs_rep_cong [OF rep m3(2)])
  then have "present (mock_val m3) 0" by (simp add: fs_rep_def dir_ok_def)
  then have "wp (Mount mock_disk ienc idec) (\<lambda>f m4. f = fresh_fs \<and> fs_rep idec sd (mock_val m4) (remounted a) \<and> quiet m4) (\<lambda>_ _. False) m3"
    by (intro mock.wp_fs_Mount_again [OF fs_on_quiet [OF m3(3)] mock_csafe])
      (use quiet_fs_on fs_rep_cong [OF fs_rep_remounted [OF rep3]] in auto)
  with m2(1) m3(1) show ?thesis by (auto dest!: wp_RetD)
qed

text \<open>
  C4: a call is atomic when its machine stops. Cut off after any number \<open>n\<close> of disk operations, with
  any number of start-ups that stop themselves after it, a call leaves a disk from which \<open>InitSb\<close>
  and \<open>Mount\<close> give the file system as before the call or as after it, and as after it when the call
  had returned; descriptors are gone.
\<close>

theorem fs_call_crash_atomic:
  assumes "inode_codec ienc idec" and "quiet m" and "fs_rep idec sd (mock_val m) a" and "fits ienc idec sd p a (mock_val m)"
  shows "\<exists>r m1 k m2 m3 m4. fs_call (crash_disk mock_disk) ienc idec sd p (a_tab a) (m, n) = Some (r, (m1, k)) \<and>
    start_ups ns m1 = Some m2 \<and> InitSb mock_disk (leases_expired m2) = Some (Ret (), m3) \<and>
    Mount mock_disk ienc idec m3 = Some (Ret fresh_fs, m4) \<and> quiet m4 \<and>
    (fs_rep idec sd (mock_val m4) (remounted (snd (a_fs p a))) \<or>
     (\<forall>x. r \<noteq> Ret x) \<and> fs_rep idec sd (mock_val m4) (remounted a))"
proof -
  let ?D = "mock_val m" and ?W = "disk_after ienc idec sd p a (mock_val m)"
  let ?C = "\<lambda>(_ :: string) q. recovers_to (mock_val (fst q)) ?D \<or> recovers_to (mock_val (fst q)) ?W"
  have on: "mock_crash.fs_on ?D (m, n)"
    using assms(2) fs_on_quiet [of m] by (simp add: mock_crash.fs_on_def mock_crash.idle_on_def mock.fs_on_def mock.idle_on_def)
  have safe: "mock_crash.csafe ?D ?C" "mock_crash.csafe ?W ?C"
    by (auto simp: mock_crash.csafe_def crash_safe_def)
  have "wp (fs_call (crash_disk mock_disk) ienc idec sd p (a_tab a)) (\<lambda>_ q. recovers_to (mock_val (fst q)) ?W) ?C (m, n)"
    by (rule mock_crash.wp_fs_call [OF on safe assms(3,1,4)])
      (use mock_crash.idle_onD(4) mock_crash.fs_onD(1) in fastforce)
  then obtain r m1 k where run: "fs_call (crash_disk mock_disk) ienc idec sd p (a_tab a) (m, n) = Some (r, (m1, k))"
    and rec: "recovers_to (mock_val m1) ?W \<or> (\<forall>x. r \<noteq> Ret x) \<and> recovers_to (mock_val m1) ?D"
    by (cases rule: wp_cases) auto
  have rep: "fs_rep idec sd ?W (snd (a_fs p a))" by (rule fs_rep_step) (use assms in auto)
  from rec show ?thesis
  proof
    assume "recovers_to (mock_val m1) ?W"
    from mount_after_recovery [OF rep this] run show ?thesis by blast
  next
    assume "(\<forall>x. r \<noteq> Ret x) \<and> recovers_to (mock_val m1) ?D"
    with mount_after_recovery [OF assms(3), of m1] run show ?thesis by blast
  qed
qed

subsection \<open>An example\<close>

text \<open>A codec of inodes, and a disk with an empty root directory.\<close>

definition example_enc :: "Inode \<Rightarrow> string" where
  "example_enc i = unary (unat (Serialnum i), unat (Refcnt i), unat (Filesize i), map unat (Addrs i), Mode i = Dir)"

definition example_dec :: "string \<Rightarrow> Inode" where
  "example_dec s =
     (case the (from_unary s) of
        (a :: nat, b :: nat, c :: nat, ds :: nat list, d :: bool) \<Rightarrow>
          \<lparr>Serialnum = of_nat a, Refcnt = of_nat b, Filesize = of_nat c, Addrs = map of_nat ds, Mode = (if d then Dir else File)\<rparr>)"

lemma example_codec: "inode_codec example_enc example_dec" "CHR ''/'' \<notin> set (example_enc i)"
proof -
  have u: "the (from_unary (unary x)) = x" and ne: "unary x \<noteq> []" for x :: "nat \<times> nat \<times> nat \<times> nat list \<times> bool"
    using codecD(1) [OF codec_unary, of x] by (simp_all add: unary_def)
  have "example_dec (example_enc i) = i \<and> example_enc i \<noteq> []" for i
    unfolding example_dec_def example_enc_def u by (cases i; cases "Mode i") (auto simp: ne o_def map_idI)
  then show "inode_codec example_enc example_dec" by (simp add: inode_codec_def)
  show "CHR ''/'' \<notin> set (example_enc i)" by (simp add: example_enc_def unary_def)
qed

definition example_disk :: MockDisk where
  "example_disk = \<lparr>kv = [fmt_d sbNr \<mapsto> Data (flattenSb idle_sb), fmt_d (inode_block 0) \<mapsto> example_enc (new_inode 0 Dir)]\<rparr>"

lemma example_val: "mock_val example_disk = created example_enc (mock_val witness_disk) 0 Dir"
  by (auto simp: example_disk_def witness_disk_def mock_val_def created_def mget_def fun_eq_iff)

lemma witness_disk_empty: "data_blk n \<Longrightarrow> mock_val witness_disk n = []"
  by (auto simp: witness_disk_def mock_val_def mget_def data_blk_def sbNr_def)

lemma example_quiet: "quiet example_disk"
proof -
  have "sbNr \<noteq> inode_block 0" using unat_inode_block [of 0] by (auto simp: sbNr_def)
  then have "sb_on (mock_val example_disk) = sb_on (mock_val witness_disk)"
    unfolding example_val by (intro sb_on_cong) (simp add: created_def)
  also have "\<dots> = idle_sb" using witness_disk_idle [folded witness_disk_def] by (simp add: jrnl_idle_def)
  finally show ?thesis by (simp add: quiet_def mock_held_def example_disk_def mget_def)
qed

lemma example_rep: "fs_rep example_dec EndInode (mock_val example_disk) no_files"
  unfolding example_val by (rule fs_rep_no_files [OF witness_disk_empty example_codec(1)])

lemma frees_marked_take: "frees (marked b (set (take n (frees b)))) = drop n (frees b)"
proof -
  have "frees (marked b S) = filter (\<lambda>i. i \<notin> S) (frees b)" for S
    by (auto simp: frees_def intro!: filter_cong split: if_splits)
  moreover have "filter (\<lambda>i. i \<notin> set (take n xs)) xs = drop n xs" if "distinct xs" for xs :: "nat list"
  proof -
    have "filter (\<lambda>i. i \<notin> set (take n xs)) (take n xs @ drop n xs) = drop n xs"
      using that by (subst filter_append) (auto simp: filter_id_conv dest: set_take_disj_set_drop_if_distinct)
    then show ?thesis by simp
  qed
  ultimately show ?thesis by simp
qed

lemma frees_after_create:
  assumes ok: "fs_ok idec sd D" "dir_ok idec D ents" "inode_codec ienc idec" "can_create ienc idec sd D m fname"
  shows "\<exists>k. frees (bitmap_of (after_create ienc idec sd D m fname)) = drop k (frees (bitmap_of D)) \<and>
    k \<le> nblocks (length (file_content idec D 0) + length (dir_entry fname (of_nat m)))"
proof -
  let ?E = "created ienc D m File" and ?len = "length (file_content idec D 0)" and ?e = "dir_entry fname (of_nat m)"
  note cc = ok(4) [unfolded can_create_def] and cw = ok(4) [unfolded can_create_def can_write_def]
  have root: "present D 0" using ok(2) by (simp add: dir_ok_def)
  note E = fs_ok_created [OF ok(1,3) conjunct1 [OF cc], where mode = File]
  have i0: "inode_of idec ?E 0 = inode_of idec D 0" using E(4) [OF root] by auto
  have p0: "present ?E 0" using E(2) root by simp
  have rm: "room ?E (inode_of idec ?E 0) (?len + length ?e)" using cw by (simp add: room_def i0)
  note F = fs_okD [OF E(1)]
  have "bitmap_of (after_create ienc idec sd D m fname) = marked (bitmap_of ?E) (set (added sd ?E (inode_of idec ?E 0) (?len + length ?e)))"
    unfolding after_create_def written_def
    by (rule writei_disk(4) [OF F(4) [OF p0] F(1) F(5) [OF p0] _ rm]) (use cw F(2) [OF p0] in \<open>auto simp: i0\<close>)
  then show ?thesis by (auto simp: added_def frees_marked_take)
qed

definition example_ops :: "fs_op list" where
  "example_ops = [FOpen ''a'', FWrite 0 ''hello'', FOpen ''a'', FRead 1 3]"

lemma example_session: "fst (a_session example_ops no_files) = [RFd 0, RWrite 5 None, RFd 1, RRead ''hel'' None]"
  by (simp add: example_ops_def no_files_def fresh_fs_def a_open_file_def open_fd_def a_next_def set_off_def splice_def Let_def)

lemma example_bitmap: "bitmap_of (mock_val example_disk) = replicate 4096 CHR 0x00"
  unfolding example_val bitmap_of_created using witness_disk_empty [OF data_bitmapBlock] by (simp add: bitmap_of_def)

lemma frees_replicate: "frees (replicate n CHR 0x00) = [0..<n]"
  by (simp add: frees_def filter_id_conv)

lemma example_entry: "dir_entry ''a'' 1 = ''a,1 ''"
  by code_simp

lemma example_create: "can_create example_enc example_dec EndInode (mock_val example_disk) 1 ''a''"
proof -
  note R = fs_repD [OF example_rep]
  have c: "file_content example_dec (mock_val example_disk) 0 = []" and p: "present (mock_val example_disk) 0"
    using R(2) by (simp_all add: dir_ok_def no_files_def dir_text_def)
  have "mock_val example_disk (inode_block 1) = []"
    using witness_disk_empty [OF data_inode_block, of 1] by (simp add: example_val created_def)
  with p have first: "first_inode (mock_val example_disk) 1" by (simp add: first_inode_def)
  show ?thesis
    using first p example_codec(2)
    by (simp add: can_create_def can_write_def c example_entry name_ok_def room_def nblocks_def example_bitmap frees_replicate)
qed

lemma example_fits: "all_fit example_enc example_dec EndInode example_ops no_files (mock_val example_disk)"
proof -
  let ?D = "mock_val example_disk" and ?W = "after_create example_enc example_dec EndInode (mock_val example_disk) 1 ''a''"
  note R = fs_repD [OF example_rep]
  have dir: "a_dir no_files = []" "a_next no_files = 1" by (simp_all add: no_files_def a_next_def)
  have ok: "dir_ok example_dec ?D []" using R(2) by (simp add: dir)
  note W = after_create_ok [OF R(1) ok example_codec(1) example_create]
  have "file_content example_dec ?D 0 = []" using ok by (simp add: dir_ok_def dir_text_def)
  then obtain k where k: "frees (bitmap_of ?W) = drop k [0..<4096]" "k \<le> 1"
    using frees_after_create [OF R(1) ok example_codec(1) example_create]
    by (auto simp: example_bitmap frees_replicate example_entry nblocks_def)
  have "can_write example_enc example_dec EndInode ?W 1 0 ''hello''"
    using W(4) [of 1] example_codec(2) k by (simp add: can_write_def room_def nblocks_def)
  with example_create show ?thesis
    by (simp add: example_ops_def dir a_open_file_def open_fd_def set_off_def) (simp add: no_files_def fresh_fs_def)
qed

theorem session_refines_witness:
  "\<exists>f m'. session mock_disk example_enc example_dec EndInode example_ops fresh_fs example_disk
     = Some (Ret ([RFd 0, RWrite 5 None, RFd 1, RRead ''hel'' None], f), m')"
  using session_refines [OF example_codec(1) example_quiet example_rep example_fits] example_session
  by (auto simp: no_files_def)

theorem mount_fresh_witness:
  "\<exists>m1 m2. InitSb mock_disk Binit_test = Some (Ret (), m1) \<and> Mount mock_disk example_enc example_dec m1 = Some (Ret fresh_fs, m2)"
  using mount_fresh [OF example_codec] by blast

theorem fs_call_crash_atomic_witness:
  "\<exists>r m1 k m2 m3 m4. fs_call (crash_disk mock_disk) example_enc example_dec EndInode (FOpen ''a'') fresh_fs (example_disk, 42)
      = Some (r, (m1, k)) \<and>
    start_ups [7] m1 = Some m2 \<and> InitSb mock_disk (leases_expired m2) = Some (Ret (), m3) \<and>
    Mount mock_disk example_enc example_dec m3 = Some (Ret fresh_fs, m4)"
proof -
  have "fits example_enc example_dec EndInode (FOpen ''a'') no_files (mock_val example_disk)"
    using example_create by (simp add: no_files_def a_next_def)
  from fs_call_crash_atomic [OF example_codec(1) example_quiet example_rep this, of 42 "[7]"] show ?thesis
    by (fastforce simp: no_files_def)
qed

end
