(* ===== verification/Fs_Errors.thy ===== *)
theory Fs_Errors
  imports Fs_Run
begin

section \<open>Where files and directories go wrong\<close>

text \<open>
  Boundary cases of \<open>src/inode\<close> and \<open>src/fs\<close>: the rounding of sizes, names that the format of the
  directory cannot hold, and writes that do not fit into a transaction.
\<close>

subsection \<open>Sizes\<close>

text \<open>
  C29: the number of blocks of a file. \<open>saneCeil\<close> goes through floating-point numbers; for sizes
  below \<open>2^53\<close> it is nevertheless the exact quotient rounded up, so the check of \<open>increaseSize\<close> lets
  a size pass exactly when it is at most 511 blocks. From \<open>2^53\<close> on it is not.
\<close>

theorem saneCeil_exact:
  assumes "unat a < 2 ^ 53"
  shows "unat a \<le> 4096 * unat (saneCeil a 4096) \<and> 4096 * unat (saneCeil a 4096) < unat a + 4096 \<and>
    (saneCeil a 4096 \<le> nDirectBlocks \<longleftrightarrow> unat a \<le> 511 * 4096) \<and>
    4096 * unat (saneCeil (2 ^ 53 + 1) 4096) < unat (2 ^ 53 + 1 :: uint)"
proof -
  have c: "unat (saneCeil a 4096) = nblocks (unat a)" by (rule unat_saneCeil [OF assms])
  have "nblocks (unat a) \<le> 511 \<longleftrightarrow> unat a \<le> 511 * 4096" unfolding nblocks_def by linarith
  moreover have "4096 * unat (saneCeil (2 ^ 53 + 1) 4096) < unat (2 ^ 53 + 1 :: uint)"
  proof -
    have "floorlog 2 9007199254740993 = 54" by (simp add: compute_floorlog)
    then have "float64_nat 9007199254740993 = 9007199254740992" by (simp add: float64_nat_def Let_def)
    then show ?thesis by (simp add: saneCeil_def)
  qed
  ultimately show ?thesis
    using c nblocks_le nblocks_less by (simp add: word_le_nat_alt nDirectBlocks_def)
qed

theorem saneCeil_exact_witness: "saneCeil 4097 4096 = 2 \<and> saneCeil 4097 4096 \<le> nDirectBlocks"
proof -
  have "unat (4097 :: uint) < 2 ^ 53" by simp
  note c = saneCeil_exact [OF this]
  then have "unat (saneCeil 4097 4096) = 2" by simp
  then show ?thesis using c by (simp add: word_unat_eq_iff)
qed

subsection \<open>Names\<close>

text \<open>
  A name with a comma or a blank is never found again: whatever the directory holds, the search
  of \<open>Open\<close> misses it, so every \<open>Open\<close> of it makes another file.
\<close>

theorem separator_names_not_found:
  assumes "CHR '','' \<in> set fname \<or> CHR '' '' \<in> set fname"
  shows "find_entry fname (Split raw CHR '' '') = Ret None"
proof -
  have "find_entry fname es = Ret None" if "\<forall>e \<in> set es. CHR '' '' \<notin> set e" for es
    using that
  proof (induction es)
    case (Cons e es)
    have "hd (Split e CHR '','') \<noteq> fname"
    proof
      assume h: "hd (Split e CHR '','') = fname"
      have "CHR '','' \<notin> set fname" using Split_parts [of fname e "CHR '',''"] h by (metis Split_nonempty list.set_sel(1))
      moreover have "set (hd (Split e CHR '','')) \<subseteq> set e" by (rule set_hd_Split)
      ultimately show False using assms h Cons.prems by auto
    qed
    with Cons show ?case by (simp add: Let_def)
  qed simp
  then show ?thesis using Split_parts by blast
qed

theorem separator_names_not_found_witness:
  "find_entry ''a b'' (Split (dir_entry ''a b'' 5) CHR '' '') = Ret None"
  by (rule separator_names_not_found) simp

lemma find_empty:
  "\<forall>e \<in> set ents. name_ok (fst e) \<Longrightarrow>
   find_entry [] (map (\<lambda>(n, k). n @ CHR '','' # fmt_d k) ents @ [[]]) = Fatal ''index out of range''"
  by (induction ents) (auto simp: name_ok_def Let_def Split_append_sep)

text \<open>
  The empty name. The text of the directory ends with a blank, so the last entry of the split is
  empty and matches it; the program then indexes past the end of that entry and dies, whatever
  files there are.
\<close>

theorem Open_empty_name_panics:
  assumes "quiet m" and "fs_rep idec sd (mock_val m) a"
  shows "\<exists>m'. Open mock_disk ienc idec sd (a_tab a) [] m = Some (Fatal ''index out of range'', m')"
proof -
  note R = fs_repD [OF assms(2)]
  have root: "present (mock_val m) (rooti (a_tab a))" "file_content idec (mock_val m) (rooti (a_tab a)) = dir_text (a_dir a)"
    "\<forall>e \<in> set (a_dir a). name_ok (fst e)" using R(2,3) by (simp_all add: dir_ok_def)
  have len: "length (dir_text (a_dir a)) \<le> unat (NOT 0 :: uint)"
    using content_length(2) [OF R(1) root(1)] by (simp add: root(2) unsigned_minus_1_eq_mask mask_eq_exp_minus_1)
  have "wp (Readi mock_disk ienc idec (rooti (a_tab a)) 0 (NOT 0)) (\<lambda>r _. r = dir_text (a_dir a)) (\<lambda>_ _. False) m"
    by (rule mock.wp_fs_Readi [OF fs_on_quiet [OF assms(1)] mock_csafe R(1) root(1)]) (use len root(2) in simp)
  then obtain m' where "Readi mock_disk ienc idec (rooti (a_tab a)) 0 (NOT 0) m = Some (Ret (dir_text (a_dir a)), m')"
    by (auto dest: wp_RetD)
  then show ?thesis
    by (simp add: Open_def io_bind_def io_of_outcome_def Split_dir_text [OF root(3)] find_empty [OF root(3)])
qed

theorem Open_empty_name_panics_witness:
  "\<exists>m'. Open mock_disk example_enc example_dec EndInode fresh_fs [] example_disk = Some (Fatal ''index out of range'', m')"
  using Open_empty_name_panics [OF example_quiet example_rep] by (simp add: no_files_def)

subsection \<open>Writes that do not fit into their transaction\<close>

context block_store
begin

lemma full_WriteBlock: "blkPerSys \<le> offset t \<Longrightarrow> WriteBlock dsk t b = io_return (Some ''too many blocks written'', t)"
  by (simp add: WriteBlock_def)

lemma full_write_loop:
  assumes "okay s" "safe C (val s)" "blkPerSys \<le> offset t"
    and "distinct as" "\<forall>b \<in> set as. \<not> held s b \<and> length (val s b) \<le> 4096"
    and "unat bo + length data \<le> 4096 * length as" "unat bo < 4096" "as \<noteq> [] \<longrightarrow> unat bo \<le> length (val s (hd as))"
    and "\<And>s'. okay s' \<Longrightarrow> val s' = val s \<Longrightarrow> held s' = held s \<Longrightarrow> wp (f t) Q C s'"
  shows "wp (io_bind (write_loop dsk t as bo (length data) data) f) Q C s"
  using assms
proof (induction as arbitrary: s bo data)
  case Nil
  then show ?case by (simp add: write_loop.simps [of dsk _ "[]"])
next
  case (Cons b as)
  show ?case
  proof (cases "data = []")
    case True
    with Cons.prems show ?thesis by (simp add: write_loop.simps [of dsk _ "b # as"])
  next
    case False
    let ?V = "val s" and ?o = "unat bo"
    have b: "\<not> held s b" "length (?V b) \<le> 4096" "?o \<le> length (?V b)" using Cons.prems(5,8) by auto
    obtain x rest n where blk: "write_block bo (length data) data (?V b) = Ret (x, rest, n)"
      and n: "n = 0 \<or> n = length rest \<and> length rest \<le> 4096 * length as"
      using write_block_eq [OF False b(2) Cons.prems(7) b(3)] Cons.prems(6) by (auto split: if_splits)
    have next_: "wp (io_bind (write_loop dsk t as 0 n rest) f) Q C s'"
      if s': "okay s'" "val s' = val s" "held s' = held s" for s'
    proof (cases "n = 0")
      case True
      with Cons.prems(9) [OF s'] show ?thesis by (simp add: write_loop.simps [of dsk t as])
    next
      case False
      with n have "n = length rest" "length rest \<le> 4096 * length as" by auto
      then show ?thesis using Cons.prems s' by (auto intro!: Cons.IH [of s' 0 rest])
    qed
    have "wp (io_bind (Bget dsk b) (\<lambda>blk. io_bind (io_of_outcome (write_block bo (length data) data (Data blk))) (\<lambda>r.
        io_bind (WriteBlock dsk t (blk\<lparr>Data := fst r\<rparr>)) (\<lambda>u. io_bind (Brelse dsk (blk\<lparr>Data := fst r\<rparr>)) (\<lambda>_.
        io_bind (write_loop dsk (snd u) as 0 (snd (snd r)) (fst (snd r))) f))))) Q C s"
    proof (rule bind_Bget [OF Cons.prems(1) b(1) Cons.prems(2)], simp only: Block.select_convs, rule wp_bind_outcomeI [OF blk])
      fix s1 assume s1: "okay s1" "val s1 = val s" "held s1 = (held s)(b := True)"
      show "wp (io_bind (WriteBlock dsk t (\<lparr>Nr = b, Data = ?V b\<rparr>\<lparr>Data := fst (x, rest, n)\<rparr>)) (\<lambda>u.
          io_bind (Brelse dsk (\<lparr>Nr = b, Data = ?V b\<rparr>\<lparr>Data := fst (x, rest, n)\<rparr>)) (\<lambda>_.
          io_bind (write_loop dsk (snd u) as 0 (snd (snd (x, rest, n))) (fst (snd (x, rest, n)))) f))) Q C s1"
        unfolding full_WriteBlock [OF Cons.prems(3)] fst_conv snd_conv io_bind_return Block.update_convs
        by (rule bind_Brelse) (use s1 Cons.prems(2) b(1) next_ in \<open>auto simp: fun_upd_idem\<close>)
    qed

    with False show ?thesis by (simp add: write_loop.simps [of dsk _ "b # as"] Let_def io_bind_assoc)
  qed
qed

lemma wp_full_Writei:
  fixes off sd :: uint
  assumes s: "okay s" "safe C (val s)" "\<forall>n. \<not> held s n" and t: "blkPerSys \<le> offset t"
    and ok: "fs_ok idec sd (val s)" "present (val s) inum"
    and fit: "unat off + length data \<le> unat (Filesize (inode_of idec (val s) inum))" "data \<noteq> []"
    and Q: "\<And>s'. okay s' \<Longrightarrow> val s' = val s \<Longrightarrow> Q ((of_nat (length data), None), t) s'"
  shows "wp (Writei dsk ienc idec sd t inum off data) Q C s"
  unfolding Writei_def
proof (rule bind_Geti [OF s(1,2) inode_on_present [OF ok]])
  let ?i = "inode_of idec (val s) inum" and ?tb = "of_nat (length data) :: uint"
  let ?bn = "unat off div 4096" and ?bo = "unat off mod 4096"
  note F = fs_okD [OF ok(1)] and f = fs_okD(4) [OF ok, unfolded file_ok_def]
  have ser: "Serialnum ?i = inum" "unat inum < 16384" using F(2) [OF ok(2)] ok(2) by (simp_all add: present_def)
  have small: "unat off + length data \<le> 511 * 4096" using f fit(1) by simp
  have ns: "unat (off + ?tb) = unat off + length data"
    using small by (simp add: unat_word_ariths unat_of_nat take_bit_nat_eq_self)
  have div: "unat (off div 4096) = ?bn" "unat (off mod 4096) = ?bo" by (simp_all add: unat_div unat_mod)
  have "unat off < 511 * 4096" using fit(2) small by (cases data) simp_all
  then have "?bn < 511" by (simp add: less_mult_imp_div_less)
  then have guards: "\<not> nDirectBlocks \<le> off div 4096" "\<not> Filesize ?i < off" "\<not> nDirectBlocks * 4096 < off + ?tb" "\<not> Filesize ?i < off + ?tb"
    using fit(1) small ns div by (auto simp: nDirectBlocks_def word_less_nat_alt word_le_nat_alt)
  have st: "stair (val s) (Addrs ?i)" using full_stair [of "val s" "Addrs ?i" "[]"] f by simp
  have fits: "unat off + length data \<le> 4096 * length (Addrs ?i)"
    using f fit(1) nblocks_le [of "unat (Filesize ?i)"] by simp
  have len: "unat off \<le> length (blocks_of (val s) (Addrs ?i))" using f fit(1) by simp
  note at = block_writes_at(3) [OF conjunct1 [OF conjunct2 [OF conjunct2 [OF conjunct2 [OF conjunct2 [OF f]]]]] st len fits]
  have bo: "?bo + length data \<le> 4096 * length (drop ?bn (Addrs ?i))"
  proof -
    have "4096 * (unat off div 4096) + unat off mod 4096 = unat off" by simp
    with fits show ?thesis unfolding length_drop right_diff_distrib' by linarith
  qed
  have blk: "a \<noteq> inode_block inum \<and> length (val s a) \<le> 4096" if "a \<in> set (Addrs ?i)" for a
    using that F(5) [OF ok(2)] pool_block(3) [OF F(1)] ser(2) f unfolding owned_def full_but_last_def by metis
  fix s1 assume s1: "okay s1" "val s1 = val s" "held s1 = (held s)(inode_block inum := True)"
  have "wp (io_bind (write_loop dsk t (drop ?bn (Addrs ?i)) (off mod 4096) (length data) data) (\<lambda>t'.
      io_bind (Relse dsk ienc ?i) (\<lambda>_. io_return ((?tb, None), t')))) Q C s1"
  proof (rule full_write_loop [OF s1(1) _ t], unfold div s1(2))
    show "\<forall>b \<in> set (drop ?bn (Addrs ?i)). \<not> held s1 b \<and> length (val s b) \<le> 4096"
      using s1(3) s(3) blk by (auto dest: in_set_dropD)
    fix s2 assume s2: "okay s2" "val s2 = val s" "held s2 = held s1"
    show "wp (io_bind (Relse dsk ienc ?i) (\<lambda>_. io_return ((?tb, None), t))) Q C s2"
      by (rule bind_Relse) (use s2 s(2) Q in auto)
  qed (use s(2) f bo at in auto)
  with guards show "wp (let bn = off div 4096; bo = off mod 4096; tb = of_nat (length data);
      leave = \<lambda>i r t. io_bind (Relse dsk ienc i) (\<lambda>_. io_return (r, t)) in
      if nDirectBlocks \<le> bn then leave ?i (0, Some ''maximum valid blocks exceeded'') t
      else if Filesize ?i < off \<and> off \<noteq> 0 \<and> Filesize ?i \<noteq> 0 then leave ?i (0, Some ''tried to append past the end of the file'') t
      else if nDirectBlocks * 4096 < off + tb then leave ?i (0, Some ''that write too big'') t
      else io_bind (if Filesize ?i < off + tb then io_bind (increaseSize dsk ienc sd t ?i (off + tb)) (\<lambda>r. io_return (snd r)) else io_return (?i, t))
        (\<lambda>it. io_bind (write_loop dsk (snd it) (drop (unat bn) (Addrs (fst it))) bo (length data) data) (\<lambda>t'. leave (fst it) (tb, None) t'))) Q C s1"
    by (simp add: Let_def div)
qed (use s(3) in auto)

end

text \<open>
  C38: a write whose transaction is full is lost in silence. \<open>Writei\<close> does not look at the error of
  \<open>WriteBlock\<close>: with the segment of the transaction full, it reports all bytes as written, and
  neither the log nor the disk has changed.
\<close>

theorem Writei_full_loses_data:
  assumes "\<And>n. \<not> mock_held m n" and "blkPerSys \<le> offset t" and "fs_ok idec sd (mock_val m)" and "present (mock_val m) inum"
    and "unat off + length data \<le> unat (Filesize (inode_of idec (mock_val m) inum))" and "data \<noteq> []"
  shows "\<exists>m'. Writei mock_disk ienc idec sd t inum off data m = Some (Ret ((of_nat (length data), None), t), m') \<and>
    mock_val m' = mock_val m"
proof -
  have "wp (Writei mock_disk ienc idec sd t inum off data) (\<lambda>r m'. r = ((of_nat (length data), None), t) \<and> mock_val m' = mock_val m)
      (\<lambda>_ _. False) m"
    by (rule mock.wp_full_Writei) (use assms in \<open>auto simp: crash_safe_def\<close>)
  then show ?thesis by (auto dest: wp_RetD)
qed

lemma example_file:
  "\<exists>m. quiet m \<and> fs_ok example_dec EndInode (mock_val m) \<and> present (mock_val m) 1 \<and>
     Filesize (inode_of example_dec (mock_val m) 1) = 5"
proof -
  let ?a = "snd (a_session example_ops no_files)"
  have "wp (session mock_disk example_enc example_dec EndInode example_ops (a_tab no_files))
      (\<lambda>_ m. fs_rep example_dec EndInode (mock_val m) ?a \<and> quiet m) (\<lambda>_ _. False) example_disk"
    by (rule mock.wp_session [OF fs_on_quiet [OF example_quiet] example_rep example_codec(1) example_fits mock_csafe])
      (use quiet_fs_on fs_rep_cong in blast)
  then obtain m where m: "fs_rep example_dec EndInode (mock_val m) ?a" "quiet m" by (auto dest!: wp_RetD)
  note R = fs_repD [OF m(1)]
  have a: "a_dir ?a = [(''a'', 1)]" "a_cont ?a 1 = ''hello''"
    by (simp_all add: example_ops_def no_files_def fresh_fs_def a_open_file_def open_fd_def a_next_def set_off_def splice_def Let_def)
  have p: "present (mock_val m) 1" using R(2) by (simp add: dir_ok_def a)
  have c: "file_content example_dec (mock_val m) 1 = ''hello''" using R(4) [OF p] a(2) by simp
  have "unat (Filesize (inode_of example_dec (mock_val m) 1)) = unat (5 :: uint)" using content_length(1) [OF R(1) p] by (simp add: c)
  with p m(2) R(1) show ?thesis by (metis word_unat_eq_iff)
qed

theorem Writei_full_loses_data_witness:
  "\<exists>m m'. quiet m \<and> Writei mock_disk example_enc example_dec EndInode \<lparr>blkSeg = 0, offset = 100\<rparr> 1 1 ''abc'' m
      = Some (Ret ((3, None), \<lparr>blkSeg = 0, offset = 100\<rparr>), m') \<and> mock_val m' = mock_val m"
proof -
  obtain m where m: "quiet m" "fs_ok example_dec EndInode (mock_val m)" "present (mock_val m) 1"
    "Filesize (inode_of example_dec (mock_val m) 1) = 5" using example_file by blast
  have "\<not> mock_held m n" for n using m(1) by (simp add: quiet_def)
  from Writei_full_loses_data [OF this _ m(2,3), of "\<lparr>blkSeg = 0, offset = 100\<rparr>" 1 "''abc''" example_enc] m(1,4)
  show ?thesis by (auto simp: blkPerSys_def)
qed

end
