(* ===== verification/Cli.thy ===== *)
theory Cli
  imports Fs_Run
begin

section \<open>The command line: src/main.go\<close>

text \<open>
  A client machine sets up the journal, mounts the file system and executes a command per line. A
  line goes in, what is printed comes out; the state is the file system and the transaction that
  \<open>begin\<close> opened. The rest of \<open>main\<close> chooses the role of the machine by its arguments.
\<close>

subsection \<open>main.go\<close>

record cli =
  c_fs :: Filesystem
  inTxn :: bool
  c_txn :: "TxnHandle option"

definition nl :: string where
  "nl = [CHR 0x0A]"

text \<open>\<open>%d\<close> for a signed number; \<open>strconv.ParseInt(s, 10, 64)\<close> accepts what \<open>Atoi\<close> accepts.\<close>

definition fmt_sd :: "64 word \<Rightarrow> string" where
  "fmt_sd w = (if sint w < 0 then ''-'' @ dec (nat (- sint w)) else dec (nat (sint w)))"

definition ParseInt64 :: "string \<Rightarrow> 64 word option" where
  "ParseInt64 s = (case Atoi s of (n, None) \<Rightarrow> Some (word_of_int n) | _ \<Rightarrow> None)"

definition ParseUintOk :: "string \<Rightarrow> nat \<Rightarrow> nat option" where
  "ParseUintOk s w = (case ParseUint s 10 w of (n, None) \<Rightarrow> Some n | _ \<Rightarrow> None)"

definition badcmd :: "cli \<Rightarrow> ('s, string \<times> cli) io" where
  "badcmd st = io_return (''Invalid arguments!'' @ nl, st)"

definition no_txn :: "string \<Rightarrow> cli \<Rightarrow> ('s, string \<times> cli) io" where
  "no_txn msg st = io_return (msg @ nl, st)"

definition with_txn :: "cli \<Rightarrow> (TxnHandle \<Rightarrow> ('s, 'a) io) \<Rightarrow> ('s, 'a) io" where
  "with_txn st f = (case c_txn st of None \<Rightarrow> io_fatal ''nil pointer dereference'' | Some t \<Rightarrow> f t)"

definition cmd_open :: "'s Disk \<Rightarrow> (Inode \<Rightarrow> string) \<Rightarrow> (string \<Rightarrow> Inode) \<Rightarrow> uint \<Rightarrow> string list \<Rightarrow> cli \<Rightarrow> ('s, string \<times> cli) io" where
  "cmd_open dsk ienc idec sd i st =
     (if length i \<noteq> 2 then badcmd st
      else
        io_bind (Open dsk ienc idec sd (c_fs st) (i ! 1)) (\<lambda>(res, f).
        io_return (''Opened file '' @ i ! 1 @ '' -> fd '' @ fmt_sd res @ nl, st\<lparr>c_fs := f\<rparr>)))"

definition cmd_read :: "'s Disk \<Rightarrow> (Inode \<Rightarrow> string) \<Rightarrow> (string \<Rightarrow> Inode) \<Rightarrow> uint \<Rightarrow> string list \<Rightarrow> cli \<Rightarrow> ('s, string \<times> cli) io" where
  "cmd_read dsk ienc idec sd i st =
     (if length i \<noteq> 3 then badcmd st
      else
        (case ParseInt64 (i ! 1) of
           None \<Rightarrow> badcmd st
         | Some fd \<Rightarrow>
             (case ParseUintOk (i ! 2) 64 of
                None \<Rightarrow> badcmd st
              | Some n \<Rightarrow>
                  io_bind (Read dsk ienc idec (c_fs st) fd (of_nat n)) (\<lambda>((res, err), f).
                  io_return
                    ((case err of Some e \<Rightarrow> ''Read error: '' @ e @ nl | None \<Rightarrow> ''Read data: '' @ res @ nl),
                     st\<lparr>c_fs := f\<rparr>)))))"

definition cmd_write :: "'s Disk \<Rightarrow> (Inode \<Rightarrow> string) \<Rightarrow> (string \<Rightarrow> Inode) \<Rightarrow> uint \<Rightarrow> string list \<Rightarrow> cli \<Rightarrow> ('s, string \<times> cli) io" where
  "cmd_write dsk ienc idec sd i st =
     (if length i \<noteq> 3 then badcmd st
      else
        (case ParseInt64 (i ! 1) of
           None \<Rightarrow> badcmd st
         | Some fd \<Rightarrow>
             io_bind (Write dsk ienc idec sd (c_fs st) fd (i ! 2)) (\<lambda>((res, err), f).
             io_return
               ((case err of Some e \<Rightarrow> ''Write error: '' @ e @ nl
                 | None \<Rightarrow> ''Wrote '' @ fmt_d res @ '' bytes of data''),
                st\<lparr>c_fs := f\<rparr>))))"

definition cmd_close :: "string list \<Rightarrow> cli \<Rightarrow> ('s, string \<times> cli) io" where
  "cmd_close i st =
     (if length i \<noteq> 2 then badcmd st
      else
        (case ParseInt64 (i ! 1) of
           None \<Rightarrow> badcmd st
         | Some fd \<Rightarrow> io_return (''Closed fd '' @ fmt_sd fd @ nl, st\<lparr>c_fs := Close (c_fs st) fd\<rparr>)))"

definition cmd_begin :: "'s Disk \<Rightarrow> string list \<Rightarrow> cli \<Rightarrow> ('s, string \<times> cli) io" where
  "cmd_begin dsk i st =
     (if length i \<noteq> 1 then badcmd st
      else if inTxn st then no_txn ''already in transaction'' st
      else
        io_bind (BeginTransaction dsk) (\<lambda>t.
        io_return (''started a new transaction'' @ nl, st\<lparr>c_txn := Some t, inTxn := True\<rparr>)))"

definition cmd_end :: "'s Disk \<Rightarrow> cli \<Rightarrow> ('s, string \<times> cli) io" where
  "cmd_end dsk st =
     (if \<not> inTxn st then no_txn ''not in transaction'' st
      else
        io_bind (with_txn st (\<lambda>t. EndTransaction dsk t False)) (\<lambda>_.
        io_return (''transaction ended'' @ nl, st\<lparr>c_txn := None, inTxn := False\<rparr>)))"

definition cmd_abort :: "'s Disk \<Rightarrow> cli \<Rightarrow> ('s, string \<times> cli) io" where
  "cmd_abort dsk st =
     (if \<not> inTxn st then no_txn ''not in transaction'' st
      else
        io_bind (with_txn st (AbortTransaction dsk)) (\<lambda>_.
        io_return (''transaction ended'' @ nl, st\<lparr>c_txn := None, inTxn := False\<rparr>)))"

definition cmd_alloci :: "'s Disk \<Rightarrow> (Inode \<Rightarrow> string) \<Rightarrow> (string \<Rightarrow> Inode) \<Rightarrow> string list \<Rightarrow> cli \<Rightarrow> ('s, string \<times> cli) io" where
  "cmd_alloci dsk ienc idec i st =
     (if length i \<noteq> 1 then badcmd st
      else if \<not> inTxn st then no_txn ''Not in transaction'' st
      else
        io_bind (with_txn st (\<lambda>t. Alloci dsk ienc idec t File)) (\<lambda>(ni, t).
        io_bind (Relse dsk ienc ni) (\<lambda>_.
        io_return (''Got inode '' @ fmt_d (Serialnum ni) @ nl, st\<lparr>c_txn := Some t\<rparr>))))"

definition cmd_freei :: "'s Disk \<Rightarrow> (Inode \<Rightarrow> string) \<Rightarrow> (string \<Rightarrow> Inode) \<Rightarrow> string list \<Rightarrow> cli \<Rightarrow> ('s, string \<times> cli) io" where
  "cmd_freei dsk ienc idec i st =
     (if length i \<noteq> 2 then badcmd st
      else if \<not> inTxn st then no_txn ''Not in transaction'' st
      else
        (case ParseUintOk (i ! 1) 16 of
           None \<Rightarrow> badcmd st
         | Some inum \<Rightarrow>
             io_bind (Geti dsk idec (of_nat inum)) (\<lambda>ni.
             io_bind (with_txn st (\<lambda>t. Free dsk ienc t ni)) (\<lambda>(err, _, t).
             io_return
               ((case err of Some e \<Rightarrow> ''Error: '' @ e @ nl | None \<Rightarrow> ''Freed '' @ dec inum @ nl),
                st\<lparr>c_txn := Some t\<rparr>)))))"

definition cmd_readi :: "'s Disk \<Rightarrow> (Inode \<Rightarrow> string) \<Rightarrow> (string \<Rightarrow> Inode) \<Rightarrow> string list \<Rightarrow> cli \<Rightarrow> ('s, string \<times> cli) io" where
  "cmd_readi dsk ienc idec i st =
     (if length i \<noteq> 4 then badcmd st
      else
        (case ParseUintOk (i ! 1) 16 of
           None \<Rightarrow> badcmd st
         | Some inum \<Rightarrow>
             (case ParseUintOk (i ! 2) 64 of
                None \<Rightarrow> badcmd st
              | Some off \<Rightarrow>
                  (case ParseUintOk (i ! 3) 64 of
                     None \<Rightarrow> badcmd st
                   | Some count \<Rightarrow>
                       io_bind (Readi dsk ienc idec (of_nat inum) (of_nat off) (of_nat count)) (\<lambda>res.
                       io_return (''Read: '' @ res @ nl, st))))))"

definition cmd_writei :: "'s Disk \<Rightarrow> (Inode \<Rightarrow> string) \<Rightarrow> (string \<Rightarrow> Inode) \<Rightarrow> uint \<Rightarrow> string list \<Rightarrow> cli \<Rightarrow> ('s, string \<times> cli) io" where
  "cmd_writei dsk ienc idec sd i st =
     (if length i \<noteq> 4 then badcmd st
      else if \<not> inTxn st then no_txn ''not in transaction'' st
      else
        (case ParseUintOk (i ! 1) 16 of
           None \<Rightarrow> badcmd st
         | Some inum \<Rightarrow>
             (case ParseUintOk (i ! 2) 64 of
                None \<Rightarrow> badcmd st
              | Some off \<Rightarrow>
                  io_bind (with_txn st (\<lambda>t. Writei dsk ienc idec sd t (of_nat inum) (of_nat off) (i ! 3))) (\<lambda>((res, err), t).
                  io_return
                    ((case err of Some e \<Rightarrow> ''Err: '' @ e @ nl | None \<Rightarrow> ''Wrote '' @ fmt_d res @ '' bytes'' @ nl),
                     st\<lparr>c_txn := Some t\<rparr>)))))"

definition cli_line :: "'s Disk \<Rightarrow> (Inode \<Rightarrow> string) \<Rightarrow> (string \<Rightarrow> Inode) \<Rightarrow> uint \<Rightarrow> string \<Rightarrow> cli \<Rightarrow> ('s, string \<times> cli) io" where
  "cli_line dsk ienc idec sd ri st =
     (let i = Split (filter (\<lambda>c. c \<noteq> CHR 0x0A) ri) CHR '' '' in
      if i ! 0 = ''open'' then cmd_open dsk ienc idec sd i st
      else if i ! 0 = ''read'' then cmd_read dsk ienc idec sd i st
      else if i ! 0 = ''write'' then cmd_write dsk ienc idec sd i st
      else if i ! 0 = ''close'' then cmd_close i st
      else if i ! 0 = ''begin'' then cmd_begin dsk i st
      else if i ! 0 = ''end'' then cmd_end dsk st
      else if i ! 0 = ''abort'' then cmd_abort dsk st
      else if i ! 0 = ''alloci'' then cmd_alloci dsk ienc idec i st
      else if i ! 0 = ''freei'' then cmd_freei dsk ienc idec i st
      else if i ! 0 = ''readi'' then cmd_readi dsk ienc idec i st
      else if i ! 0 = ''writei'' then cmd_writei dsk ienc idec sd i st
      else io_return ([], st))"

text \<open>
  The loop, on the lines that the input has. It has no way out: the error of \<open>ReadString\<close> is dropped,
  so at the end of the input the machine reads empty lines (\<open>end_of_input_prompts\<close>). The progress
  messages that the packages print for debugging are not part of the output.
\<close>

fun cli_loop :: "'s Disk \<Rightarrow> (Inode \<Rightarrow> string) \<Rightarrow> (string \<Rightarrow> Inode) \<Rightarrow> uint \<Rightarrow> string list \<Rightarrow> cli \<Rightarrow> ('s, string \<times> cli) io" where
  "cli_loop dsk ienc idec sd [] st = io_return ([], st)"
| "cli_loop dsk ienc idec sd (ri # ris) st =
     io_bind (cli_line dsk ienc idec sd ri st) (\<lambda>(out, st').
     io_bind (cli_loop dsk ienc idec sd ris st') (\<lambda>(outs, st''). io_return (''> '' @ out @ outs, st'')))"

definition runCli :: "'s Disk \<Rightarrow> (Inode \<Rightarrow> string) \<Rightarrow> (string \<Rightarrow> Inode) \<Rightarrow> uint \<Rightarrow> string list \<Rightarrow> ('s, string \<times> cli) io" where
  "runCli dsk ienc idec sd ris =
     io_bind (Mount dsk ienc idec) (\<lambda>f.
       cli_loop dsk ienc idec sd ris \<lparr>c_fs = f, inTxn = False, c_txn = None\<rparr>)"

datatype role = RunNs | RunClient string | RunServer string

definition main_role :: "string list \<Rightarrow> role outcome" where
  "main_role a =
     (if length a \<noteq> 3 then Fatal ''invalid number of arguments''
      else if a ! 1 \<noteq> ''client'' \<and> a ! 1 \<noteq> ''server'' \<and> a ! 1 \<noteq> ''ns'' then Fatal ''invalid second argument''
      else if a ! 1 = ''ns'' then Ret RunNs
      else if a ! 1 = ''client'' then Ret (RunClient (a ! 2))
      else Ret (RunServer (a ! 2)))"

definition client_main :: "'s Disk \<Rightarrow> (Inode \<Rightarrow> string) \<Rightarrow> (string \<Rightarrow> Inode) \<Rightarrow> string list \<Rightarrow> ('s, string \<times> cli) io" where
  "client_main dsk ienc idec ris =
     io_bind (InitSb dsk) (\<lambda>_. runCli dsk ienc idec EndInode ris)"

subsection \<open>What a user types and reads\<close>

text \<open>The command line of a call, and what the machine shows for its result, the prompt included.\<close>

fun cmd_text :: "fs_op \<Rightarrow> string" where
  "cmd_text (FOpen n) = ''open '' @ n"
| "cmd_text (FRead fd c) = ''read '' @ fmt_sd fd @ '' '' @ fmt_d c"
| "cmd_text (FWrite fd d) = ''write '' @ fmt_sd fd @ '' '' @ d"
| "cmd_text (FClose fd) = ''close '' @ fmt_sd fd"

definition cmd_line :: "fs_op \<Rightarrow> string" where
  "cmd_line p = cmd_text p @ nl"

text \<open>A name or data that is typed in has no blank and no newline.\<close>

definition one_word :: "string \<Rightarrow> bool" where
  "one_word s \<longleftrightarrow> CHR '' '' \<notin> set s \<and> CHR 0x0A \<notin> set s"

fun typable :: "fs_op \<Rightarrow> bool" where
  "typable (FOpen n) = one_word n"
| "typable (FWrite fd d) = one_word d"
| "typable p = True"

fun shown :: "fs_op \<Rightarrow> fs_res \<Rightarrow> string" where
  "shown (FOpen n) (RFd fd) = ''Opened file '' @ n @ '' -> fd '' @ fmt_sd fd @ nl"
| "shown p (RRead d None) = ''Read data: '' @ d @ nl"
| "shown p (RRead d (Some e)) = ''Read error: '' @ e @ nl"
| "shown p (RWrite n None) = ''Wrote '' @ fmt_d n @ '' bytes of data''"
| "shown p (RWrite n (Some e)) = ''Write error: '' @ e @ nl"
| "shown (FClose fd) RClose = ''Closed fd '' @ fmt_sd fd @ nl"
| "shown p r = []"

fun transcript :: "fs_op list \<Rightarrow> fs_res list \<Rightarrow> string" where
  "transcript (p # ps) (r # rs) = ''> '' @ shown p r @ transcript ps rs"
| "transcript ps rs = []"

subsection \<open>Numbers are read back\<close>

lemma Atoi_minus_dec: "n \<le> 2 ^ 63 \<Longrightarrow> Atoi (CHR ''-'' # dec n) = (- int n, None)"
  using ParseUint_dec [of n 64] by (simp add: Atoi_def)

lemma ParseInt64_fmt_sd [simp]: "ParseInt64 (fmt_sd w) = Some w"
proof (cases "sint w < 0")
  case True
  have "- (2 ^ 63) \<le> sint w" using sint_range_size [of w] by (simp add: word_size)
  with True have "nat (- sint w) \<le> 2 ^ 63" by simp
  from Atoi_minus_dec [OF this] True show ?thesis by (simp add: ParseInt64_def fmt_sd_def)
next
  case False
  have "sint w < 2 ^ 63" using sint_range_size [of w] by (simp add: word_size)
  with False have "nat (sint w) < 2 ^ 63" by simp
  from Atoi_dec [OF this] False show ?thesis by (simp add: ParseInt64_def fmt_sd_def)
qed

lemma ParseUintOk_fmt_d [simp]: "ParseUintOk (fmt_d (u :: uint)) 64 = Some (unat u)"
  by (simp add: ParseUintOk_def ParseUint_fmt_d)

lemma one_word_fmt [simp]: "one_word (fmt_sd w)" "one_word (fmt_d u)"
  using dec_not_in [of "CHR '' ''"] dec_not_in [of "CHR 0x0A"] by (auto simp: one_word_def fmt_sd_def fmt_d_def)

lemma words_of_line:
  "one_word s \<Longrightarrow> Split s CHR '' '' = [s]"
  "one_word s \<Longrightarrow> Split (s @ CHR '' '' # t) CHR '' '' = s # Split t CHR '' ''"
  by (simp_all add: one_word_def Split_no_sep Split_append_sep)

lemma no_newline: "one_word s \<Longrightarrow> filter (\<lambda>c. c \<noteq> CHR 0x0A) s = s"
  by (auto simp: one_word_def filter_id_conv)

subsection \<open>A line runs its call\<close>

lemma shown_cases:
  "shown p (RRead d e) = (case e of Some e \<Rightarrow> ''Read error: '' @ e @ nl | None \<Rightarrow> ''Read data: '' @ d @ nl)"
  "shown p (RWrite n e) = (case e of Some e \<Rightarrow> ''Write error: '' @ e @ nl | None \<Rightarrow> ''Wrote '' @ fmt_d n @ '' bytes of data'')"
  by (cases p; cases e; simp)+

lemma cli_line_call:
  assumes "typable p"
  shows "cli_line dsk ienc idec sd (cmd_line p) st =
    io_bind (fs_call dsk ienc idec sd p (c_fs st)) (\<lambda>(r, f). io_return (shown p r, st\<lparr>c_fs := f\<rparr>))"
proof (cases p)
  case (FOpen n)
  with assms show ?thesis
    by (simp add: cli_line_def cmd_line_def nl_def no_newline words_of_line cmd_open_def io_bind_assoc case_prod_unfold shown_cases)
next
  case (FRead fd c)
  show ?thesis
    by (simp add: FRead cli_line_def cmd_line_def nl_def no_newline words_of_line cmd_read_def io_bind_assoc case_prod_unfold shown_cases)
next
  case (FWrite fd d)
  with assms show ?thesis
    by (simp add: cli_line_def cmd_line_def nl_def no_newline words_of_line cmd_write_def io_bind_assoc case_prod_unfold shown_cases)
next
  case (FClose fd)
  show ?thesis
    by (simp add: FClose cli_line_def cmd_line_def nl_def no_newline words_of_line cmd_close_def)
qed

lemma cli_loop_session:
  assumes "\<forall>p \<in> set ps. typable p"
  shows "cli_loop dsk ienc idec sd (map cmd_line ps) st =
    io_bind (session dsk ienc idec sd ps (c_fs st)) (\<lambda>(rs, f). io_return (transcript ps rs, st\<lparr>c_fs := f\<rparr>))"
  using assms by (induction ps arbitrary: st) (simp_all add: cli_line_call io_bind_assoc case_prod_unfold)

lemma end_of_input_prompts:
  "cli_loop dsk ienc idec sd (replicate n []) st = io_return (concat (replicate n ''> ''), st)"
  by (induction n) (simp_all add: cli_line_def)

subsection \<open>A machine that starts as a client\<close>

lemma fs_on_recovered:
  assumes "sb_on (mock_val m) = idle_sb" "\<forall>n. \<not> mock_held m n" "same_data (mock_val m) D"
  shows "mock.fs_on D m"
  using fs_on_quiet [of m] assms
  by (simp add: quiet_def mock.fs_on_def mock.idle_on_def jrnl_on_def)

text \<open>The machine after \<open>jrnl.InitSb\<close> and \<open>fs.Mount\<close>, before the first line.\<close>

definition fresh_cli :: cli where
  "fresh_cli = \<lparr>c_fs = fresh_fs, inTxn = False, c_txn = None\<rparr>"

lemma wp_client_main:
  assumes codec: "inode_codec ienc idec" and rec: "recovers_to (mock_val m) D" and rep: "fs_rep idec EndInode D a"
    and fit: "all_fit ienc idec EndInode ps (remounted a) D" and typed: "\<forall>p \<in> set ps. typable p"
  shows "wp (client_main mock_disk ienc idec (map cmd_line ps))
    (\<lambda>r m'. r = (transcript ps (fst (a_session ps (remounted a))), fresh_cli\<lparr>c_fs := a_tab (snd (a_session ps (remounted a)))\<rparr>) \<and>
      fs_rep idec EndInode (mock_val m') (snd (a_session ps (remounted a))) \<and> quiet m') (\<lambda>_ _. False) (leases_expired m)"
  unfolding client_main_def wp_bind [of "InitSb mock_disk"]
proof (rule mock.wp_InitSb_recovers)
  fix m1 assume "same_data (mock_val m1) D" "sb_on (mock_val m1) = idle_sb"
    "\<forall>n. mock_held m1 n \<longrightarrow> mock_held (leases_expired m) n"
  then have on: "mock.fs_on D m1" by (intro fs_on_recovered) auto
  have pres: "present D 0" using rep by (simp add: fs_rep_def dir_ok_def)
  have tab: "a_tab (remounted a) = fresh_fs" by (simp add: remounted_def)
  show "wp (runCli mock_disk ienc idec EndInode (map cmd_line ps))
    (\<lambda>r m'. r = (transcript ps (fst (a_session ps (remounted a))), fresh_cli\<lparr>c_fs := a_tab (snd (a_session ps (remounted a)))\<rparr>) \<and>
      fs_rep idec EndInode (mock_val m') (snd (a_session ps (remounted a))) \<and> quiet m') (\<lambda>_ _. False) m1"
    unfolding runCli_def wp_bind [of "Mount mock_disk ienc idec"] fresh_cli_def [symmetric]
  proof (rule mock.wp_fs_Mount_again [OF on mock_csafe pres])
    fix m2 assume on2: "mock.fs_on D m2"
    show "wp (cli_loop mock_disk ienc idec EndInode (map cmd_line ps) \<lparr>c_fs = fresh_fs, inTxn = False, c_txn = None\<rparr>)
      (\<lambda>r m'. r = (transcript ps (fst (a_session ps (remounted a))), fresh_cli\<lparr>c_fs := a_tab (snd (a_session ps (remounted a)))\<rparr>) \<and>
        fs_rep idec EndInode (mock_val m') (snd (a_session ps (remounted a))) \<and> quiet m') (\<lambda>_ _. False) m2"
      unfolding cli_loop_session [OF typed] wp_bind cli.select_convs tab [symmetric]
      by (rule mock.wp_session [OF on2 fs_rep_remounted [OF rep] codec fit mock_csafe])
        (use quiet_fs_on fs_rep_cong in \<open>auto simp: fresh_cli_def\<close>)
  qed
qed (use rec in \<open>auto simp: mock.log_unlocked_def crash_safe_def\<close>)



end
