(* ===== verification/Cli_Txn.thy ===== *)
theory Cli_Txn
  imports Cli
begin

section \<open>Transactions at the command line\<close>

text \<open>
  The commands \<open>begin\<close>, \<open>writei\<close>, \<open>end\<close> and \<open>abort\<close> of \<open>main.go\<close>: a user writes to files by the numbers of
  their inodes, inside a transaction. One write is what the file system's own \<open>Write\<close> does
  (\<open>txn_line_commits\<close>). Two are not: every write is worked out from the disk as it was before the
  transaction, so two files get the same block (\<open>two_writes_share_block\<close>).
\<close>

subsection \<open>The lines\<close>

type_synonym wi = "uint16 \<times> uint \<times> string"

definition writei_line :: "wi \<Rightarrow> string" where
  "writei_line = (\<lambda>(k, off, d). ''writei '' @ fmt_d k @ '' '' @ fmt_d off @ '' '' @ d @ nl)"

definition wrote :: "wi \<Rightarrow> string" where
  "wrote = (\<lambda>(k, off, d). ''> Wrote '' @ fmt_d (of_nat (length d) :: uint) @ '' bytes'' @ nl)"

lemma ParseUintOk_fmt16 [simp]: "ParseUintOk (fmt_d (k :: uint16)) 16 = Some (unat k)"
proof -
  have "unat k < 2 ^ LENGTH(16)" by (rule unsigned_less)
  then show ?thesis by (simp add: ParseUintOk_def fmt_d_def ParseUint_dec)
qed

lemma cli_line_writei:
  assumes "one_word d" "inTxn st" "c_txn st = Some t"
  shows "cli_line dsk ienc idec sd (writei_line (k, off, d)) st =
    io_bind (Writei dsk ienc idec sd t k off d) (\<lambda>((res, err), t').
      io_return ((case err of Some e \<Rightarrow> ''Err: '' @ e @ nl | None \<Rightarrow> ''Wrote '' @ fmt_d res @ '' bytes'' @ nl),
        st\<lparr>c_txn := Some t'\<rparr>))"
  using assms
  by (simp add: cli_line_def writei_line_def nl_def no_newline words_of_line cmd_writei_def with_txn_def)

lemma cli_line_begin:
  assumes "\<not> inTxn st"
  shows "cli_line dsk ienc idec sd (''begin'' @ nl) st =
    io_bind (BeginTransaction dsk) (\<lambda>t. io_return (''started a new transaction'' @ nl, st\<lparr>c_txn := Some t, inTxn := True\<rparr>))"
  using assms by (simp add: cli_line_def nl_def cmd_begin_def)

text \<open>What is shown when a transaction begins and ends, and how it is closed: kept or dropped.\<close>

definition begun :: string where
  "begun = ''> started a new transaction'' @ nl"

definition ended :: string where
  "ended = ''> transaction ended'' @ nl"

lemma shown_begun: "''> '' @ (''started a new transaction'' @ nl) @ r = begun @ r" "''> '' @ ''transaction ended'' @ nl = ended"
  by (simp_all add: begun_def ended_def)

definition closing :: "bool \<Rightarrow> string" where
  "closing keep = (if keep then ''end'' else ''abort'') @ nl"

lemma cli_line_closing:
  assumes "inTxn st" "c_txn st = Some t"
  shows "cli_line dsk ienc idec sd (closing keep) st =
    io_bind (if keep then EndTransaction dsk t False else AbortTransaction dsk t) (\<lambda>_.
      io_return (''transaction ended'' @ nl, st\<lparr>c_txn := None, inTxn := False\<rparr>))"
  using assms by (simp add: cli_line_def closing_def nl_def cmd_end_def cmd_abort_def with_txn_def)

lemma wp_cli_loop_Cons:
  "wp (cli_loop dsk ienc idec sd (ri # ris) st) Q C s \<longleftrightarrow>
    wp (cli_line dsk ienc idec sd ri st) (\<lambda>p. wp (cli_loop dsk ienc idec sd ris (snd p))
      (\<lambda>q. Q (''> '' @ fst p @ fst q, snd q)) C) C s"
  by (simp add: wp_bind_eta wp_return_eta case_prod_unfold)

subsection \<open>A transaction of writes\<close>

text \<open>What the writes put into the log, each worked out from the disk \<open>D\<close>, and whether it has room.\<close>

definition logged_write :: "(Inode \<Rightarrow> string) \<Rightarrow> (string \<Rightarrow> Inode) \<Rightarrow> uint \<Rightarrow> (uint \<Rightarrow> string) \<Rightarrow> wi \<Rightarrow> wr list" where
  "logged_write ienc idec sd D = (\<lambda>(k, off, d). writei_writes ienc sd D (inode_of idec D k) (unat off) d)"

definition wi_ok :: "(Inode \<Rightarrow> string) \<Rightarrow> (string \<Rightarrow> Inode) \<Rightarrow> uint \<Rightarrow> (uint \<Rightarrow> string) \<Rightarrow> wi \<Rightarrow> bool" where
  "wi_ok ienc idec sd D = (\<lambda>(k, off, d). can_write ienc idec sd D k (unat off) d \<and> one_word d)"

fun wis_fit :: "(Inode \<Rightarrow> string) \<Rightarrow> (string \<Rightarrow> Inode) \<Rightarrow> uint \<Rightarrow> (uint \<Rightarrow> string) \<Rightarrow> nat \<Rightarrow> wi list \<Rightarrow> bool" where
  "wis_fit ienc idec sd D n [] = True"
| "wis_fit ienc idec sd D n (x # xs) \<longleftrightarrow>
     wi_ok ienc idec sd D x \<and> n \<le> 98 \<and> n + length (logged_write ienc idec sd D x) \<le> 100 \<and>
     wis_fit ienc idec sd D (n + length (logged_write ienc idec sd D x)) xs"

definition after_txn :: "bool \<Rightarrow> (Inode \<Rightarrow> string) \<Rightarrow> (string \<Rightarrow> Inode) \<Rightarrow> uint \<Rightarrow> wi list \<Rightarrow> (uint \<Rightarrow> string) \<Rightarrow> uint \<Rightarrow> string" where
  "after_txn keep ienc idec sd xs D =
     (if keep then apply_writes (concat (map (logged_write ienc idec sd D) xs)) D else D)"

context block_store
begin

lemma wp_line_writei:
  assumes s: "in_txn (a_single D) 0 ws s" "csafe D C" "\<forall>n. \<not> held s n" and ok: "fs_ok idec sd D"
    and fit: "wi_ok ienc idec sd D (k, off, d)" "length ws \<le> 98" "length (ws @ logged_write ienc idec sd D (k, off, d)) \<le> 100"
    and st: "inTxn st" "c_txn st = Some (handle 0 ws)"
    and Q: "\<And>s'. in_txn (a_single D) 0 (ws @ logged_write ienc idec sd D (k, off, d)) s' \<Longrightarrow> \<forall>n. \<not> held s' n \<Longrightarrow>
      Q (''Wrote '' @ fmt_d (of_nat (length d) :: uint) @ '' bytes'' @ nl,
        st\<lparr>c_txn := Some (handle 0 (ws @ logged_write ienc idec sd D (k, off, d)))\<rparr>) s'"
  shows "wp (cli_line dsk ienc idec sd (writei_line (k, off, d)) st) Q C s"
proof -
  let ?i = "inode_of idec D k"
  have cw: "can_write ienc idec sd D k (unat off) d" and word: "one_word d" using fit(1) by (simp_all add: wi_ok_def)
  note cw = cw [unfolded can_write_def]
  note F = fs_okD [OF ok]
  have lw: "logged_write ienc idec sd D (k, off, d) = writei_writes ienc sd D ?i (unat off) d" by (simp add: logged_write_def)
  show ?thesis
    unfolding cli_line_writei [OF word st]
  proof (rule txn_Writei [OF s(1), where i = ?i], unfold a_single_data)
    show "inode_on ienc idec D k ?i" by (rule inode_on_present) (use ok cw in auto)
    show "length (ws @ writei_writes ienc sd D ?i (unat off) d) \<le> 100" using fit(3) by (simp add: lw)
    show "off < nDirectBlocks * 4096" using cw by (simp add: nDirectBlocks_def word_less_nat_alt)
    show "off \<le> Filesize ?i" using cw by (simp add: word_le_nat_alt)
  qed (use s fit cw F Q in \<open>auto simp: lw\<close>)
qed

lemma wp_lines_writei:
  assumes "in_txn (a_single D) 0 ws s" "csafe D C" "\<forall>n. \<not> held s n" "fs_ok idec sd D"
    and "wis_fit ienc idec sd D (length ws) xs" "inTxn st" "c_txn st = Some (handle 0 ws)"
    and "\<And>s'. in_txn (a_single D) 0 (ws @ concat (map (logged_write ienc idec sd D) xs)) s' \<Longrightarrow> \<forall>n. \<not> held s' n \<Longrightarrow>
      wp (cli_loop dsk ienc idec sd ls (st\<lparr>c_txn := Some (handle 0 (ws @ concat (map (logged_write ienc idec sd D) xs)))\<rparr>))
        (\<lambda>q. Q (concat (map wrote xs) @ fst q, snd q)) C s'"
  shows "wp (cli_loop dsk ienc idec sd (map writei_line xs @ ls) st) Q C s"
  using assms
proof (induction xs arbitrary: ws s st Q)
  case Nil
  then have "st\<lparr>c_txn := Some (handle 0 ws)\<rparr> = st" by simp
  with Nil show ?case by simp
next
  case (Cons x xs)
  obtain k off d where x: "x = (k, off, d)" by (cases x)
  let ?w = "logged_write ienc idec sd D (k, off, d)"
  let ?p = "(''Wrote '' @ fmt_d (of_nat (length d) :: uint) @ '' bytes'' @ nl, st\<lparr>c_txn := Some (handle 0 (ws @ ?w))\<rparr>)"
  have f: "wi_ok ienc idec sd D (k, off, d)" "length ws \<le> 98" "length (ws @ ?w) \<le> 100"
    "wis_fit ienc idec sd D (length (ws @ ?w)) xs" using Cons.prems(5) by (simp_all add: x)
  have lines: "map writei_line (x # xs) @ ls = writei_line (k, off, d) # (map writei_line xs @ ls)" by (simp add: x)
  show ?case
    unfolding lines wp_cli_loop_Cons
  proof (rule wp_line_writei [OF Cons.prems(1-4) f(1-3) Cons.prems(6,7)])
    fix s1 assume s1: "in_txn (a_single D) 0 (ws @ ?w) s1" "\<forall>n. \<not> held s1 n"
    show "wp (cli_loop dsk ienc idec sd (map writei_line xs @ ls) (snd ?p)) (\<lambda>q. Q (''> '' @ fst ?p @ fst q, snd q)) C s1"
      by (rule Cons.IH [OF s1(1) Cons.prems(2) s1(2) Cons.prems(4) f(4)])
        (use Cons.prems(6,8) in \<open>simp_all add: x wrote_def\<close>)
  qed
qed

text \<open>From a quiet disk to a quiet disk.\<close>

lemma wp_txn_lines:
  assumes s: "fs_on D s" "csafe D C" "csafe (after_txn keep ienc idec sd xs D) C" and ok: "fs_ok idec sd D"
    and fit: "wis_fit ienc idec sd D 0 xs" "concat (map (logged_write ienc idec sd D) xs) \<noteq> []"
    and st: "\<not> inTxn st" "c_txn st = None"
    and Q: "\<And>s'. fs_on (after_txn keep ienc idec sd xs D) s' \<Longrightarrow>
      Q (begun @ concat (map wrote xs) @ ended, st) s'"
  shows "wp (cli_loop dsk ienc idec sd ((''begin'' @ nl) # map writei_line xs @ [closing keep]) st) Q C s"
proof -
  let ?ws = "concat (map (logged_write ienc idec sd D) xs)"
  have fin: "wp (cli_loop dsk ienc idec sd [closing keep] (st\<lparr>inTxn := True, c_txn := Some (handle 0 ?ws)\<rparr>))
      (\<lambda>q. Q (begun @ concat (map wrote xs) @ fst q, snd q)) C s2"
    if s2: "in_txn (a_single D) 0 ?ws s2" "\<forall>n. \<not> held s2 n" for s2
  proof -
    have "wp (if keep then EndTransaction dsk (handle 0 ?ws) False else AbortTransaction dsk (handle 0 ?ws))
        (\<lambda>_ s'. fs_on (after_txn keep ienc idec sd xs D) s') C s2"
      using txn_End [OF s2(1) fit(2) s(2)] txn_Abort [OF s2(1) s(2)] s(3) s2(2) by (auto simp: after_txn_def fs_on_def)
    moreover have "st\<lparr>c_txn := None, inTxn := False\<rparr> = st" using st by (cases st) simp
    ultimately have close: "wp (if keep then EndTransaction dsk (handle 0 ?ws) False else AbortTransaction dsk (handle 0 ?ws))
        (\<lambda>_. Q (begun @ concat (map wrote xs) @ ended, st\<lparr>c_txn := None, inTxn := False\<rparr>)) C s2"
      using Q by (auto elim!: wp_mono)
    show ?thesis
      using close
      by (cases keep) (simp_all del: append.simps add: wp_cli_loop_Cons cli_line_closing [where t = "handle 0 ?ws"] wp_bind_eta wp_return_eta shown_begun)
  qed
  show ?thesis
    unfolding wp_cli_loop_Cons cli_line_begin [OF st(1)]
  proof (rule txn_Begin [OF fs_onD(1) [OF s(1)] s(2)])
    fix s1 assume s1: "in_txn (a_single D) 0 [] s1" "held s1 = held s"
    have "wp (cli_loop dsk ienc idec sd (map writei_line xs @ [closing keep]) (st\<lparr>c_txn := Some (handle 0 []), inTxn := True\<rparr>))
        (\<lambda>q. Q (begun @ fst q, snd q)) C s1"
      by (rule wp_lines_writei [OF s1(1) s(2)]) (use s1(2) fs_onD(2) [OF s(1)] ok fit(1) fin in simp_all)
    then show "wp (io_return (''started a new transaction'' @ nl, st\<lparr>c_txn := Some (handle 0 []), inTxn := True\<rparr>))
        (\<lambda>p. wp (cli_loop dsk ienc idec sd (map writei_line xs @ [closing keep]) (snd p)) (\<lambda>q. Q (''> '' @ fst p @ fst q, snd q)) C) C s1"
      unfolding wp_return fst_conv snd_conv shown_begun .
  qed
qed

end

subsection \<open>Properties\<close>

lemma mock_txn_lines:
  assumes "quiet m" "fs_ok idec sd (mock_val m)" "wis_fit ienc idec sd (mock_val m) 0 xs" "xs \<noteq> []"
    and "\<not> inTxn st" "c_txn st = None"
  shows "\<exists>m'. cli_loop mock_disk ienc idec sd ((''begin'' @ nl) # map writei_line xs @ [closing keep]) st m
      = Some (Ret (begun @ concat (map wrote xs) @ ended, st), m') \<and>
    quiet m' \<and> same_data (mock_val m') (after_txn keep ienc idec sd xs (mock_val m))"
proof -
  obtain k off d ys where x: "xs = (k, off, d) # ys" using assms(4) by (cases xs) auto
  have "writei_writes ienc sd (mock_val m) (inode_of idec (mock_val m) k) (unat off) d \<noteq> []"
    by (rule writei_writes_nonempty) (use assms(2,3) x fs_okD in \<open>auto simp: wi_ok_def can_write_def\<close>)
  then have "concat (map (logged_write ienc idec sd (mock_val m)) xs) \<noteq> []" by (simp add: x logged_write_def)
  then have "wp (cli_loop mock_disk ienc idec sd ((''begin'' @ nl) # map writei_line xs @ [closing keep]) st)
      (\<lambda>r m'. r = (begun @ concat (map wrote xs) @ ended, st) \<and> quiet m' \<and>
        same_data (mock_val m') (after_txn keep ienc idec sd xs (mock_val m))) (\<lambda>_ _. False) m"
    by (intro mock.wp_txn_lines [OF fs_on_quiet [OF assms(1)] mock_csafe mock_csafe assms(2,3) _ assms(5,6)])
      (use quiet_fs_on in auto)
  then show ?thesis by (auto dest!: wp_RetD)
qed

text \<open>
  C25: a transaction typed in. With a file of the disk, \<open>begin\<close>, one \<open>writei\<close> that the disk has room for
  and \<open>end\<close> write exactly this data at this offset of this file, and with \<open>abort\<close> nothing; all other
  files keep their contents, the disk stays well-formed (no block shared, bitmap exact), no lock and
  no transaction is left, and the three lines are answered as they should be.
\<close>

theorem txn_line_commits:
  assumes "inode_codec ienc idec" and "quiet m" and "fs_ok idec sd (mock_val m)"
    and "can_write ienc idec sd (mock_val m) k (unat off) d" and "one_word d" and "\<not> inTxn st" and "c_txn st = None"
  shows "\<exists>m'. cli_loop mock_disk ienc idec sd [''begin'' @ nl, writei_line (k, off, d), closing keep] st m
      = Some (Ret (begun @ wrote (k, off, d) @ ended, st), m') \<and>
    quiet m' \<and> fs_ok idec sd (mock_val m') \<and>
    (\<forall>j. present (mock_val m') j = present (mock_val m) j) \<and>
    (\<forall>j. present (mock_val m) j \<longrightarrow> file_content idec (mock_val m') j =
       (if keep \<and> j = k then splice (unat off) d (file_content idec (mock_val m) j) else file_content idec (mock_val m) j))"
proof -
  let ?D = "mock_val m" and ?W = "after_txn keep ienc idec sd [(k, off, d)] (mock_val m)"
  note cw = assms(4) [unfolded can_write_def]
  have "length (logged_write ienc idec sd ?D (k, off, d)) \<le> 100"
    using length_writei_writes cw by (simp add: logged_write_def)
  then have "wis_fit ienc idec sd ?D 0 [(k, off, d)]" using assms(4,5) by (simp add: wi_ok_def)
  from mock_txn_lines [OF assms(2,3) this _ assms(6,7), of keep] obtain m' where
    run: "cli_loop mock_disk ienc idec sd [''begin'' @ nl, writei_line (k, off, d), closing keep] st m
      = Some (Ret (begun @ wrote (k, off, d) @ ended, st), m')" and m': "quiet m'" "same_data (mock_val m') ?W" by auto
  have "room ?D (inode_of idec ?D k) (unat off + length d)" "unat off \<le> unat (Filesize (inode_of idec ?D k))"
    "CHR ''/'' \<notin> set d" "present ?D k" using cw by simp_all
  note W = fs_ok_write [OF assms(3) this(4) assms(1) this(1-3)]
  have W': "fs_ok idec sd ?W" "\<And>j. present ?W j \<longleftrightarrow> present ?D j"
    "\<And>j. present ?D j \<Longrightarrow> file_content idec ?W j =
      (if keep \<and> j = k then splice (unat off) d (file_content idec ?D j) else file_content idec ?D j)"
    using W assms(3) by (auto simp: after_txn_def logged_write_def)
  note V = fs_ok_cong [OF W'(1) m'(2)]
  show ?thesis using run m'(1) V W'(2,3) by (intro exI [of _ m']) simp
qed

lemma empty_file_writes:
  assumes "pool_ok sd D" "Filesize i = 0" "Addrs i = []" "frees (bitmap_of D) = f # fs" "d \<noteq> []" "length d \<le> 4096"
  shows "writei_writes ienc sd D i 0 d =
    [(bitmapBlock, marked (bitmap_of D) {f}), (inode_block (Serialnum i), ienc (i\<lparr>Filesize := of_nat (length d), Addrs := [of_nat f + sd]\<rparr>)),
     (of_nat f + sd, d)]"
proof -
  have n: "nblocks (length d) = 1" using assms(5,6) by (cases d) (auto simp: nblocks_def)
  have add: "added sd D i (length d) = [f]" using assms(2,4) n by (simp add: added_def nblocks_def)
  have g: "grown sd D i (length d) = i\<lparr>Filesize := of_nat (length d), Addrs := [of_nat f + sd]\<rparr>"
    using assms(3) add by (simp add: grown_def)
  have "D (of_nat f + sd) = []" using assms(1,4) by (simp add: pool_ok_def)
  then have "block_writes D [of_nat f + sd] 0 d = [(of_nat f + sd, d)]" using assms(5,6) by (cases d) auto
  then show ?thesis
    using assms(2,5) n add g by (simp add: writei_writes_def writei_inode_def grow_writes_def nblocks_def)
qed

lemma wis_fit_two:
  assumes "pool_ok sd D" "frees (bitmap_of D) = f # fs"
    and "\<forall>(k, off, d) \<in> {x, y}. off = 0 \<and> can_write ienc idec sd D k 0 d \<and> one_word d \<and> length d \<le> 4096 \<and>
      Filesize (inode_of idec D k) = 0 \<and> Addrs (inode_of idec D k) = []"
  shows "wis_fit ienc idec sd D 0 [x, y]"
proof -
  have "wi_ok ienc idec sd D z \<and> length (logged_write ienc idec sd D z) = 3" if "z \<in> {x, y}" for z
    using assms(3) that empty_file_writes [OF assms(1) _ _ assms(2)]
    by (cases z) (auto simp: wi_ok_def logged_write_def can_write_def)
  then show ?thesis by simp
qed

lemma empty_file_addrs: "fs_ok idec sd D \<Longrightarrow> present D k \<Longrightarrow> Filesize (inode_of idec D k) = 0 \<Longrightarrow> Addrs (inode_of idec D k) = []"
  using fs_okD(4) [of idec sd D k] by (simp add: file_ok_def nblocks_def)

lemma shared_block:
  fixes D :: "uint \<Rightarrow> string" and d1 d2 :: string
  assumes codec: "inode_codec ienc idec" and ok: "fs_ok idec sd D" and f: "frees (bitmap_of D) = f # fs" and ne: "k1 \<noteq> k2"
    and k1: "present D k1" "Filesize (inode_of idec D k1) = 0" "d1 \<noteq> []" "length d1 \<le> 4096"
    and k2: "present D k2" "Filesize (inode_of idec D k2) = 0" "d2 \<noteq> []" "length d2 \<le> 4096"
  defines "W \<equiv> after_txn True ienc idec sd [(k1, 0, d1), (k2, 0, d2)] D"
  shows "file_content idec W k1 = d2" "file_content idec W k2 = d2" "Addrs (inode_of idec W k1) = [of_nat f + sd]"
    "Addrs (inode_of idec W k2) = [of_nat f + sd]" "present W k1" "present W k2" "data_blk (of_nat f + sd)"
proof -
  note P = fs_okD(1) [OF ok]
  let ?g = "\<lambda>k d. (inode_of idec D k)\<lparr>Filesize := of_nat (length d), Addrs := [of_nat f + sd]\<rparr>"
  have "f \<in> set (frees (bitmap_of D))" using f by simp
  then have fl: "f < length (bitmap_of D)" by (simp add: set_frees)
  note B = pool_block [OF P fl]
  have u: "unat k1 < 16384" "unat k2 < 16384" using k1(1) k2(1) by (simp_all add: present_def)
  note w = empty_file_writes [OF P _ empty_file_addrs [OF ok] f]
  have ser: "Serialnum (inode_of idec D k1) = k1" "Serialnum (inode_of idec D k2) = k2" using fs_okD(2) [OF ok] k1(1) k2(1) by simp_all
  have W: "W = D(bitmapBlock := marked (bitmap_of D) {f}, inode_block k1 := ienc (?g k1 d1), of_nat f + sd := d1,
      bitmapBlock := marked (bitmap_of D) {f}, inode_block k2 := ienc (?g k2 d2), of_nat f + sd := d2)"
    using w [OF k1(2) k1(1,2,3,4)] w [OF k2(2) k2(1,2,3,4)] by (simp add: W_def after_txn_def logged_write_def ser)
  have b: "W (of_nat f + sd) = d2" by (simp add: W)
  have i: "W (inode_block k1) = ienc (?g k1 d1)" "W (inode_block k2) = ienc (?g k2 d2)"
    using ne B(3) [OF u(1)] B(3) [OF u(2)] by (auto simp: W)
  have "inode_of idec W k1 = ?g k1 d1" "inode_of idec W k2 = ?g k2 d2" using codec by (simp_all add: inode_of_def i inode_codec_def)
  then show "Addrs (inode_of idec W k1) = [of_nat f + sd]" "Addrs (inode_of idec W k2) = [of_nat f + sd]" by simp_all
  then show "file_content idec W k1 = d2" "file_content idec W k2 = d2" by (simp_all add: file_content_def b)
  show "present W k1" "present W k2" using codec u by (simp_all add: present_def i inode_codec_def)
  show "data_blk (of_nat f + sd)" by (rule B(1))
qed

text \<open>
  C40: two writes in one transaction corrupt the disk. With two empty files, \<open>begin\<close>, a \<open>writei\<close> to each
  and \<open>end\<close> are all answered as successful; but both files are then made of the same block, the first
  one holds the data of the second, and the disk is no longer well-formed.
\<close>

theorem two_writes_share_block:
  assumes "inode_codec ienc idec" and "quiet m" and "fs_ok idec sd (mock_val m)" and "k1 \<noteq> k2"
    and "can_write ienc idec sd (mock_val m) k1 0 d1" and "can_write ienc idec sd (mock_val m) k2 0 d2"
    and "Filesize (inode_of idec (mock_val m) k1) = 0" and "Filesize (inode_of idec (mock_val m) k2) = 0"
    and "length d1 \<le> 4096" and "length d2 \<le> 4096" and "one_word d1" and "one_word d2" and "\<not> inTxn st" and "c_txn st = None"
  shows "\<exists>m'. cli_loop mock_disk ienc idec sd
        [''begin'' @ nl, writei_line (k1, 0, d1), writei_line (k2, 0, d2), ''end'' @ nl] st m
      = Some (Ret (begun @ wrote (k1, 0, d1) @ wrote (k2, 0, d2) @ ended, st), m') \<and>
    file_content idec (mock_val m') k1 = d2 \<and> file_content idec (mock_val m') k2 = d2 \<and> \<not> fs_ok idec sd (mock_val m')"
proof -
  let ?D = "mock_val m" and ?xs = "[(k1, 0, d1), (k2, 0, d2)]"
  note cw = assms(5,6) [unfolded can_write_def]
  have "nblocks (length d1) \<noteq> 0" using cw(1) by (cases d1) (auto simp: nblocks_def)
  then have "frees (bitmap_of ?D) \<noteq> []" using cw(1) assms(7) by (auto simp: room_def nblocks_def)
  then obtain f fs where f: "frees (bitmap_of ?D) = f # fs" by (cases "frees (bitmap_of ?D)") auto
  have fit: "wis_fit ienc idec sd ?D 0 ?xs"
    by (rule wis_fit_two [OF fs_okD(1) [OF assms(3)] f]) (use assms cw empty_file_addrs [OF assms(3)] in auto)
  note S = shared_block [OF assms(1,3) f assms(4), of d1 d2]
  from mock_txn_lines [OF assms(2,3) fit _ assms(13,14), of True] obtain m' where
    run: "cli_loop mock_disk ienc idec sd ((''begin'' @ nl) # map writei_line ?xs @ [closing True]) st m
      = Some (Ret (begun @ concat (map wrote ?xs) @ ended, st), m')"
    and same: "same_data (mock_val m') (after_txn True ienc idec sd ?xs ?D)" by auto
  have pres: "present ?D k1" "present ?D k2" "d1 \<noteq> []" "d2 \<noteq> []" using cw by simp_all
  note S = S [OF pres(1) assms(7) pres(3) assms(9) pres(2) assms(8) pres(4) assms(10)]
  have i: "present (mock_val m') k = present (after_txn True ienc idec sd ?xs ?D) k"
    "inode_of idec (mock_val m') k = inode_of idec (after_txn True ienc idec sd ?xs ?D) k" for k
    using same by (simp_all add: present_def inode_of_def same_data_def)
  have "\<not> fs_ok idec sd (mock_val m')"
    using S(3-6) assms(4) unfolding fs_ok_def i by fastforce
  moreover have "file_content idec (mock_val m') k1 = d2" "file_content idec (mock_val m') k2 = d2"
    using S(1-4,7) same by (simp_all add: file_content_def i same_data_def)
  ultimately show ?thesis using run by (intro exI [of _ m']) (simp add: closing_def)
qed

subsection \<open>An example\<close>

text \<open>The root directory and one more file, both empty.\<close>

definition two_files :: MockDisk where
  "two_files = \<lparr>kv = (kv example_disk)(fmt_d (inode_block 1) \<mapsto> example_enc (new_inode 1 File))\<rparr>"

lemma two_files_val: "mock_val two_files = created example_enc (mock_val example_disk) 1 File"
  by (auto simp: two_files_def mock_val_def created_def mget_def fun_eq_iff)

lemma two_files_quiet: "quiet two_files"
proof -
  have "sbNr \<noteq> inode_block 1" using unat_inode_block [of 1] by (auto simp: sbNr_def)
  then have "sb_on (mock_val two_files) = sb_on (mock_val example_disk)"
    unfolding two_files_val by (intro sb_on_cong) (simp add: created_def)
  with example_quiet show ?thesis by (simp add: quiet_def mock_held_def two_files_def mget_def)
qed

lemma two_files_ok:
  "fs_ok example_dec EndInode (mock_val two_files)" "present (mock_val two_files) 0" "present (mock_val two_files) 1"
  "inode_of example_dec (mock_val two_files) 0 = new_inode 0 Dir" "inode_of example_dec (mock_val two_files) 1 = new_inode 1 File"
proof -
  note R = fs_repD [OF example_rep]
  have p: "present (mock_val example_disk) 0" using R(2) by (simp add: dir_ok_def)
  have i0: "inode_of example_dec (mock_val example_disk) 0 = new_inode 0 Dir"
    using example_codec(1) by (simp add: inode_of_def example_val created_def inode_codec_def)
  have "first_inode (mock_val example_disk) 1" using example_create by (simp add: can_create_def)
  note E = fs_ok_created [OF R(1) example_codec(1) this, where mode = File, folded two_files_val]
  show "fs_ok example_dec EndInode (mock_val two_files)" by (rule E(1))
  show "present (mock_val two_files) 0" "present (mock_val two_files) 1" using E(2) p by simp_all
  show "inode_of example_dec (mock_val two_files) 0 = new_inode 0 Dir" using E(4) [OF p] i0 by simp
  show "inode_of example_dec (mock_val two_files) 1 = new_inode 1 File" using E(5) by simp
qed

lemma two_files_write:
  assumes "k = 0 \<or> k = 1" "d \<noteq> []" "length d \<le> 4096" "CHR ''/'' \<notin> set d"
  shows "can_write example_enc example_dec EndInode (mock_val two_files) k 0 d" "Filesize (inode_of example_dec (mock_val two_files) k) = 0"
proof -
  have "frees (bitmap_of (mock_val two_files)) = [0..<4096]"
    unfolding two_files_val bitmap_of_created example_bitmap by (rule frees_replicate)
  then have "nblocks (length d) \<le> length (frees (bitmap_of (mock_val two_files)))" using assms(3) by (simp add: nblocks_def)
  then show "can_write example_enc example_dec EndInode (mock_val two_files) k 0 d" "Filesize (inode_of example_dec (mock_val two_files) k) = 0"
    using assms two_files_ok example_codec(2) by (auto simp: can_write_def room_def)
qed

theorem txn_line_commits_witness:
  "\<exists>m'. cli_loop mock_disk example_enc example_dec EndInode [''begin'' @ nl, writei_line (1, 0, ''hi''), closing True] fresh_cli two_files
      = Some (Ret (begun @ wrote (1, 0, ''hi'') @ ended, fresh_cli), m') \<and> file_content example_dec (mock_val m') 1 = ''hi''"
proof -
  have "can_write example_enc example_dec EndInode (mock_val two_files) 1 (unat 0) ''hi''" using two_files_write(1) by simp
  moreover have "one_word ''hi''" "\<not> inTxn fresh_cli" "c_txn fresh_cli = None" by (simp_all add: one_word_def fresh_cli_def)
  moreover have "file_content example_dec (mock_val two_files) 1 = []" by (simp add: file_content_def two_files_ok)
  ultimately show ?thesis
    using txn_line_commits [OF example_codec(1) two_files_quiet two_files_ok(1), of 1 0 "''hi''" fresh_cli True] two_files_ok(3)
    by (fastforce simp: splice_def)
qed

theorem two_writes_share_block_witness:
  "\<exists>m'. cli_loop mock_disk example_enc example_dec EndInode
        [''begin'' @ nl, writei_line (0, 0, ''one''), writei_line (1, 0, ''two''), ''end'' @ nl] fresh_cli two_files
      = Some (Ret (begun @ wrote (0, 0, ''one'') @ wrote (1, 0, ''two'') @ ended, fresh_cli), m') \<and>
    file_content example_dec (mock_val m') 0 = ''two'' \<and> \<not> fs_ok example_dec EndInode (mock_val m')"
proof -
  have w: "one_word ''one''" "one_word ''two''" "\<not> inTxn fresh_cli" "c_txn fresh_cli = None" by (simp_all add: one_word_def fresh_cli_def)
  have c1: "can_write example_enc example_dec EndInode (mock_val two_files) 0 0 ''one''"
    "Filesize (inode_of example_dec (mock_val two_files) 0) = 0" using two_files_write [of 0 "''one''"] by simp_all
  have c2: "can_write example_enc example_dec EndInode (mock_val two_files) 1 0 ''two''"
    "Filesize (inode_of example_dec (mock_val two_files) 1) = 0" using two_files_write [of 1 "''two''"] by simp_all
  have l: "(0 :: uint16) \<noteq> 1" "length ''one'' \<le> 4096" "length ''two'' \<le> 4096" by simp_all
  from two_writes_share_block [OF example_codec(1) two_files_quiet two_files_ok(1) l(1) c1(1) c2(1) c1(2) c2(2) l(2,3) w]
  show ?thesis by blast
qed

end
