(* ===== verification/Labgob.thy ===== *)
theory Labgob
  imports GoStd
begin

section \<open>Warnings about encodings: src/labgob\<close>

text \<open>
  The wrapper around \<open>encoding/gob\<close> walks over the type of every value it is given, once per type,
  and complains about fields that gob leaves out because their names are in lower case; before
  decoding it complains about targets that are not empty. The types of the program are a list, a
  type is an index into it (types refer to each other, and to themselves); gob itself and
  \<open>unicode.IsUpper\<close> are arguments. The recursion of \<open>checkType\<close> is a list of what is still to be done, in
  the order in which the calls do it.
\<close>

subsection \<open>labgob.go\<close>

datatype rtype =
  RStruct "(string \<times> nat) list"
| RSlice nat
| RArray nat
| RPtr nat
| RMap nat nat
| ROther

record labgob =
  errorCount :: int
  checked :: "nat set"
  complaints :: "string list"

datatype act = Check nat | FieldName string

definition Kind :: "rtype list \<Rightarrow> nat \<Rightarrow> rtype" where
  "Kind types t = (if t < length types then types ! t else ROther)"

definition parts :: "rtype list \<Rightarrow> nat \<Rightarrow> act list" where
  "parts types t =
     (case Kind types t of
        RStruct fs \<Rightarrow> concat (map (\<lambda>(n, u). [FieldName n, Check u]) fs)
      | RSlice u \<Rightarrow> [Check u]
      | RArray u \<Rightarrow> [Check u]
      | RPtr u \<Rightarrow> [Check u]
      | RMap k u \<Rightarrow> [Check u, Check k]
      | ROther \<Rightarrow> [])"

definition lower_case :: "(nat \<Rightarrow> bool) \<Rightarrow> string \<Rightarrow> bool" where
  "lower_case isUpper n \<longleftrightarrow> \<not> isUpper (fst (decode_rune (map of_char n)))"

lemma parts_other: "\<not> t < length types \<Longrightarrow> parts types t = []"
  by (simp add: parts_def Kind_def)

lemma unchecked_less:
  "t \<notin> C \<Longrightarrow> t < n \<Longrightarrow> card ({..<n} - insert t C) < card ({..<n} - C)" for t n :: nat
proof -
  assume "t \<notin> C" "t < n"
  then have "t \<in> {..<n} - C" by simp
  moreover have "{..<n} - insert t C = ({..<n} - C) - {t}" by blast
  ultimately show ?thesis by (metis card_Diff1_less finite_Diff finite_lessThan)
qed

function check_acts :: "rtype list \<Rightarrow> (nat \<Rightarrow> bool) \<Rightarrow> act list \<Rightarrow> labgob \<Rightarrow> labgob" where
  "check_acts types up [] st = st"
| "check_acts types up (FieldName n # acts) st =
     check_acts types up acts
       (if lower_case up n then st\<lparr>errorCount := errorCount st + 1, complaints := complaints st @ [n]\<rparr> else st)"
| "check_acts types up (Check t # acts) st =
     (if t \<in> checked st then check_acts types up acts st
      else check_acts types up (parts types t @ acts) (st\<lparr>checked := insert t (checked st)\<rparr>))"
  by pat_completeness auto

termination
proof (relation "measures [\<lambda>(types, up, acts, st). card ({..<length types} - checked st), \<lambda>(types, up, acts, st). length acts]", goal_cases)
  case (4 types up t acts st)
  then show ?case
    using unchecked_less [of t "checked st" "length types"]
    by (cases "t < length types") (auto simp: parts_other Diff_insert0 insert_absorb)
qed auto

definition checkType :: "rtype list \<Rightarrow> (nat \<Rightarrow> bool) \<Rightarrow> nat \<Rightarrow> labgob \<Rightarrow> labgob" where
  "checkType types up t st = check_acts types up [Check t] st"

text \<open>
  The value a decoder writes to, as far as \<open>checkDefault1\<close> looks at it: a basic value is given by the
  name of its type and whether it is zero.
\<close>

datatype gval = VStruct "(string \<times> gval) list" | VPtr "gval option" | VBasic string bool | VOther

fun checkDefault1 :: "gval \<Rightarrow> nat \<Rightarrow> string \<Rightarrow> labgob \<Rightarrow> labgob"
  and checkFields :: "(string \<times> gval) list \<Rightarrow> nat \<Rightarrow> string \<Rightarrow> labgob \<Rightarrow> labgob"
where
  "checkDefault1 (VStruct fs) depth name st = (if 3 < depth then st else checkFields fs depth name st)"
| "checkDefault1 (VPtr None) depth name st = st"
| "checkDefault1 (VPtr (Some v)) depth name st = (if 3 < depth then st else checkDefault1 v (depth + 1) name st)"
| "checkDefault1 (VBasic tn zero) depth name st =
     (if 3 < depth \<or> zero then st
      else
        st\<lparr>complaints := complaints st @ (if errorCount st < 1 then [if name = [] then tn else name] else []),
           errorCount := errorCount st + 1\<rparr>)"
| "checkDefault1 VOther depth name st = st"
| "checkFields [] depth name st = st"
| "checkFields ((n, v) # fs) depth name st =
     checkFields fs depth name (checkDefault1 v (depth + 1) (if name \<noteq> [] then name @ ''.'' @ n else n) st)"

definition checkDefault :: "gval option \<Rightarrow> labgob \<Rightarrow> labgob" where
  "checkDefault v st = (case v of None \<Rightarrow> st | Some x \<Rightarrow> checkDefault1 x 1 [] st)"

definition LabEncoder_Encode :: "rtype list \<Rightarrow> (nat \<Rightarrow> bool) \<Rightarrow> ('v \<Rightarrow> 'r) \<Rightarrow> nat \<Rightarrow> 'v \<Rightarrow> labgob \<Rightarrow> 'r \<times> labgob" where
  "LabEncoder_Encode types up gob t e st = (gob e, checkType types up t st)"

definition LabDecoder_Decode ::
  "rtype list \<Rightarrow> (nat \<Rightarrow> bool) \<Rightarrow> (gval option \<Rightarrow> 'r) \<Rightarrow> nat \<Rightarrow> gval option \<Rightarrow> labgob \<Rightarrow> 'r \<times> labgob"
where
  "LabDecoder_Decode types up gob t e st = (gob e, checkDefault e (checkType types up t st))"

text \<open>
  The other entries: \<open>EncodeValue\<close> has the type of the value from reflection, \<open>Register\<close> and
  \<open>RegisterName\<close> hand the type to gob, whose table of types is \<open>reg\<close>.
\<close>

definition LabEncoder_EncodeValue :: "rtype list \<Rightarrow> (nat \<Rightarrow> bool) \<Rightarrow> ('v \<Rightarrow> 'r) \<Rightarrow> nat \<times> 'v \<Rightarrow> labgob \<Rightarrow> 'r \<times> labgob" where
  "LabEncoder_EncodeValue types up gob value st = (gob (snd value), checkType types up (fst value) st)"

definition Register :: "rtype list \<Rightarrow> (nat \<Rightarrow> bool) \<Rightarrow> (nat \<Rightarrow> 'g \<Rightarrow> 'g) \<Rightarrow> nat \<Rightarrow> 'g \<times> labgob \<Rightarrow> 'g \<times> labgob" where
  "Register types up reg t p = (reg t (fst p), checkType types up t (snd p))"

definition RegisterName ::
  "rtype list \<Rightarrow> (nat \<Rightarrow> bool) \<Rightarrow> (string \<Rightarrow> nat \<Rightarrow> 'g \<Rightarrow> 'g) \<Rightarrow> string \<Rightarrow> nat \<Rightarrow> 'g \<times> labgob \<Rightarrow> 'g \<times> labgob"
where
  "RegisterName types up reg name t p = (reg name t (fst p), checkType types up t (snd p))"

subsection \<open>Every reachable type once\<close>

definition uses :: "rtype list \<Rightarrow> nat rel" where
  "uses types = {(t, u). Check u \<in> set (parts types t)}"

definition roots :: "act list \<Rightarrow> nat set" where
  "roots acts = {t. Check t \<in> set acts}"

definition lower_names :: "(nat \<Rightarrow> bool) \<Rightarrow> act list \<Rightarrow> nat" where
  "lower_names up acts = length (filter (\<lambda>a. case a of FieldName n \<Rightarrow> lower_case up n | Check _ \<Rightarrow> False) acts)"

definition bad_fields :: "rtype list \<Rightarrow> (nat \<Rightarrow> bool) \<Rightarrow> nat \<Rightarrow> nat" where
  "bad_fields types up t = lower_names up (parts types t)"

lemma roots_simps [simp]:
  "roots [] = {}" "roots (FieldName n # acts) = roots acts" "roots (Check t # acts) = insert t (roots acts)"
  "roots (xs @ ys) = roots xs \<union> roots ys" "roots (parts types t) = uses types `` {t}"
  by (auto simp: roots_def uses_def)

lemma lower_names_simps [simp]:
  "lower_names up [] = 0" "lower_names up (Check t # acts) = lower_names up acts"
  "lower_names up (FieldName n # acts) = (if lower_case up n then 1 else 0) + lower_names up acts"
  "lower_names up (xs @ ys) = lower_names up xs + lower_names up ys"
  by (simp_all add: lower_names_def)

text \<open>Where the parts of a checked type may still be: among the checked types or to be done.\<close>

definition covered :: "rtype list \<Rightarrow> nat set \<Rightarrow> nat set \<Rightarrow> bool" where
  "covered types C R \<longleftrightarrow> uses types `` C \<subseteq> C \<union> R"

lemma check_acts_checked:
  assumes "covered types (checked st) (roots acts)" "finite (checked st)"
  shows "covered types (checked (check_acts types up acts st)) {} \<and>
    checked st \<union> roots acts \<subseteq> checked (check_acts types up acts st) \<and>
    checked (check_acts types up acts st) \<subseteq> checked st \<union> (uses types)\<^sup>* `` roots acts \<and>
    finite (checked (check_acts types up acts st)) \<and>
    errorCount (check_acts types up acts st) = errorCount st + int (lower_names up acts) +
      int (\<Sum>t \<in> checked (check_acts types up acts st) - checked st. bad_fields types up t)"
  using assms
proof (induction types up acts st rule: check_acts.induct)
  case (1 types up st)
  then show ?case by simp
next
  case (2 types up n acts st)
  then show ?case by (auto split: if_splits)
next
  case (3 types up t acts st)
  show ?case
  proof (cases "t \<in> checked st")
    case True
    then have "covered types (checked st) (roots acts)" using 3(3) by (auto simp: covered_def)
    with 3(1) [OF True] 3(4) True show ?thesis by auto
  next
    case False
    let ?st = "st\<lparr>checked := insert t (checked st)\<rparr>"
    let ?C = "checked (check_acts types up (parts types t @ acts) ?st)"
    have "covered types (checked ?st) (roots (parts types t @ acts))" using 3(3) by (auto simp: covered_def)
    note IH = 3(2) [OF False this] 3(4)
    then have C: "covered types ?C {}" "insert t (checked st) \<union> roots (parts types t @ acts) \<subseteq> ?C"
      "?C \<subseteq> insert t (checked st) \<union> (uses types)\<^sup>* `` roots (parts types t @ acts)" "finite ?C"
      and e: "errorCount (check_acts types up (parts types t @ acts) ?st) = errorCount st + int (lower_names up (parts types t @ acts)) +
        int (\<Sum>t \<in> ?C - insert t (checked st). bad_fields types up t)" by auto
    have "(uses types)\<^sup>* `` roots (parts types t @ acts) \<subseteq> (uses types)\<^sup>* `` roots (Check t # acts)"
      by (auto intro: converse_rtrancl_into_rtrancl)
    moreover have "t \<in> (uses types)\<^sup>* `` roots (Check t # acts)" by auto
    ultimately have up: "?C \<subseteq> checked st \<union> (uses types)\<^sup>* `` roots (Check t # acts)" using C(3) by blast
    have "t \<in> ?C" using C(2) by simp
    then have new: "?C - checked st = insert t (?C - insert t (checked st))" using False by blast
    have "sum (bad_fields types up) (insert t (?C - insert t (checked st))) =
        bad_fields types up t + sum (bad_fields types up) (?C - insert t (checked st))"
      by (rule sum.insert) (use C(4) in auto)
    then have "sum (bad_fields types up) (?C - checked st) =
        bad_fields types up t + sum (bad_fields types up) (?C - insert t (checked st))" by (simp only: new)
    moreover have "checked st \<union> roots (Check t # acts) \<subseteq> ?C" using C(2) by simp
    ultimately show ?thesis using False C(1,4) up e by (simp add: bad_fields_def)
  qed
qed

text \<open>
  C27: \<open>checkType\<close> ends on recursive types too, visits every type that the given one is made of and
  that was not visited before, complains exactly once about every lower-case field of those, and
  says nothing at the next call.
\<close>

theorem checkType_visits_once:
  assumes "finite (checked st)" and "uses types `` checked st \<subseteq> checked st"
  shows "checked (checkType types up t st) = checked st \<union> (uses types)\<^sup>* `` {t} \<and>
    errorCount (checkType types up t st) = errorCount st +
      int (\<Sum>u \<in> (uses types)\<^sup>* `` {t} - checked st. bad_fields types up u) \<and>
    checkType types up t (checkType types up t st) = checkType types up t st"
proof -
  let ?C = "checked (checkType types up t st)"
  have "covered types (checked st) (roots [Check t])" using assms(2) by (auto simp: covered_def)
  note C = check_acts_checked [OF this assms(1), of up, folded checkType_def]
  have "u \<in> ?C" if "(t, u) \<in> (uses types)\<^sup>*" for u
    using that by (induction rule: rtrancl_induct) (use C in \<open>auto simp: covered_def\<close>)
  then have eq: "?C = checked st \<union> (uses types)\<^sup>* `` {t}" using C by auto
  moreover have "?C - checked st = (uses types)\<^sup>* `` {t} - checked st" using eq by auto
  moreover have "t \<in> ?C" using eq by auto
  then have "checkType types up t (checkType types up t st) = checkType types up t st"
    by (simp add: checkType_def [of types up t "checkType types up t st"])
  ultimately show ?thesis using C by simp
qed

text \<open>A list type that refers to itself and has a field in lower case.\<close>

theorem checkType_visits_once_witness:
  "errorCount (checkType [RPtr 1, RStruct [(''Val'', 2), (''next'', 0)], ROther] (\<lambda>c. 65 \<le> c \<and> c \<le> 90) 0
     \<lparr>errorCount = 0, checked = {}, complaints = []\<rparr>) = 1 \<and>
   checked (checkType [RPtr 1, RStruct [(''Val'', 2), (''next'', 0)], ROther] (\<lambda>c. 65 \<le> c \<and> c \<le> 90) 0
     \<lparr>errorCount = 0, checked = {}, complaints = []\<rparr>) =
   (uses [RPtr 1, RStruct [(''Val'', 2), (''next'', 0)], ROther])\<^sup>* `` {0}"
proof -
  let ?types = "[RPtr 1, RStruct [(''Val'', 2), (''next'', 0)], ROther]"
  let ?st = "\<lparr>errorCount = 0, checked = {}, complaints = []\<rparr>"
  have "errorCount (checkType ?types (\<lambda>c. 65 \<le> c \<and> c \<le> 90) 0 ?st) = 1"
    by (simp add: checkType_def parts_def Kind_def lower_case_def decode_rune_def)
  with checkType_visits_once [of ?st ?types "\<lambda>c. 65 \<le> c \<and> c \<le> 90" 0] show ?thesis by simp
qed

end
