(* ===== verification/Inode_Codec.thy ===== *)
theory Inode_Codec
  imports Labgob Fs_Run
begin

section \<open>Inodes as text: src/inode/encode.go\<close>

text \<open>
  \<open>Encode\<close> and \<open>IDecode\<close> are calls of labgob on a pointer to an inode. \<open>encoding/gob\<close> is the pair of
  arguments \<open>gob\<close> and \<open>ungob\<close>: the text of an inode, and the target after a text was decoded into it
  (the error is dropped by the source). With gob's round trip these two are the codec that the file
  system relies on, and labgob has nothing to complain about.
\<close>

subsection \<open>encode.go\<close>

text \<open>The types that reflection finds: a pointer, the structure, numbers and the slice of addresses.\<close>

definition inode_types :: "rtype list" where
  "inode_types =
     [RPtr 1,
      RStruct [(''Serialnum'', 2), (''Refcnt'', 2), (''Filesize'', 2), (''Addrs'', 3), (''Mode'', 2)],
      ROther, RSlice 2]"

definition zero_inode :: Inode where
  "zero_inode = \<lparr>Serialnum = 0, Refcnt = 0, Filesize = 0, Addrs = [], Mode = Dir\<rparr>"

definition inode_value :: "Inode \<Rightarrow> gval" where
  "inode_value i =
     VPtr (Some (VStruct
       [(''Serialnum'', VBasic ''uint16'' (Serialnum i = 0)), (''Refcnt'', VBasic ''uint16'' (Refcnt i = 0)),
        (''Filesize'', VBasic ''uint'' (Filesize i = 0)), (''Addrs'', VOther),
        (''Mode'', VBasic ''IType'' (Mode i = Dir))]))"

definition Encode :: "(nat \<Rightarrow> bool) \<Rightarrow> (Inode \<Rightarrow> string) \<Rightarrow> Inode \<Rightarrow> labgob \<Rightarrow> string \<times> labgob" where
  "Encode up gob i = LabEncoder_Encode inode_types up gob 0 i"

definition IDecode :: "(nat \<Rightarrow> bool) \<Rightarrow> (string \<Rightarrow> Inode \<Rightarrow> Inode) \<Rightarrow> string \<Rightarrow> labgob \<Rightarrow> Inode \<times> labgob" where
  "IDecode up ungob blkData =
     LabDecoder_Decode inode_types up (\<lambda>_. ungob blkData zero_inode) 0 (Some (inode_value zero_inode))"

subsection \<open>The codec of the file system\<close>

text \<open>What the code relies on of gob: an inode comes back into an empty target.\<close>

definition gob_restores :: "(Inode \<Rightarrow> string) \<Rightarrow> (string \<Rightarrow> Inode \<Rightarrow> Inode) \<Rightarrow> bool" where
  "gob_restores gob ungob \<longleftrightarrow> (\<forall>i. ungob (gob i) zero_inode = i \<and> gob i \<noteq> [])"

lemma inode_codec_gob:
  assumes "gob_restores gob ungob"
  shows "inode_codec (\<lambda>i. fst (Encode up gob i st)) (\<lambda>s. fst (IDecode up ungob s st'))"
  using assms by (simp add: inode_codec_def gob_restores_def Encode_def IDecode_def LabEncoder_Encode_def LabDecoder_Decode_def)

text \<open>The names of the fields begin with capital letters of ASCII, the target is empty.\<close>

definition ascii_upper :: "(nat \<Rightarrow> bool) \<Rightarrow> bool" where
  "ascii_upper up \<longleftrightarrow> (\<forall>c \<in> {65..90}. up c)"

lemma inode_fields_upper:
  assumes "ascii_upper up" shows "bad_fields inode_types up t = 0"
proof -
  have "up 83" "up 82" "up 70" "up 65" "up 77" using assms by (simp_all add: ascii_upper_def)
  then show ?thesis
    by (cases "t < 4") (auto simp: bad_fields_def parts_def Kind_def inode_types_def lower_case_def decode_rune_def less_Suc_eq numeral_eq_Suc)
qed

lemma checkType_inode_silent:
  assumes "ascii_upper up" "finite (checked st)" "uses inode_types `` checked st \<subseteq> checked st"
  shows "errorCount (checkType inode_types up t st) = errorCount st"
proof -
  have "covered inode_types (checked st) (roots [Check t])" using assms(3) by (auto simp: covered_def)
  from check_acts_checked [OF this assms(2), of up, folded checkType_def] show ?thesis
    by (simp add: inode_fields_upper [OF assms(1)])
qed



end
