(* ===== verification/Publish.thy ===== *)
theory Publish
  imports KvServer
begin

section \<open>Publishing to the waiting requests: src/kvraft, bcast.go and Request\<close>

text \<open>
  The goroutine that applies commands publishes each of them to every request that waits
  (\<open>pub\<close>), over unbuffered channels, and waits until each of them has answered on the channel of
  acknowledgements. The requests subscribe, receive, end their subscription and acknowledge, all
  interleaved. A goroutine is where it stands in its code; a send and its receive are one step, a
  critical section of the mutex is one step except that of \<open>pub\<close>, which holds it while it sends.
\<close>

subsection \<open>Where the goroutines stand\<close>

text \<open>What a request does after its acknowledgement.\<close>

datatype goes_on = Finish | Again | Stay int int

text \<open>
  \<open>Request\<close>: at the label \<open>rerequest\<close>; with an index, before \<open>sub\<close>; at the head of the loop with its
  subscription and index; at the receive; with a message; before \<open>unsub\<close>; before the
  acknowledgement; returned.
\<close>

datatype handler =
  Requesting
| Subscribing int
| Looping int int
| Receiving int int
| Holding int int "RequestArgs ApplyMsg"
| Unsubbing int goes_on
| Acking goes_on
| Ended

text \<open>\<open>pub\<close>: not running; sending to the subscriptions that are left; waiting for acknowledgements.\<close>

datatype publisher = Idle | Sending "RequestArgs ApplyMsg" "int list" | Acks nat

record hub =
  subs :: "nat bcast"
  closed :: "nat set"
  mu :: bool
  pb :: publisher
  hs :: "nat \<Rightarrow> handler"
  dead :: bool
  panicked :: bool

text \<open>The channel of request \<open>h\<close> is \<open>h\<close>.\<close>

abbreviation go :: "nat \<Rightarrow> handler \<Rightarrow> hub \<Rightarrow> hub" where
  "go h x s \<equiv> s\<lparr>hs := (hs s)(h := x)\<rparr>"

definition new_hub :: hub where
  "new_hub = \<lparr>subs = mkBcast, closed = {}, mu = False, pb = Idle, hs = (\<lambda>_. Requesting), dead = False, panicked = False\<rparr>"

fun after_ack :: "goes_on \<Rightarrow> handler" where
  "after_ack Finish = Ended"
| "after_ack Again = Requesting"
| "after_ack (Stay i idx) = Looping i idx"

fun after_msg :: "int \<Rightarrow> int \<Rightarrow> req_step \<Rightarrow> handler" where
  "after_msg i idx (Reply r) = Unsubbing i Finish"
| "after_msg i idx Rerequest = Unsubbing i Again"
| "after_msg i idx Wait = Acking (Stay i idx)"

text \<open>What a receive on a closed channel gives.\<close>

definition zero_msg :: "RequestArgs ApplyMsg" where
  "zero_msg = \<lparr>CommandValid = False, Command = None, CommandIndex = 0, SnapshotValid = False,
     Snapshot_data = [], SnapshotTerm = 0, SnapshotIndex = 0\<rparr>"

subsection \<open>Steps\<close>

text \<open>
  The steps that begin something: \<open>Start\<close> gives an index or refuses, \<open>sub\<close>, the begin of \<open>pub\<close>, which
  visits the subscriptions in any order, and \<open>Kill\<close>. A published message carries a command
  (\<open>manageApply\<close>).
\<close>

inductive begins :: "hub \<Rightarrow> hub \<Rightarrow> bool" where
  start: "hs s h = Requesting \<Longrightarrow> begins s (go h (Subscribing idx) s)"
| refused: "hs s h = Requesting \<Longrightarrow> begins s (go h Ended s)"
| subscribe: "hs s h = Subscribing idx \<Longrightarrow> \<not> mu s \<Longrightarrow> sub rnd h (subs s) = Some (i, b) \<Longrightarrow>
    begins s (go h (Looping i idx) (s\<lparr>subs := b\<rparr>))"
| publish: "pb s = Idle \<Longrightarrow> \<not> mu s \<Longrightarrow> Command v \<noteq> None \<Longrightarrow> distinct ids \<Longrightarrow> set ids = dom (net (subs s)) \<Longrightarrow>
    begins s (s\<lparr>pb := Sending v ids, mu := True\<rparr>)"
| kill: "begins s (s\<lparr>dead := True\<rparr>)"

text \<open>
  The steps that bring a publication to its end; \<open>args h\<close> is the command of request \<open>h\<close>. Whether the
  server leads and what its tables are when a request looks at a message is open.
\<close>

inductive work :: "(nat \<Rightarrow> RequestArgs) \<Rightarrow> hub \<Rightarrow> hub \<Rightarrow> bool" for args where
  enter: "hs s h = Looping i idx \<Longrightarrow> \<not> dead s \<Longrightarrow> work args s (go h (Receiving i idx) s)"
| leave: "hs s h = Looping i idx \<Longrightarrow> dead s \<Longrightarrow> work args s (go h Ended s)"
| send: "pb s = Sending v (i # ids) \<Longrightarrow> \<not> dead s \<Longrightarrow> net (subs s) i = Some h \<Longrightarrow> h \<notin> closed s \<Longrightarrow> hs s h = Receiving j idx \<Longrightarrow>
    work args s (go h (Holding j idx v) (s\<lparr>pb := Sending v ids\<rparr>))"
| send_closed: "pb s = Sending v (i # ids) \<Longrightarrow> \<not> dead s \<Longrightarrow> net (subs s) i = Some h \<Longrightarrow> h \<in> closed s \<Longrightarrow> \<not> panicked s \<Longrightarrow>
    work args s (s\<lparr>panicked := True\<rparr>)"
| receive_closed: "hs s h = Receiving i idx \<Longrightarrow> h \<in> closed s \<Longrightarrow> work args s (go h (Holding i idx zero_msg) s)"
| stop: "pb s = Sending v (i # ids) \<Longrightarrow> dead s \<Longrightarrow> work args s (s\<lparr>pb := Sending v []\<rparr>)"
| sent: "pb s = Sending v [] \<Longrightarrow> work args s (s\<lparr>pb := Acks (card (dom (net (subs s)))), mu := False\<rparr>)"
| judge: "hs s h = Holding i idx v \<Longrightarrow> request_msg (args h) idx v ldr srv = Ret r \<Longrightarrow> work args s (go h (after_msg i idx r) s)"
| judge_panics: "hs s h = Holding i idx v \<Longrightarrow> request_msg (args h) idx v ldr srv = Fatal e \<Longrightarrow> \<not> panicked s \<Longrightarrow>
    work args s (s\<lparr>panicked := True\<rparr>)"
| unsubscribe: "hs s h = Unsubbing i x \<Longrightarrow> \<not> mu s \<Longrightarrow> unsub i (closed s, subs s) = Ret (cl, b) \<Longrightarrow>
    work args s (go h (Acking x) (s\<lparr>closed := cl, subs := b\<rparr>))"
| unsubscribe_panics: "hs s h = Unsubbing i x \<Longrightarrow> \<not> mu s \<Longrightarrow> unsub i (closed s, subs s) = Fatal e \<Longrightarrow> \<not> panicked s \<Longrightarrow>
    work args s (s\<lparr>panicked := True\<rparr>)"
| ack: "hs s h = Acking x \<Longrightarrow> pb s = Acks (Suc n) \<Longrightarrow> work args s (go h (after_ack x) (s\<lparr>pb := Acks n\<rparr>))"
| acked: "pb s = Acks 0 \<Longrightarrow> work args s (s\<lparr>pb := Idle\<rparr>)"

text \<open>A run in which no request goes back to the label with the channel that it has closed.\<close>

definition asks_again :: "hub \<Rightarrow> bool" where
  "asks_again s \<longleftrightarrow> (\<exists>h \<in> closed s. hs s h = Requesting)"

inductive run :: "(nat \<Rightarrow> RequestArgs) \<Rightarrow> hub \<Rightarrow> bool" for args where
  new: "run args new_hub"
| begins: "run args s \<Longrightarrow> begins s s' \<Longrightarrow> run args s'"
| work: "run args s \<Longrightarrow> work args s s' \<Longrightarrow> run args s'"

inductive calm_run :: "(nat \<Rightarrow> RequestArgs) \<Rightarrow> hub \<Rightarrow> bool" for args where
  calm_new: "calm_run args new_hub"
| calm_begins: "calm_run args s \<Longrightarrow> \<not> asks_again s \<Longrightarrow> begins s s' \<Longrightarrow> calm_run args s'"
| calm_work: "calm_run args s \<Longrightarrow> work args s s' \<Longrightarrow> calm_run args s'"

subsection \<open>The invariant\<close>

fun sub_of :: "handler \<Rightarrow> int option" where
  "sub_of (Looping i idx) = Some i"
| "sub_of (Receiving i idx) = Some i"
| "sub_of (Holding i idx v) = Some i"
| "sub_of (Unsubbing i x) = Some i"
| "sub_of (Acking (Stay i idx)) = Some i"
| "sub_of _ = None"

text \<open>A request that has the message and has not acknowledged it.\<close>

fun busy :: "handler \<Rightarrow> bool" where
  "busy (Holding i idx v) = True"
| "busy (Unsubbing i x) = True"
| "busy (Acking x) = True"
| "busy _ = False"

fun well_placed :: "handler \<Rightarrow> bool" where
  "well_placed (Holding i idx v) \<longleftrightarrow> Command v \<noteq> None"
| "well_placed (Unsubbing i x) \<longleftrightarrow> x = Finish \<or> x = Again"
| "well_placed _ \<longleftrightarrow> True"

fun after_close :: "handler \<Rightarrow> bool" where
  "after_close (Acking x) \<longleftrightarrow> x = Finish \<or> x = Again"
| "after_close Requesting = True"
| "after_close Ended = True"
| "after_close _ = False"

fun pub_ok :: "publisher \<Rightarrow> hub \<Rightarrow> bool" where
  "pub_ok Idle s \<longleftrightarrow> \<not> mu s \<and> (\<forall>h. \<not> busy (hs s h))"
| "pub_ok (Sending v ids) s \<longleftrightarrow>
     mu s \<and> Command v \<noteq> None \<and> distinct ids \<and> set ids \<subseteq> dom (net (subs s)) \<and>
     (\<forall>h. busy (hs s h) \<longleftrightarrow> (\<exists>i. net (subs s) i = Some h \<and> i \<notin> set ids))"
| "pub_ok (Acks n) s \<longleftrightarrow> \<not> mu s \<and> finite {h. busy (hs s h)} \<and> n = card {h. busy (hs s h)}"

definition hub_inv :: "hub \<Rightarrow> bool" where
  "hub_inv s \<longleftrightarrow>
     \<not> panicked s \<and> finite (dom (net (subs s))) \<and>
     (\<forall>i h. net (subs s) i = Some h \<longleftrightarrow> sub_of (hs s h) = Some i) \<and>
     (\<forall>h. well_placed (hs s h)) \<and> (\<forall>h \<in> closed s. after_close (hs s h)) \<and> pub_ok (pb s) s"

lemma hub_invD:
  assumes "hub_inv s"
  shows "\<not> panicked s" "finite (dom (net (subs s)))" "net (subs s) i = Some h \<longleftrightarrow> sub_of (hs s h) = Some i"
    and "well_placed (hs s h)" "h \<in> closed s \<Longrightarrow> after_close (hs s h)" "pub_ok (pb s) s"
  using assms unfolding hub_inv_def by blast+

lemma new_hub_inv: "hub_inv new_hub"
  by (simp add: hub_inv_def new_hub_def mkBcast_def)

lemma after_close_no_sub: "after_close x \<Longrightarrow> sub_of x = None \<and> (\<forall>i idx. x \<noteq> Subscribing i)"
  by (cases x rule: after_close.cases) auto

lemma fresh_id_new: "fresh_id rnd m k = Some i \<Longrightarrow> m i = None"
  by (rule fresh_id.raw_induct [of "\<lambda>_ m _ i. m i = None" rnd m k i]) (auto split: if_splits)

lemma hub_inv_go:
  assumes "hub_inv s" "sub_of x = sub_of (hs s h)" "busy x = busy (hs s h)" "well_placed x" "h \<in> closed s \<Longrightarrow> after_close x"
  shows "hub_inv (go h x s)"
proof -
  have eq: "busy (hs (go h x s) k) = busy (hs s k)" "mu (go h x s) = mu s" "subs (go h x s) = subs s" for k
    using assms(3) by simp_all
  have "pub_ok (pb s) (go h x s) = pub_ok (pb s) s"
    by (cases "pb s") (simp_all only: pub_ok.simps eq)
  with assms show ?thesis by (auto simp: hub_inv_def)
qed

lemma hub_inv_subscribe:
  assumes "hub_inv s" "hs s h = Subscribing idx" "\<not> mu s" "sub rnd h (subs s) = Some (i, b)"
  shows "hub_inv (go h (Looping i idx) (s\<lparr>subs := b\<rparr>))"
proof -
  note I = hub_invD [OF assms(1)]
  have b: "net b = (net (subs s))(i \<mapsto> h)" using assms(4) by (auto simp: sub_def split: option.splits)
  have new: "net (subs s) i = None"
    using assms(4) fresh_id_new by (auto simp: sub_def split: option.splits)
  have "h \<notin> closed s" using I(5) after_close_no_sub assms(2) by fastforce
  moreover have "pub_ok (pb s) (go h (Looping i idx) (s\<lparr>subs := b\<rparr>))"
  proof -
    have eq: "busy (((hs s)(h := Looping i idx)) k) = busy (hs s k)" for k using assms(2) by simp
    show ?thesis using I(6) assms(3) by (cases "pb s") (simp_all del: fun_upd_apply add: eq)
  qed
  moreover have "((net (subs s))(i \<mapsto> h)) j = Some k \<longleftrightarrow> sub_of (((hs s)(h := Looping i idx)) k) = Some j" for j k
    using I(3) new assms(2) by (metis (mono_tags) fun_upd_apply option.distinct(1) option.inject sub_of.simps(1) sub_of.simps(7))
  ultimately show ?thesis using I(1,2,4,5) by (auto simp: hub_inv_def b)
qed

lemma hub_inv_publish:
  assumes "hub_inv s" "pb s = Idle" "Command v \<noteq> None" "distinct ids" "set ids = dom (net (subs s))"
  shows "hub_inv (s\<lparr>pb := Sending v ids, mu := True\<rparr>)"
  using assms by (auto simp: hub_inv_def)

lemma hub_inv_send:
  assumes "hub_inv s" "pb s = Sending v (i # ids)" "net (subs s) i = Some h" "hs s h = Receiving j idx"
  shows "hub_inv (go h (Holding j idx v) (s\<lparr>pb := Sending v ids\<rparr>))"
proof -
  note I = hub_invD [OF assms(1)]
  note P = I(6) [unfolded assms(2)]
  have j: "j = i" using I(3) [of i h] assms(3,4) by simp
  have "h \<notin> closed s" using I(5) after_close_no_sub assms(4) by fastforce
  moreover have "busy (((hs s)(h := Holding j idx v)) k) \<longleftrightarrow> (\<exists>l. net (subs s) l = Some k \<and> l \<notin> set ids)" for k
  proof (cases "k = h")
    case True
    then show ?thesis using P assms(3) by auto
  next
    case False
    then have "(\<exists>l. net (subs s) l = Some k \<and> l \<notin> set ids) \<longleftrightarrow> (\<exists>l. net (subs s) l = Some k \<and> l \<notin> set (i # ids))"
      using assms(3) by auto
    then show ?thesis using False P by simp
  qed
  moreover have "sub_of (((hs s)(h := Holding j idx v)) k) = sub_of (hs s k)" for k using assms(4) by simp
  ultimately show ?thesis using I(1-5) P by (simp add: hub_inv_def) blast
qed

lemma hub_inv_sent:
  assumes "hub_inv s" "pb s = Sending v []"
  shows "hub_inv (s\<lparr>pb := Acks (card (dom (net (subs s)))), mu := False\<rparr>)"
proof -
  note I = hub_invD [OF assms(1)]
  note P = I(6) [unfolded assms(2)]
  have "{h. busy (hs s h)} = (\<lambda>i. the (net (subs s) i)) ` dom (net (subs s))"
    using P by (force simp: image_iff)
  moreover have "inj_on (\<lambda>i. the (net (subs s) i)) (dom (net (subs s)))"
    by (rule inj_onI) (use I(3) in force)
  ultimately show ?thesis using assms(1) I(2) by (simp add: hub_inv_def card_image)
qed

lemma hub_inv_unsub:
  assumes "hub_inv s" "hs s h = Unsubbing i x" "\<not> mu s" "unsub i (closed s, subs s) = Ret (cl, b)"
  shows "hub_inv (go h (Acking x) (s\<lparr>closed := cl, subs := b\<rparr>))"
proof -
  note I = hub_invD [OF assms(1)]
  have n: "net (subs s) i = Some h" using I(3) assms(2) by simp
  then have cl: "cl = insert h (closed s)" and b: "net b = (net (subs s))(i := None)"
    using assms(4) by (auto simp: unsub_def split: if_splits)
  have x: "x = Finish \<or> x = Again" using I(4) [of h] assms(2) by simp
  have eq: "busy (((hs s)(h := Acking x)) k) = busy (hs s k)" for k using assms(2) by simp
  have "pub_ok (pb s) (go h (Acking x) (s\<lparr>closed := cl, subs := b\<rparr>))"
    using I(6) assms(3) by (cases "pb s") (simp_all del: fun_upd_apply add: eq)
  moreover have "((net (subs s))(i := None)) j = Some k \<longleftrightarrow> sub_of (((hs s)(h := Acking x)) k) = Some j" for j k
    using I(3) [of j k] I(3) [of i k] n x assms(2) I(3) [of j h] by auto
  ultimately show ?thesis using I(1,2,4,5) x by (auto simp: hub_inv_def b cl)
qed

lemma hub_inv_ack:
  assumes "hub_inv s" "hs s h = Acking x" "pb s = Acks (Suc n)"
  shows "hub_inv (go h (after_ack x) (s\<lparr>pb := Acks n\<rparr>))"
proof -
  note I = hub_invD [OF assms(1)]
  note P = I(6) [unfolded assms(3)]
  have x: "\<not> busy (after_ack x)" "sub_of (after_ack x) = sub_of (hs s h)" "well_placed (after_ack x)"
    using assms(2) by (cases x; simp)+
  have "{k. busy (((hs s)(h := after_ack x)) k)} = {k. busy (hs s k)} - {h}" using x(1) by auto
  moreover have "busy (hs s h)" using assms(2) by simp
  moreover have "card {k. busy (hs s k)} = Suc n" using P by simp
  ultimately have "pub_ok (Acks n) (go h (after_ack x) (s\<lparr>pb := Acks n\<rparr>))" using P by (simp del: fun_upd_apply)
  moreover have "h \<in> closed s \<longrightarrow> after_close (after_ack x)" using I(5) [of h] assms(2) by (cases x) auto
  ultimately show ?thesis using I(1-5) x(2,3) by (auto simp: hub_inv_def)
qed

lemma request_msg_returns: "Command v \<noteq> None \<Longrightarrow> request_msg args idx v ldr srv \<noteq> Fatal e"
  by (auto simp: request_msg_def Let_def split: option.splits)

lemma hub_inv_begins:
  assumes "begins s s'" "hub_inv s" "\<not> asks_again s" "\<not> dead s'"
  shows "hub_inv s'"
  using assms
proof cases
  case (start h idx)
  then show ?thesis using assms(2,3) by (auto intro!: hub_inv_go simp: asks_again_def)
next
  case (refused h)
  then show ?thesis using assms(2) by (auto intro!: hub_inv_go)
next
  case (subscribe h idx rnd i b)
  then show ?thesis using hub_inv_subscribe [OF assms(2)] by simp
next
  case (publish v ids)
  then show ?thesis using hub_inv_publish [OF assms(2)] by simp
next
  case kill
  then show ?thesis using assms(4) by simp
qed

lemma hub_inv_work:
  assumes "work args s s'" "hub_inv s" "\<not> dead s'"
  shows "hub_inv s'"
  using assms(1)
proof cases
  case (enter h i idx)
  then show ?thesis using assms(2) hub_invD(5) [OF assms(2), of h] by (auto intro!: hub_inv_go)
next
  case (leave h i idx)
  then show ?thesis using assms(3) by simp
next
  case (send v i ids h j idx)
  then show ?thesis using hub_inv_send [OF assms(2)] by simp
next
  case (send_closed v i ids h)
  then show ?thesis using hub_invD(3,5) [OF assms(2)] after_close_no_sub by fastforce
next
  case (receive_closed h i idx)
  then show ?thesis using hub_invD(5) [OF assms(2)] by fastforce
next
  case (stop v i ids)
  then show ?thesis using assms(3) by simp
next
  case (sent v)
  then show ?thesis using hub_inv_sent [OF assms(2)] by simp
next
  case (judge h i idx v ldr srv r)
  then show ?thesis using assms(2) hub_invD(5) [OF assms(2), of h] by (cases r) (auto intro!: hub_inv_go)
next
  case (judge_panics h i idx v ldr srv e)
  then show ?thesis using hub_invD(4) [OF assms(2), of h] request_msg_returns by simp
next
  case (unsubscribe h i x cl b)
  then show ?thesis using hub_inv_unsub [OF assms(2)] by simp
next
  case (unsubscribe_panics h i x e)
  then have "net (subs s) i = Some h" "h \<notin> closed s"
    using hub_invD(3,5) [OF assms(2)] by fastforce+
  with unsubscribe_panics show ?thesis by (simp add: unsub_def)
next
  case (ack h x n)
  then show ?thesis using hub_inv_ack [OF assms(2)] by simp
next
  case acked
  then show ?thesis using assms(2) by (auto simp: hub_inv_def)
qed

lemma dead_stays: "begins s s' \<Longrightarrow> dead s \<Longrightarrow> dead s'" "work args s s' \<Longrightarrow> dead s' = dead s"
  by (auto elim!: begins.cases work.cases)

lemma calm_run_inv: "calm_run args s \<Longrightarrow> \<not> dead s \<Longrightarrow> hub_inv s"
  by (induction rule: calm_run.induct) (use new_hub_inv dead_stays hub_inv_begins hub_inv_work in blast)+

subsection \<open>A publication comes to its end\<close>

fun weight :: "handler \<Rightarrow> nat" where
  "weight (Looping i idx) = 1"
| "weight (Acking x) = 2"
| "weight (Unsubbing i x) = 3"
| "weight (Holding i idx v) = 4"
| "weight _ = 0"

fun pub_weight :: "publisher \<Rightarrow> nat" where
  "pub_weight Idle = 0"
| "pub_weight (Acks n) = 1"
| "pub_weight (Sending v ids) = 2 + 5 * length ids"

definition support_sum :: "(nat \<Rightarrow> nat) \<Rightarrow> nat" where
  "support_sum f = (\<Sum>k | f k \<noteq> 0. f k)"

lemma support_sum_upd:
  assumes "finite {k. f k \<noteq> 0}"
  shows "support_sum (f(h := x)) + f h = support_sum f + x"
proof -
  let ?A = "insert h {k. f k \<noteq> 0}"
  have eq: "support_sum g = sum g ?A" if "{k. g k \<noteq> 0} \<subseteq> ?A" for g
    unfolding support_sum_def using that assms by (intro sum.mono_neutral_left) auto
  have "support_sum (f(h := x)) = sum (f(h := x)) ?A" "support_sum f = sum f ?A" by (rule eq; auto)+
  moreover have "sum (f(h := x)) (?A - {h}) = sum f (?A - {h})" by (rule sum.cong) auto
  moreover have "sum g ?A = g h + sum g (?A - {h})" for g :: "nat \<Rightarrow> nat" using assms by (intro sum.remove) auto
  ultimately show ?thesis by (simp del: fun_upd_apply) simp
qed

definition work_left :: "hub \<Rightarrow> nat" where
  "work_left s = pub_weight (pb s) + support_sum (\<lambda>k. weight (hs s k))"

lemma finite_weights:
  assumes "hub_inv s" shows "finite {k. weight (hs s k) \<noteq> 0}"
proof -
  note I = hub_invD [OF assms]
  have "busy x \<or> sub_of x \<noteq> None" if "weight x \<noteq> 0" for x using that by (cases x) auto
  then have "{k. weight (hs s k) \<noteq> 0} \<subseteq> {k. busy (hs s k)} \<union> ran (net (subs s))"
    using I(3) by (fastforce simp: ran_def)
  moreover have ran: "finite (ran (net (subs s)))" using I(2) by (rule finite_ran)
  moreover have "{k. busy (hs s k)} \<subseteq> ran (net (subs s)) \<or> finite {k. busy (hs s k)}"
    using I(6) by (cases "pb s") (auto simp: ran_def)
  ultimately show ?thesis by (meson finite_UnI finite_subset)
qed

lemma work_left_go:
  assumes "hub_inv s" "pub_weight (pb s') + weight x < pub_weight (pb s) + weight (hs s h)"
    and "hs s' = (hs s)(h := x)"
  shows "work_left s' < work_left s"
proof -
  have "(\<lambda>k. weight (((hs s)(h := x)) k)) = (\<lambda>k. weight (hs s k))(h := weight x)" by auto
  then show ?thesis
    using support_sum_upd [OF finite_weights [OF assms(1)], of h "weight x"] assms(2,3) by (simp add: work_left_def)
qed

lemma weight_after: "weight (after_msg i idx r) < 4" "weight (after_ack x) < 2"
  by (cases r; simp) (cases x; simp)

lemma work_left_less:
  assumes "work args s s'" "hub_inv s" "\<not> dead s"
  shows "work_left s' < work_left s"
proof -
  note go = work_left_go [OF assms(2), of s'] and I = hub_invD [OF assms(2)]
  show ?thesis
    using assms(1)
  proof cases
    case (enter h i idx)
    then show ?thesis by (intro go [of "Receiving i idx" h]) simp_all
  next
    case (send v i ids h j idx)
    then show ?thesis by (intro go [of "Holding j idx v" h]) simp_all
  next
    case (send_closed v i ids h)
    then show ?thesis using I(3,5) after_close_no_sub by fastforce
  next
    case (receive_closed h i idx)
    then show ?thesis using I(5) by fastforce
  next
    case (judge h i idx v ldr srv r)
    then show ?thesis using weight_after(1) by (intro go [of "after_msg i idx r" h]) simp_all
  next
    case (judge_panics h i idx v ldr srv e)
    then show ?thesis using I(4) [of h] request_msg_returns by simp
  next
    case (unsubscribe h i x cl b)
    then show ?thesis by (intro go [of "Acking x" h]) simp_all
  next
    case (unsubscribe_panics h i x e)
    then have "net (subs s) i = Some h" "h \<notin> closed s" using I(3,5) by fastforce+
    with unsubscribe_panics show ?thesis by (simp add: unsub_def)
  next
    case (ack h x n)
    then show ?thesis using weight_after(2) [of x] by (intro go [of "after_ack x" h]) simp_all
  qed (use assms(3) in \<open>simp_all add: work_left_def\<close>)
qed

lemma work_enabled:
  assumes "hub_inv s" "\<not> dead s" "pb s \<noteq> Idle"
  shows "\<exists>t. work args s t"
proof (cases "pb s")
  case (Sending v ids)
  note I = hub_invD [OF assms(1)]
  note P = I(6) [unfolded Sending]
  show ?thesis
  proof (cases ids)
    case Nil
    then show ?thesis using work.sent Sending by blast
  next
    case (Cons i ids')
    then obtain h where h: "net (subs s) i = Some h" using P by auto
    have sub: "sub_of (hs s h) = Some i" using I(3) h by simp
    have "\<not> busy (hs s h)" using P Cons sub I(3) [of _ h] by auto
    moreover have "h \<notin> closed s" using I(5) after_close_no_sub sub by fastforce
    ultimately show ?thesis
      using sub Sending Cons assms(2) h work.enter [of s h] work.send [of s v i ids' h] by (cases "hs s h") auto
  qed
next
  case (Acks n)
  note I = hub_invD [OF assms(1)]
  note P = I(6) [unfolded Acks]
  show ?thesis
  proof (cases n)
    case 0
    then show ?thesis using work.acked Acks by blast
  next
    case (Suc k)
    then obtain h where h: "busy (hs s h)" using P by fastforce
    show ?thesis
    proof (cases "hs s h")
      case (Holding i idx v)
      moreover have "Command v \<noteq> None" using I(4) [of h] Holding by simp
      then obtain r where "request_msg (args h) idx v False undefined = Ret r"
        using request_msg_returns by (metis outcome.exhaust)
      ultimately show ?thesis using work.judge by blast
    next
      case (Unsubbing i x)
      then have "net (subs s) i = Some h" "h \<notin> closed s" using I(3,5) by fastforce+
      then show ?thesis using work.unsubscribe [OF Unsubbing] P by (auto simp: unsub_def)
    next
      case (Acking x)
      then show ?thesis using work.ack Acks Suc by blast
    qed (use h in auto)
  qed
qed (use assms(3) in simp)

lemma work_steps_inv:
  assumes "(work args ^^ n) s t" "hub_inv s" "\<not> dead s"
  shows "hub_inv t \<and> \<not> dead t \<and> n + work_left t \<le> work_left s"
  using assms(1)
proof (induction n arbitrary: t)
  case 0
  then show ?case using assms(2,3) by simp
next
  case (Suc n)
  then obtain u where u: "(work args ^^ n) s u" "work args u t" by auto
  from Suc.IH [OF u(1)] have U: "hub_inv u" "\<not> dead u" "n + work_left u \<le> work_left s" by auto
  moreover have "\<not> dead t" using dead_stays(2) [OF u(2)] U(2) by simp
  ultimately show ?case using hub_inv_work [OF u(2) U(1)] work_left_less [OF u(2) U(1,2)] by simp
qed

text \<open>
  C13: publishing is free of deadlock, and \<open>pub\<close> returns exactly when everybody is ready. Whatever
  requests arrive and however the goroutines are interleaved, as long as no request goes back to the
  label \<open>rerequest\<close> and the server is not killed: nothing panics; when no publication is under way no
  request is still busy with a message; and the steps of the goroutines that are there end after at
  most \<open>work_left\<close> of them, in a state where \<open>pub\<close> has returned, never in one where it waits.
\<close>

theorem publish_completes:
  assumes "calm_run args s" and "\<not> dead s"
  shows "\<not> panicked s \<and> (pb s = Idle \<longrightarrow> (\<forall>h. \<not> busy (hs s h))) \<and>
    (\<forall>n t. (work args ^^ n) s t \<longrightarrow>
      n \<le> work_left s \<and> \<not> panicked t \<and> ((\<nexists>u. work args t u) \<longrightarrow> pb t = Idle))"
proof -
  have inv: "hub_inv s" by (rule calm_run_inv [OF assms])
  have "n \<le> work_left s \<and> \<not> panicked t \<and> ((\<nexists>u. work args t u) \<longrightarrow> pb t = Idle)" if "(work args ^^ n) s t" for n t
    using work_steps_inv [OF that inv assms(2)] work_enabled [of t args] hub_invD(1) [of t] by auto
  moreover have "pb s = Idle \<longrightarrow> (\<forall>h. \<not> busy (hs s h))" using hub_invD(6) [OF inv] by auto
  ultimately show ?thesis using hub_invD(1) [OF inv] by blast
qed

text \<open>A request waits for index 1 and the command with that index is published.\<close>

definition one_waiting :: hub where
  "one_waiting = go 0 (Looping 0 1) (new_hub\<lparr>subs := \<lparr>net = [0 \<mapsto> 0], nsub = 1\<rparr>\<rparr>)"

definition one_sending :: "RequestArgs ApplyMsg \<Rightarrow> hub" where
  "one_sending v = one_waiting\<lparr>pb := Sending v [0], mu := True\<rparr>"

lemma calm_waiting: "calm_run args one_waiting"
proof -
  let ?s = "go 0 (Subscribing 1) new_hub"
  have "begins new_hub ?s" by (rule begins.start) (simp add: new_hub_def)
  then have "calm_run args ?s" by (intro calm_run.calm_begins [OF calm_run.calm_new]) (simp add: asks_again_def new_hub_def)
  moreover have "sub (\<lambda>_. 0) 0 mkBcast = Some (0, \<lparr>net = [0 \<mapsto> 0], nsub = 1\<rparr>)"
    by (simp add: sub_def mkBcast_def fresh_id.simps)
  then have "begins ?s one_waiting"
    using begins.subscribe [of ?s 0 1 "\<lambda>_. 0" 0] by (simp add: one_waiting_def new_hub_def)
  ultimately show ?thesis by (auto intro: calm_run.calm_begins simp: asks_again_def new_hub_def)
qed

lemma calm_sending:
  assumes "Command v \<noteq> None" shows "calm_run args (one_sending v)"
proof -
  have "begins one_waiting (one_sending v)"
    unfolding one_sending_def by (rule begins.publish) (use assms in \<open>auto simp: one_waiting_def new_hub_def\<close>)
  then show ?thesis by (rule calm_run.calm_begins [OF calm_waiting, rotated]) (simp add: asks_again_def one_waiting_def new_hub_def)
qed

definition some_get :: RequestArgs where
  "some_get = \<lparr>ClientId = 1, Seq = 2, Code = GetOp, Key = ''k'', Value = []\<rparr>"

theorem publish_completes_witness:
  "\<not> panicked (one_sending (zero_msg\<lparr>Command := Some some_get\<rparr>)) \<and>
    {n. \<exists>t. (work (\<lambda>_. some_get) ^^ n) (one_sending (zero_msg\<lparr>Command := Some some_get\<rparr>)) t} \<subseteq> {..8}"
proof -
  let ?s = "one_sending (zero_msg\<lparr>Command := Some some_get\<rparr>)"
  have "weight (hs ?s k) = (if k = 0 then 1 else 0)" for k by (simp add: one_sending_def one_waiting_def new_hub_def)
  then have "{k. weight (hs ?s k) \<noteq> 0} = {0}" "weight (hs ?s 0) = 1" by auto
  then have "work_left ?s = 8" by (simp add: work_left_def support_sum_def) (simp add: one_sending_def)
  moreover have "\<not> dead ?s" by (simp add: one_sending_def one_waiting_def new_hub_def)
  ultimately show ?thesis using publish_completes [OF calm_sending, of "zero_msg\<lparr>Command := Some some_get\<rparr>" "\<lambda>_. some_get"] by auto
qed

subsection \<open>A request that asks again\<close>

definition hub_step :: "(nat \<Rightarrow> RequestArgs) \<Rightarrow> hub \<Rightarrow> hub \<Rightarrow> bool" where
  "hub_step args s t \<longleftrightarrow> begins s t \<or> work args s t"

lemma run_steps: "(hub_step args)\<^sup>*\<^sup>* s t \<Longrightarrow> run args s \<Longrightarrow> run args t"
  by (induction rule: rtranclp_induct) (auto simp: hub_step_def intro: run.intros)

lemma run_shape: "run args s \<Longrightarrow> finite (dom (net (subs s))) \<and> (mu s \<longleftrightarrow> (\<exists>v ids. pb s = Sending v ids))"
proof (induction rule: run.induct)
  case new
  then show ?case by (simp add: new_hub_def mkBcast_def)
next
  case (begins s s')
  from begins(2,1,3) show ?case by cases (auto simp: sub_def split: option.splits)
next
  case (work s s')
  from work(2,1,3) show ?case by cases (auto simp: unsub_def split: option.splits if_splits)
qed

text \<open>
  C39: a request whose index went to another command subscribes again with the channel that it has
  closed. From every state in which a request has gone back to the label \<open>rerequest\<close> this way, the
  server can panic: the next publication sends on the closed channel.
\<close>

theorem rerequest_panics:
  assumes "run args s" and "asks_again s" and "pb s = Idle" and "\<not> dead s" and "\<not> panicked s"
  shows "\<exists>t. (hub_step args)\<^sup>*\<^sup>* s t \<and> run args t \<and> panicked t"
proof -
  obtain h where h: "h \<in> closed s" "hs s h = Requesting" using assms(2) by (auto simp: asks_again_def)
  have fin: "finite (dom (net (subs s)))" and mu: "\<not> mu s" using run_shape [OF assms(1)] assms(3) by auto
  obtain i where i: "i \<notin> dom (net (subs s))" using ex_new_if_finite [OF infinite_UNIV_int fin] by blast
  define b where "b = (subs s)\<lparr>net := (net (subs s))(i \<mapsto> h), nsub := nsub (subs s) + 1\<rparr>"
  have "fresh_id (\<lambda>_. i) (net (subs s)) 0 = Some i" using i by (subst fresh_id.simps) auto
  then have sub: "sub (\<lambda>_. i) h (subs s) = Some (i, b)" by (simp add: sub_def b_def)
  obtain ids where ids: "distinct ids" "set ids = dom (net (subs s))" using finite_distinct_list [OF fin] by blast
  define s1 where "s1 = go h (Subscribing 0) s"
  define s2 where "s2 = go h (Looping i 0) (s1\<lparr>subs := b\<rparr>)"
  define s3 where "s3 = s2\<lparr>pb := Sending (zero_msg\<lparr>Command := Some (args h)\<rparr>) (i # ids), mu := True\<rparr>"
  have st1: "begins s s1" unfolding s1_def by (rule begins.start) (rule h(2))
  have st2: "begins s1 s2"
    unfolding s2_def by (rule begins.subscribe [where rnd = "\<lambda>_. i"]) (use mu sub in \<open>simp_all add: s1_def\<close>)
  have st3: "begins s2 s3"
  proof -
    have "pb s2 = Idle" "\<not> mu s2" "dom (net (subs s2)) = insert i (dom (net (subs s)))"
      using mu assms(3) by (simp_all add: s1_def s2_def b_def)
    then show ?thesis unfolding s3_def using ids i by (intro begins.publish) simp_all
  qed
  have "pb s3 = Sending (zero_msg\<lparr>Command := Some (args h)\<rparr>) (i # ids)" "\<not> dead s3" "net (subs s3) i = Some h"
    "h \<in> closed s3" "\<not> panicked s3"
    using assms(4,5) h(1) by (simp_all add: s1_def s2_def s3_def b_def)
  note st4 = work.send_closed [OF this]
  have "hub_step args s s1" "hub_step args s1 s2" "hub_step args s2 s3" "hub_step args s3 (s3\<lparr>panicked := True\<rparr>)"
    using st1 st2 st3 st4 by (simp_all add: hub_step_def)
  then have "(hub_step args)\<^sup>*\<^sup>* s (s3\<lparr>panicked := True\<rparr>)" by (meson converse_rtranclp_into_rtranclp r_into_rtranclp)
  with run_steps [OF this assms(1)] show ?thesis by (intro exI [of _ "s3\<lparr>panicked := True\<rparr>"]) simp
qed

text \<open>The command with index 1 is another one than the request's.\<close>

definition other_cmd :: "RequestArgs ApplyMsg" where
  "other_cmd = zero_msg\<lparr>Command := Some (some_get\<lparr>Seq := 3\<rparr>), CommandIndex := 1\<rparr>"

definition asked_again :: hub where
  "asked_again = new_hub\<lparr>subs := mkBcast, closed := {0}\<rparr>"

lemma reaches_asked_again: "(work (\<lambda>_. some_get))\<^sup>*\<^sup>* (one_sending other_cmd) asked_again"
proof -
  let ?w = "work (\<lambda>_. some_get)"
  let ?s1 = "go 0 (Receiving 0 1) (one_sending other_cmd)"
  let ?s2 = "go 0 (Holding 0 1 other_cmd) (?s1\<lparr>pb := Sending other_cmd []\<rparr>)"
  let ?s3 = "?s2\<lparr>pb := Acks 1, mu := False\<rparr>"
  let ?s4 = "go 0 (Unsubbing 0 Again) ?s3"
  let ?s5 = "go 0 (Acking Again) (?s4\<lparr>closed := {0}, subs := mkBcast\<rparr>)"
  let ?s6 = "go 0 Requesting (?s5\<lparr>pb := Acks 0\<rparr>)"
  note defs = one_sending_def one_waiting_def new_hub_def
  have 1: "?w (one_sending other_cmd) ?s1" by (rule work.enter) (simp_all add: defs)
  have 2: "?w ?s1 ?s2" by (rule work.send [where i = 0]) (simp_all add: defs)
  have 3: "?w ?s2 ?s3" using work.sent [of ?s2 other_cmd "\<lambda>_. some_get"] by (simp add: defs)
  have "request_msg some_get 1 other_cmd True undefined = Ret Rerequest"
    by (simp add: request_msg_def other_cmd_def some_get_def)
  then have 4: "?w ?s3 ?s4" using work.judge [of ?s3 0 0 1 other_cmd "\<lambda>_. some_get" True undefined Rerequest] by simp
  have "unsub 0 (closed ?s4, subs ?s4) = Ret ({0}, mkBcast)" by (simp add: unsub_def defs mkBcast_def)
  then have 5: "?w ?s4 ?s5" using work.unsubscribe [of ?s4 0 0 Again "{0}" mkBcast "\<lambda>_. some_get"] by simp
  have 6: "?w ?s5 ?s6" using work.ack [of ?s5 0 Again 0 "\<lambda>_. some_get"] by simp
  have 7: "?w ?s6 asked_again"
    using work.acked [of ?s6 "\<lambda>_. some_get"] by (simp add: asked_again_def defs fun_upd_idem)
  from 1 2 3 4 5 6 7 show ?thesis by (meson converse_rtranclp_into_rtranclp r_into_rtranclp)
qed

lemma calm_run_run: "calm_run args s \<Longrightarrow> run args s"
  by (induction rule: calm_run.induct) (auto intro: run.intros)

theorem rerequest_panics_witness: "\<exists>t. run (\<lambda>_. some_get) t \<and> panicked t"
proof -
  have "run (\<lambda>_. some_get) (one_sending other_cmd)" by (rule calm_run_run [OF calm_sending]) (simp add: other_cmd_def)
  moreover have "(hub_step (\<lambda>_. some_get))\<^sup>*\<^sup>* (one_sending other_cmd) asked_again"
    using reaches_asked_again by (rule rtranclp_mono [THEN predicate2D, rotated]) (auto simp: hub_step_def)
  ultimately have "run (\<lambda>_. some_get) asked_again" by (rule run_steps [rotated])
  from rerequest_panics [OF this] show ?thesis by (auto simp: asked_again_def asks_again_def new_hub_def)
qed

end
