(* ===== verification/Persister.thy ===== *)
theory Persister
  imports GoStd
begin

section \<open>The state file of a server: src/raft/persister.go\<close>

text \<open>
  A server saves its state as a file: it writes a temporary file and renames it. The calls of the
  operating system are a record of operations; the process may die inside any of them. What the
  code relies on of them is \<open>posix\<close>, stated of the files as the running system shows them. The
  consensus module (\<open>Raft\<close>) uses the abstract file \<open>persisted\<close>, which is replaced as a whole; that this
  is right is \<open>save_atomic\<close>.
\<close>

subsection \<open>The operating system\<close>

record 's osops =
  Getwd :: "('s, string \<times> goerr) io"
  TempFile :: "string \<Rightarrow> string \<Rightarrow> ('s, nat option \<times> goerr) io"
  FileWrite :: "nat \<Rightarrow> string \<Rightarrow> ('s, goerr) io"
  FileName :: "nat \<Rightarrow> ('s, string) io"
  Rename :: "string \<Rightarrow> string \<Rightarrow> ('s, goerr) io"
  FileSync :: "nat \<Rightarrow> ('s, unit) io"
  FileClose :: "nat \<Rightarrow> ('s, unit) io"
  OpenFile :: "string \<Rightarrow> ('s, nat option \<times> goerr) io"
  FileSize :: "nat \<Rightarrow> ('s, nat \<times> goerr) io"
  FileRead :: "nat \<Rightarrow> nat \<Rightarrow> ('s, string \<times> goerr) io"

subsection \<open>persister.go\<close>

definition raftStateFileName :: string where
  "raftStateFileName = ''persiststate''"

text \<open>
  Errors are only logged. A nil file, after a failed \<open>TempFile\<close>, cannot be written, and asking for its
  name panics.
\<close>

definition Persister_SaveRaftState :: "'s osops \<Rightarrow> string \<Rightarrow> ('s, unit) io" where
  "Persister_SaveRaftState os state =
     io_bind (Getwd os) (\<lambda>(wd, _).
     io_bind (TempFile os wd (''temp'' @ raftStateFileName)) (\<lambda>(ofile, _).
       case ofile of
         None \<Rightarrow> io_fatal ''nil pointer dereference''
       | Some f \<Rightarrow>
           io_bind (FileWrite os f state) (\<lambda>_.
           io_bind (FileName os f) (\<lambda>n.
           io_bind (Rename os n raftStateFileName) (\<lambda>_.
           io_bind (FileSync os f) (\<lambda>_. FileClose os f))))))"

text \<open>When the size or the content cannot be read, the error that is returned is nil all the same.\<close>

definition ReadFromDisk :: "'s osops \<Rightarrow> string \<Rightarrow> ('s, string \<times> goerr) io" where
  "ReadFromDisk os name =
     io_bind (OpenFile os name) (\<lambda>(f, openErr).
       case f of
         None \<Rightarrow> io_return ([], openErr)
       | Some h \<Rightarrow>
           io_bind (FileSize os h) (\<lambda>(n, infoErr).
             if infoErr \<noteq> None then io_return ([], None)
             else
               io_bind (FileRead os h n) (\<lambda>(d, readErr).
                 if readErr \<noteq> None then io_return (d @ replicate (n - length d) CHR 0x00, None)
                 else io_bind (FileClose os h) (\<lambda>_. io_return (d @ replicate (n - length d) CHR 0x00, None)))))"

definition Persister_ReadRaftState :: "'s osops \<Rightarrow> ('s, string option) io" where
  "Persister_ReadRaftState os =
     io_bind (ReadFromDisk os raftStateFileName) (\<lambda>(d, err). io_return (if err = None then Some d else None))"

definition Persister_RaftStateSize :: "'s osops \<Rightarrow> ('s, int) io" where
  "Persister_RaftStateSize os =
     io_bind (ReadFromDisk os raftStateFileName) (\<lambda>(d, err). io_return (if err = None then int (length d) else - 1))"

subsection \<open>What is relied on\<close>

text \<open>
  \<open>file s\<close> are the files by name, \<open>path s\<close> the names of the open ones. A call succeeds, or the process
  dies in it: before it has an effect, after it, or, for a write, in its midst.
\<close>

definition same_files :: "('s \<Rightarrow> string \<rightharpoonup> string) \<Rightarrow> 's \<Rightarrow> string \<Rightarrow> 's \<Rightarrow> bool" where
  "same_files file s = (\<lambda>_ s'. file s' = file s)"

definition temp_name :: "string \<Rightarrow> string \<Rightarrow> bool" where
  "temp_name pat t \<longleftrightarrow> (\<exists>d r. t = d @ ''/'' @ pat @ r)"

definition posix :: "'s osops \<Rightarrow> ('s \<Rightarrow> string \<rightharpoonup> string) \<Rightarrow> ('s \<Rightarrow> nat \<rightharpoonup> string) \<Rightarrow> bool" where
  "posix os file path \<longleftrightarrow>
     (\<forall>s. wp (Getwd os) (\<lambda>(wd, e) s'. e = None \<and> file s' = file s) (same_files file s) s) \<and>
     (\<forall>s d pat. wp (TempFile os d pat)
        (\<lambda>(f, e) s'. e = None \<and> (\<exists>h t. f = Some h \<and> temp_name pat t \<and> file s t = None \<and>
           file s' = (file s)(t \<mapsto> []) \<and> path s' h = Some t))
        (\<lambda>_ s'. file s' = file s \<or> (\<exists>t. temp_name pat t \<and> file s t = None \<and> file s' = (file s)(t \<mapsto> []))) s) \<and>
     (\<forall>s h t c d. path s h = Some t \<longrightarrow> file s t = Some c \<longrightarrow> wp (FileWrite os h d)
        (\<lambda>e s'. e = None \<and> file s' = (file s)(t \<mapsto> c @ d) \<and> path s' = path s)
        (\<lambda>_ s'. \<exists>k. file s' = (file s)(t \<mapsto> c @ take k d)) s) \<and>
     (\<forall>s h t. path s h = Some t \<longrightarrow> wp (FileName os h)
        (\<lambda>n s'. n = t \<and> file s' = file s \<and> path s' = path s) (same_files file s) s) \<and>
     (\<forall>s a b c. file s a = Some c \<longrightarrow> a \<noteq> b \<longrightarrow> wp (Rename os a b)
        (\<lambda>e s'. e = None \<and> file s' = (file s)(a := None, b \<mapsto> c))
        (\<lambda>_ s'. file s' = file s \<or> file s' = (file s)(a := None, b \<mapsto> c)) s) \<and>
     (\<forall>s h. wp (FileSync os h) (\<lambda>_ s'. file s' = file s) (same_files file s) s) \<and>
     (\<forall>s h. wp (FileClose os h) (\<lambda>_ s'. file s' = file s) (same_files file s) s) \<and>
     (\<forall>s n. wp (OpenFile os n)
        (\<lambda>(f, e) s'. file s' = file s \<and>
           (case file s n of None \<Rightarrow> f = None \<and> e \<noteq> None | Some c \<Rightarrow> (\<exists>h. f = Some h \<and> e = None \<and> path s' h = Some n)))
        (same_files file s) s) \<and>
     (\<forall>s h t c. path s h = Some t \<longrightarrow> file s t = Some c \<longrightarrow> wp (FileSize os h)
        (\<lambda>(n, e) s'. n = length c \<and> e = None \<and> file s' = file s \<and> path s' = path s) (same_files file s) s) \<and>
     (\<forall>s h t c n. path s h = Some t \<longrightarrow> file s t = Some c \<longrightarrow> wp (FileRead os h n)
        (\<lambda>(d, e) s'. d = take n c \<and> e = None \<and> file s' = file s) (same_files file s) s)"

lemma posixD:
  assumes "posix os file path"
  shows posix_Getwd: "wp (Getwd os) (\<lambda>(wd, e) s'. e = None \<and> file s' = file s) (same_files file s) s"
    and posix_TempFile: "wp (TempFile os d pat)
        (\<lambda>(f, e) s'. e = None \<and> (\<exists>h t. f = Some h \<and> temp_name pat t \<and> file s t = None \<and>
           file s' = (file s)(t \<mapsto> []) \<and> path s' h = Some t))
        (\<lambda>_ s'. file s' = file s \<or> (\<exists>t. temp_name pat t \<and> file s t = None \<and> file s' = (file s)(t \<mapsto> []))) s"
    and posix_FileWrite: "path s h = Some t \<Longrightarrow> file s t = Some c \<Longrightarrow> wp (FileWrite os h x)
        (\<lambda>e s'. e = None \<and> file s' = (file s)(t \<mapsto> c @ x) \<and> path s' = path s)
        (\<lambda>_ s'. \<exists>k. file s' = (file s)(t \<mapsto> c @ take k x)) s"
    and posix_FileName: "path s h = Some t \<Longrightarrow> wp (FileName os h)
        (\<lambda>n s'. n = t \<and> file s' = file s \<and> path s' = path s) (same_files file s) s"
    and posix_Rename: "file s a = Some c \<Longrightarrow> a \<noteq> b \<Longrightarrow> wp (Rename os a b)
        (\<lambda>e s'. e = None \<and> file s' = (file s)(a := None, b \<mapsto> c))
        (\<lambda>_ s'. file s' = file s \<or> file s' = (file s)(a := None, b \<mapsto> c)) s"
    and posix_FileSync: "wp (FileSync os h) (\<lambda>_ s'. file s' = file s) (same_files file s) s"
    and posix_FileClose: "wp (FileClose os h) (\<lambda>_ s'. file s' = file s) (same_files file s) s"
  using assms unfolding posix_def by simp_all

lemma posix_readD:
  assumes "posix os file path"
  shows posix_OpenFile: "wp (OpenFile os n)
        (\<lambda>(f, e) s'. file s' = file s \<and>
           (case file s n of None \<Rightarrow> f = None \<and> e \<noteq> None | Some c \<Rightarrow> (\<exists>h. f = Some h \<and> e = None \<and> path s' h = Some n)))
        (same_files file s) s"
    and posix_FileSize: "path s h = Some t \<Longrightarrow> file s t = Some c \<Longrightarrow> wp (FileSize os h)
        (\<lambda>(n, e) s'. n = length c \<and> e = None \<and> file s' = file s \<and> path s' = path s) (same_files file s) s"
    and posix_FileRead: "path s h = Some t \<Longrightarrow> file s t = Some c \<Longrightarrow> wp (FileRead os h k)
        (\<lambda>(d, e) s'. d = take k c \<and> e = None \<and> file s' = file s) (same_files file s) s"
  using assms unfolding posix_def by simp_all

subsection \<open>Saving replaces the state as a whole\<close>

text \<open>The state file is \<open>x\<close>, and no other file that was there has changed.\<close>

definition state_is :: "(string \<rightharpoonup> string) \<Rightarrow> string option \<Rightarrow> (string \<rightharpoonup> string) \<Rightarrow> bool" where
  "state_is F x G \<longleftrightarrow> G raftStateFileName = x \<and> (\<forall>n. n \<noteq> raftStateFileName \<longrightarrow> F n \<noteq> None \<longrightarrow> G n = F n)"

lemma temp_not_state: "temp_name pat t \<Longrightarrow> t \<noteq> raftStateFileName"
proof
  assume "temp_name pat t" "t = raftStateFileName"
  then obtain d r where "raftStateFileName = d @ ''/'' @ pat @ r" by (auto simp: temp_name_def)
  then have "CHR ''/'' \<in> set raftStateFileName" by (simp add: in_set_conv_decomp) blast
  then show False by (simp add: raftStateFileName_def)
qed

lemma state_is_temp:
  assumes "temp_name pat t" "F t = None"
  shows "state_is F (F raftStateFileName) (F(t \<mapsto> c))"
    and "state_is F (Some c) ((F(t \<mapsto> c))(t := None, raftStateFileName \<mapsto> c))"
  using temp_not_state [OF assms(1)] assms(2) by (auto simp: state_is_def)

lemma state_is_refl: "state_is F (F raftStateFileName) F"
  by (simp add: state_is_def)

lemma wp_after:
  assumes "wp m R D s" and "\<And>x s'. R x s' \<Longrightarrow> wp (f x) Q C s'" and "\<And>e s'. D e s' \<Longrightarrow> C e s'"
  shows "wp (io_bind m f) Q C s"
  unfolding wp_bind by (rule wp_mono [OF assms(1)]) (erule assms(2), erule assms(3))

definition finish_save :: "'s osops \<Rightarrow> nat \<Rightarrow> ('s, unit) io" where
  "finish_save os h = io_bind (FileName os h) (\<lambda>n.
     io_bind (Rename os n raftStateFileName) (\<lambda>_. io_bind (FileSync os h) (\<lambda>_. FileClose os h)))"

lemma wp_finish_save:
  assumes os: "posix os file path" and t: "temp_name pat t" "F t = None"
    and s: "file s = F(t \<mapsto> state)" "path s h = Some t"
    and C: "\<And>e s'. state_is F (F raftStateFileName) (file s') \<or> state_is F (Some state) (file s') \<Longrightarrow> C e s'"
    and Q: "\<And>s'. state_is F (Some state) (file s') \<Longrightarrow> Q () s'"
  shows "wp (finish_save os h) Q C s"
  unfolding finish_save_def
proof (rule wp_after [OF posix_FileName [OF os s(2)]])
  fix n s3 assume "n = t \<and> file s3 = file s \<and> path s3 = path s"
  then have n: "n = t" "file s3 = F(t \<mapsto> state)" using s by auto
  then have r: "file s3 n = Some state" "n \<noteq> raftStateFileName" using temp_not_state [OF t(1)] by simp_all
  show "wp (io_bind (Rename os n raftStateFileName) (\<lambda>_. io_bind (FileSync os h) (\<lambda>_. FileClose os h))) Q C s3"
  proof (rule wp_after [OF posix_Rename [OF os r]])
    fix e s4 assume "e = None \<and> file s4 = (file s3)(n := None, raftStateFileName \<mapsto> state)"
    then have s4: "state_is F (Some state) (file s4)" using state_is_temp(2) [where F = F, OF t] n by simp
    show "wp (io_bind (FileSync os h) (\<lambda>_. FileClose os h)) Q C s4"
      by (rule wp_after [OF posix_FileSync [OF os]], rule wp_mono [OF posix_FileClose [OF os]])
        (use s4 C Q in \<open>simp_all add: same_files_def\<close>)
  next
    fix e s4 assume "file s4 = file s3 \<or> file s4 = (file s3)(n := None, raftStateFileName \<mapsto> state)"
    then show "C e s4"
      using state_is_temp [where F = F and c = state, OF t] n by (intro C) (metis (no_types))
  qed
qed (use state_is_temp(1) [where F = F, OF t] s C in \<open>simp add: same_files_def\<close>)

lemma wp_write_temp:
  assumes os: "posix os file path" and s0: "file s0 = F"
    and C: "\<And>e s'. state_is F (F raftStateFileName) (file s') \<or> state_is F (Some state) (file s') \<Longrightarrow> C e s'"
    and Q: "\<And>s'. state_is F (Some state) (file s') \<Longrightarrow> Q () s'"
  shows "wp (io_bind (TempFile os wd pat) (\<lambda>(ofile, _).
       case ofile of None \<Rightarrow> io_fatal ''nil pointer dereference''
       | Some f \<Rightarrow> io_bind (FileWrite os f state) (\<lambda>_. finish_save os f))) Q C s0"
proof (rule wp_after [OF posix_TempFile [OF os]])
  fix r :: "nat option \<times> goerr" and s1
  assume "(case r of (f, e) \<Rightarrow> \<lambda>s'. e = None \<and> (\<exists>h t. f = Some h \<and> temp_name pat t \<and> file s0 t = None \<and>
    file s' = (file s0)(t \<mapsto> []) \<and> path s' h = Some t)) s1"
  then obtain h t where r: "r = (Some h, None)" and t: "temp_name pat t" "F t = None"
    and s1: "file s1 = F(t \<mapsto> [])" "path s1 h = Some t" by (auto simp: s0)
  have w: "file s1 t = Some []" using s1 by simp
  have "wp (io_bind (FileWrite os h state) (\<lambda>_. finish_save os h)) Q C s1"
  proof (rule wp_after [OF posix_FileWrite [OF os s1(2) w]])
    fix e s2 assume "e = None \<and> file s2 = (file s1)(t \<mapsto> [] @ state) \<and> path s2 = path s1"
    then have "file s2 = F(t \<mapsto> state)" "path s2 h = Some t" using s1 by simp_all
    then show "wp (finish_save os h) Q C s2"
      by (rule wp_finish_save [where F = F, OF os t]) (use C Q in blast)+
  next
    fix e s2 assume "\<exists>k. file s2 = (file s1)(t \<mapsto> [] @ take k state)"
    then obtain k where "file s2 = F(t \<mapsto> take k state)" using s1 by auto
    with state_is_temp(1) [where F = F, OF t] show "C e s2" by (intro C) simp
  qed
  then show "wp (case r of (ofile, _) \<Rightarrow> case ofile of None \<Rightarrow> io_fatal ''nil pointer dereference''
       | Some f \<Rightarrow> io_bind (FileWrite os f state) (\<lambda>_. finish_save os f)) Q C s1" by (simp add: r)
next
  fix e s1 assume "file s1 = file s0 \<or> (\<exists>t. temp_name pat t \<and> file s0 t = None \<and> file s1 = (file s0)(t \<mapsto> []))"
  then show "C e s1" using state_is_temp(1) [where F = F] state_is_refl [of F] s0 by (intro C) auto
qed

lemma wp_save:
  assumes os: "posix os file path"
    and C: "\<And>e s'. state_is (file s) (file s raftStateFileName) (file s') \<or> state_is (file s) (Some state) (file s') \<Longrightarrow> C e s'"
    and Q: "\<And>s'. state_is (file s) (Some state) (file s') \<Longrightarrow> Q () s'"
  shows "wp (Persister_SaveRaftState os state) Q C s"
  unfolding Persister_SaveRaftState_def finish_save_def [symmetric]
  by (rule wp_after [OF posix_Getwd [OF os]])
    (use C state_is_refl in \<open>auto simp: same_files_def intro!: wp_write_temp [where F = "file s", OF os] Q\<close>)

lemma wp_read_open:
  assumes os: "posix os file path" and h: "path s1 h = Some n" "file s1 n = Some c"
    and C: "\<And>e s'. file s' = file s1 \<Longrightarrow> C e s'" and Q: "\<And>s'. file s' = file s1 \<Longrightarrow> Q (c, None) s'"
  shows "wp (io_bind (FileSize os h) (\<lambda>(n, infoErr).
      if infoErr \<noteq> None then io_return ([], None)
      else io_bind (FileRead os h n) (\<lambda>(d, readErr).
        if readErr \<noteq> None then io_return (d @ replicate (n - length d) CHR 0x00, None)
        else io_bind (FileClose os h) (\<lambda>_. io_return (d @ replicate (n - length d) CHR 0x00, None))))) Q C s1"
proof -
  have close: "wp (io_bind (FileClose os h) (\<lambda>_. io_return (c, None))) Q C s3" if "file s3 = file s1" for s3
    by (rule wp_after [OF posix_FileClose [OF os]]) (use that C Q in \<open>auto simp: same_files_def\<close>)
  have read: "wp (io_bind (FileRead os h (length c)) (\<lambda>(d, readErr).
      if readErr \<noteq> None then io_return (d @ replicate (length c - length d) CHR 0x00, None)
      else io_bind (FileClose os h) (\<lambda>_. io_return (d @ replicate (length c - length d) CHR 0x00, None)))) Q C s2"
    if s2: "file s2 = file s1" "path s2 = path s1" for s2
  proof -
    have p: "path s2 h = Some n" "file s2 n = Some c" using s2 h by simp_all
    show ?thesis by (rule wp_after [OF posix_FileRead [OF os p]]) (use s2(1) close C in \<open>auto simp: same_files_def\<close>)
  qed
  show ?thesis by (rule wp_after [OF posix_FileSize [OF os h]]) (use read C in \<open>auto simp: same_files_def\<close>)
qed

lemma wp_ReadFromDisk:
  assumes os: "posix os file path"
    and C: "\<And>e s'. file s' = file s \<Longrightarrow> C e s'"
    and Q: "\<And>r s'. file s' = file s \<Longrightarrow> (case file s n of None \<Rightarrow> snd r \<noteq> None | Some c \<Rightarrow> r = (c, None)) \<Longrightarrow> Q r s'"
  shows "wp (ReadFromDisk os n) Q C s"
  unfolding ReadFromDisk_def
proof (rule wp_after [OF posix_OpenFile [OF os]])
  fix r :: "nat option \<times> goerr" and s1
  assume a: "(case r of (f, e) \<Rightarrow> \<lambda>s'. file s' = file s \<and>
      (case file s n of None \<Rightarrow> f = None \<and> e \<noteq> None | Some c \<Rightarrow> (\<exists>h. f = Some h \<and> e = None \<and> path s' h = Some n))) s1"
  obtain f openErr where r: "r = (f, openErr)" by (cases r)
  with a have s1: "file s1 = file s" and fe: "case file s n of None \<Rightarrow> f = None \<and> openErr \<noteq> None
      | Some c \<Rightarrow> (\<exists>h. f = Some h \<and> openErr = None \<and> path s1 h = Some n)" by simp_all
  show "wp (case r of (f, openErr) \<Rightarrow> case f of None \<Rightarrow> io_return ([], openErr) | Some h \<Rightarrow> io_bind (FileSize os h) (\<lambda>(n, infoErr).
      if infoErr \<noteq> None then io_return ([], None)
      else io_bind (FileRead os h n) (\<lambda>(d, readErr).
        if readErr \<noteq> None then io_return (d @ replicate (n - length d) CHR 0x00, None)
        else io_bind (FileClose os h) (\<lambda>_. io_return (d @ replicate (n - length d) CHR 0x00, None))))) Q C s1"
  proof (cases "file s n")
    case None
    with fe s1 r show ?thesis by (auto intro!: Q)
  next
    case (Some c)
    with fe s1 obtain h where h: "f = Some h" "path s1 h = Some n" "file s1 n = Some c" by auto
    show ?thesis
      unfolding r h prod.case option.case by (rule wp_read_open [OF os h(2,3)]) (use s1 C Q Some in auto)
  qed
qed (use C in \<open>auto simp: same_files_def\<close>)

lemma wp_ReadRaftState:
  assumes "posix os file path"
  shows "wp (Persister_ReadRaftState os) (\<lambda>r s'. r = file s raftStateFileName \<and> file s' = file s) (\<lambda>_ s'. file s' = file s) s"
  unfolding Persister_ReadRaftState_def wp_bind
  by (rule wp_ReadFromDisk [OF assms]) (auto split: option.splits)


subsection \<open>A system like this\<close>

text \<open>
  Files by name, the names of the open files by number, and the number of calls until the process
  dies.
\<close>

record unix =
  u_file :: "(string \<times> string) list"
  u_path :: "nat \<rightharpoonup> string"
  u_next :: nat
  u_left :: nat

definition sys :: "(unix \<Rightarrow> 'a \<times> unix) \<Rightarrow> (unix, 'a) io" where
  "sys f s = (if u_left s = 0 then Some (Fatal ''killed'', s)
     else (case f (s\<lparr>u_left := u_left s - 1\<rparr>) of (r, s') \<Rightarrow> Some (Ret r, s')))"

lemma wp_sys: "wp (sys f) Q C s \<longleftrightarrow>
    (if u_left s = 0 then C ''killed'' s else (case f (s\<lparr>u_left := u_left s - 1\<rparr>) of (r, s') \<Rightarrow> Q r s'))"
  by (simp add: wp_def sys_def split: prod.splits)

text \<open>A name that is longer than all those in use.\<close>

definition temp_path :: "string \<Rightarrow> string \<Rightarrow> unix \<Rightarrow> string" where
  "temp_path d pat s = d @ ''/'' @ pat @ replicate (sum_list (map (length \<circ> fst) (u_file s))) CHR ''0''"

lemma temp_path_new: "map_of (u_file s) (temp_path d pat s) = None"
proof -
  have "length n < length (temp_path d pat s)" if "n \<in> fst ` set (u_file s)" for n
  proof -
    have "length n \<in> set (map (length \<circ> fst) (u_file s))" using that by auto
    from member_le_sum_list [OF this] show ?thesis by (simp add: temp_path_def)
  qed
  then show ?thesis unfolding map_of_eq_None_iff by fastforce
qed

definition unix_os :: "unix osops" where
  "unix_os = \<lparr>
     Getwd = sys (\<lambda>s. ((''/srv'', None), s)),
     TempFile = (\<lambda>d pat. sys (\<lambda>s. let t = temp_path d pat s in
       ((Some (u_next s), None),
         s\<lparr>u_file := (t, []) # u_file s, u_path := (u_path s)(u_next s \<mapsto> t), u_next := u_next s + 1\<rparr>))),
     FileWrite = (\<lambda>h x. sys (\<lambda>s. case u_path s h of
         None \<Rightarrow> (Some ''file already closed'', s)
       | Some t \<Rightarrow> (None, s\<lparr>u_file := (t, (case map_of (u_file s) t of None \<Rightarrow> [] | Some c \<Rightarrow> c) @ x) # u_file s\<rparr>))),
     FileName = (\<lambda>h. sys (\<lambda>s. (case u_path s h of None \<Rightarrow> [] | Some t \<Rightarrow> t, s))),
     Rename = (\<lambda>a b. sys (\<lambda>s. case map_of (u_file s) a of
         None \<Rightarrow> (Some ''no such file'', s)
       | Some c \<Rightarrow> (None, s\<lparr>u_file := (b, c) # filter (\<lambda>p. fst p \<noteq> a) (u_file s)\<rparr>))),
     FileSync = (\<lambda>h. sys (\<lambda>s. ((), s))),
     FileClose = (\<lambda>h. sys (\<lambda>s. ((), s))),
     OpenFile = (\<lambda>n. sys (\<lambda>s. case map_of (u_file s) n of
         None \<Rightarrow> ((None, Some ''no such file''), s)
       | Some c \<Rightarrow> ((Some (u_next s), None), s\<lparr>u_path := (u_path s)(u_next s \<mapsto> n), u_next := u_next s + 1\<rparr>))),
     FileSize = (\<lambda>h. sys (\<lambda>s. case Option.bind (u_path s h) (map_of (u_file s)) of
         None \<Rightarrow> ((0, Some ''file already closed''), s) | Some c \<Rightarrow> ((length c, None), s))),
     FileRead = (\<lambda>h n. sys (\<lambda>s. case Option.bind (u_path s h) (map_of (u_file s)) of
         None \<Rightarrow> (([], Some ''file already closed''), s) | Some c \<Rightarrow> ((take n c, None), s)))\<rparr>"

lemma map_of_without: "map_of (filter (\<lambda>p. fst p \<noteq> a) xs) = (map_of xs)(a := None)"
  by (induction xs) auto

lemma unix_posix: "posix unix_os (\<lambda>s. map_of (u_file s)) u_path"
proof -
  have name: "temp_name pat (temp_path d pat s)" for d pat s by (auto simp: temp_name_def temp_path_def)
  have left: "temp_path d pat (s\<lparr>u_left := k\<rparr>) = temp_path d pat s" for d pat s k by (simp add: temp_path_def)
  have part: "\<exists>k. map_of (u_file s) = (map_of (u_file s))(t \<mapsto> c @ take k x)" if "map_of (u_file s) t = Some c" for s t c x
    using that by (intro exI [of _ 0]) (simp add: fun_upd_idem)
  show ?thesis
    unfolding posix_def
  proof (intro conjI allI impI)
    fix s :: unix and h t c n
    assume "u_path s h = Some t" "map_of (u_file s) t = Some c"
    then show "wp (FileSize unix_os h) (\<lambda>(n, e) s'. n = length c \<and> e = None \<and> map_of (u_file s') = map_of (u_file s) \<and> u_path s' = u_path s)
        (same_files (\<lambda>s. map_of (u_file s)) s) s"
      and "wp (FileRead unix_os h n) (\<lambda>(d, e) s'. d = take n c \<and> e = None \<and> map_of (u_file s') = map_of (u_file s))
        (same_files (\<lambda>s. map_of (u_file s)) s) s"
      by (simp_all add: unix_os_def wp_sys same_files_def)
  qed (use temp_path_new name part in \<open>auto simp: unix_os_def wp_sys same_files_def left map_of_without Let_def split: option.splits\<close>)
qed


end
