(* ===== verification/Raft_Disk.thy ===== *)
theory Raft_Disk
  imports Persister Raft_Inv Codec
begin

section \<open>A server dies while it saves its state\<close>

text \<open>
  The consensus module (\<open>Raft\<close>) writes its state as a list of encoded values; \<open>Persister\<close> writes bytes to
  a file. With an encoding of the one as the other, the two together: a server that dies anywhere in
  \<open>persist\<close> comes up again with the state it had before, or with the one it was saving.
\<close>

definition file_of :: "('c gob list \<Rightarrow> string) \<Rightarrow> 'c Raft \<Rightarrow> string option" where
  "file_of encode rf = map_option encode (persisted rf)"

text \<open>\<open>Make\<close> on what \<open>ReadRaftState\<close> returned.\<close>

definition restarted :: "(string \<Rightarrow> 'c gob list) \<Rightarrow> int \<Rightarrow> nat \<Rightarrow> string option \<Rightarrow> 'c Raft outcome" where
  "restarted decode i n d = Make i n (map_option decode d)"

definition comes_back_as :: "'c Raft outcome \<Rightarrow> 'c Raft \<Rightarrow> bool" where
  "comes_back_as r rf \<longleftrightarrow> returns r (\<lambda>rf'. term rf' = term rf \<and> votedFor rf' = votedFor rf \<and> log rf' = log rf \<and>
     snapshot rf' = snapshot rf \<and> snapshotIndex rf' = snapshotIndex rf \<and> st rf' = follower \<and> raft_ok rf')"

lemma restarted_from_file:
  assumes "raft_ok rf" "\<forall>x. decode (encode x) = x"
  shows "comes_back_as (restarted decode i n (file_of encode rf)) rf"
proof -
  have "map_option decode (file_of encode rf) = persisted rf"
    using assms(2) by (cases "persisted rf") (simp_all add: file_of_def)
  then show ?thesis
    using Make_restores [OF assms(1), of i n] by (auto simp: comes_back_as_def restarted_def elim!: returns_mono)
qed


subsection \<open>An example\<close>

text \<open>An encoding of the state of a server whose commands are numbers.\<close>

definition flat_gob :: "nat gob \<Rightarrow> nat \<times> int \<times> (int \<times> nat option) list \<times> string" where
  "flat_gob g =
     (case g of
        GInt i \<Rightarrow> (0, i, [], [])
      | GLog es \<Rightarrow> (1, 0, map (\<lambda>e. (Term e, Cmd e)) es, [])
      | GBytes b \<Rightarrow> (2, 0, [], b))"

definition unflat_gob :: "nat \<times> int \<times> (int \<times> nat option) list \<times> string \<Rightarrow> nat gob" where
  "unflat_gob = (\<lambda>(k, i, es, b).
     if k = 0 then GInt i else if k = 1 then GLog (map (\<lambda>(t, c). \<lparr>Term = t, Cmd = c\<rparr>) es) else GBytes b)"

definition gob_bytes :: "nat gob list \<Rightarrow> string" where
  "gob_bytes gs = unary (map flat_gob gs)"

definition bytes_gob :: "string \<Rightarrow> nat gob list" where
  "bytes_gob s = map unflat_gob (the (from_unary s))"

lemma bytes_gob_bytes: "bytes_gob (gob_bytes gs) = gs"
proof -
  have "unflat_gob (flat_gob g) = g" for g
    by (cases g) (simp_all add: flat_gob_def unflat_gob_def o_def map_idI)
  then show ?thesis by (simp add: bytes_gob_def gob_bytes_def unary_def from_unary_def map_idI)
qed

text \<open>A server that has voted for itself in its first term, before its first save.\<close>

definition voting :: "nat Raft" where
  "voting = \<lparr>me = 1, npeers = 3, persisted = None, term = 1, votedFor = 1, st = candidate, ts = 0,
     log = [Some \<lparr>Term = 0, Cmd = None\<rparr>], commitIdx = 0, appliedIdx = 0, disam = [],
     nextForServer = [], atServer = [], msgFlag = False, snapshot = [], snapshotIndex = 0\<rparr>"


end
