(* ===== verification/Spec2Isabelle.thy ===== *)
theory Spec2Isabelle
  imports KvJrnl Boot Raft_Commit Fs_Errors Cli_Txn Inode_Codec Publish Raft_Disk
begin

text \<open>
  \<^bold>\<open>The program.\<close> pp2 is a file system on a replicated key-value service, in Go. Three servers run
  consensus (\<open>src/raft\<close>) under a key-value store whose keys carry leased locks (\<open>src/kvraft\<close>).
  Client machines use the store as a disk of numbered blocks (\<open>src/bio\<close>), with a redo log for
  transactions over many blocks (\<open>src/jrnl\<close>), a block allocator (\<open>src/balloc\<close>), inodes (\<open>src/inode\<close>)
  and a flat directory of files (\<open>src/fs\<close>). A name server tells the machines who is who
  (\<open>src/netdrv\<close>), \<open>src/labgob\<close> wraps the encoder of the standard library, and \<open>src/main.go\<close> gives a
  machine its role and a client its command line.

  \<^bold>\<open>How it is modelled.\<close> A Go struct is a record, an enumeration a datatype, \<open>uint\<close> a word of 64 bits
  that wraps around, \<open>int\<close> an integer except where its width matters. A function that can panic or
  end the process gives an \<open>outcome\<close> (\<open>Ret\<close> or \<open>Fatal\<close>); one that also changes state or may never
  return is an \<open>io\<close>: a function of the state whose result is an option, \<open>None\<close> for a call that does
  not return. Loops that may not end (\<open>goto retry\<close>) are \<^theory_text>\<open>partial_function (option)\<close>, so that a
  theorem that something returns is a theorem, proved with the total-correctness predicate \<open>wp\<close>. No
  fuel is used. Clock, random numbers, network, operating system and \<open>encoding/gob\<close> are arguments;
  what is relied on of them is a named hypothesis, shown to hold of a concrete instance by the
  witness of each theorem. Goroutines are interleaved steps between the points where they take and
  release a mutex or meet on a channel. Lines printed for debugging are left out.

  \<^bold>\<open>The theories\<close>, from the bottom:

  \<^item> \<open>Prelude\<close>, \<open>GoStd\<close>: outcomes, \<open>io\<close>, \<open>wp\<close> and its rules; what is used of \<open>strconv\<close>, \<open>strings\<close>, \<open>fmt\<close>
    and UTF-8, with the round trips of numbers.
  \<^item> \<open>Bio\<close> (\<open>bio.go\<close>, \<open>dsk.go\<close>): blocks over the interface \<open>Disk\<close>. The locale \<open>block_store\<close> is the contract
    of a disk that everything above rests on; it is interpreted by \<open>MockDisk\<close> (\<open>mock\<close>), by a mock disk
    whose client may die before any operation (\<open>mock_crash\<close>), and in \<open>Clerk\<close> by the clerk of the
    key-value service over a lossy network (\<open>clerk\<close>).
  \<^item> \<open>Jrnl\<close> (\<open>src/jrnl\<close>, all files), \<open>Jrnl_Replay\<close>, \<open>Jrnl_Txn\<close>, \<open>Jrnl_Atomic\<close>, \<open>Jrnl_Spec\<close>, \<open>Jrnl_Client\<close>: the
    definitions; what a log stands for; the rule of every operation with the blocks at every point
    where the client may stop; one transaction, all or nothing; the abstract group-commit journal,
    the refinement to it and recovery after any history; the rules the layers above use.
  \<^item> \<open>Balloc\<close>, \<open>Inode\<close>, \<open>Inode_Write\<close>, \<open>Inode_File\<close>, \<open>Inode_Codec\<close>: allocator, inodes, what \<open>Writei\<close> logs, what a
    file is on disk, and \<open>encode.go\<close> over \<open>Labgob\<close>.
  \<^item> \<open>Fs\<close> (\<open>fs.go\<close>), \<open>Fs_Dir\<close>, \<open>Fs_Run\<close>, \<open>Fs_Errors\<close>: the file system, its invariant \<open>fs_ok\<close> (no block shared,
    bitmap exact), the directory, the specification \<open>afs\<close> of files and descriptors, the refinement of
    sessions and the atomicity of calls, and the boundary cases.
  \<^item> \<open>Cli\<close>, \<open>Cli_Txn\<close> (\<open>main.go\<close>): the commands, their checks, the loop and the start of a client; what a
    user reads is what the specification returns; the commands that work on a transaction.
  \<^item> \<open>Kv\<close>, \<open>KvServer\<close>, \<open>Publish\<close>, \<open>Clerk\<close>, \<open>KvReplica\<close>, \<open>KvJrnl\<close> (\<open>src/kvraft\<close>): the state machine with its
    leases and the abstract store; applying, retries, snapshots and requests; the publication to
    the waiting requests as a step relation; the clerk; a replica through deliveries, snapshots,
    crashes and restarts; the journal on top of the service.
  \<^item> \<open>Raft\<close>, \<open>Raft_Inv\<close>, \<open>Raft_Election\<close>, \<open>Raft_Commit\<close>, \<open>Persister\<close>, \<open>Raft_Disk\<close> (\<open>src/raft\<close>): every function on a server's
    state; the shape of the log and restarts; a cluster with the locale \<open>quorum_system\<close> and the proof
    of one leader per term; when a leader commits; the state file over the operating system, and a
    server that dies while it writes it.
  \<^item> \<open>Netdrv\<close>, \<open>Labgob\<close>, \<open>Codec\<close>, \<open>Boot\<close>: name server and configuration; the two checks of \<open>labgob\<close>; codecs
    for values stored through gob; the start of a server machine, the connections to its
    peers and the delivery of messages in order.

  \<^bold>\<open>What is shown.\<close> The client side, bottom to top: the journal refines group commit and is
  crash-consistent, the file system refines files and descriptors and its calls are atomic, the
  command line prints what the specification returns. The server side: one leader per term, votes,
  log matching at a follower and commitment at a leader, restarts; commands refine the leased store,
  leases protect their holders, retried commands are applied once, replicas hold a prefix of the log,
  publication has no deadlock, the clerk's requests come to an end and take effect exactly once.
  Both meet in \<open>KvJrnl\<close>. The properties of kind error are the places where the code does not do this:
  each is a theorem about the definitions that shows the failure.

  \<^bold>\<open>Bounds.\<close> Sizes are those of the source: 1000 log segments of 100 blocks, 4096 data blocks, 16384
  inodes of 511 blocks. Theorems assume what these leave room for (\<open>fits\<close>, \<open>can_write\<close>, \<open>room\<close>), and the
  cases beyond are theorems of \<open>Fs_Errors\<close> and \<open>Balloc\<close>.

  \<^bold>\<open>Not modelled.\<close> Sockets, \<open>net/rpc\<close> and \<open>net/http\<close> (the registration of handlers, \<open>http.Serve\<close>, the UDP
  trick of \<open>getMyIp\<close>): they are operations of the network records. The bytes of \<open>encoding/gob\<close>. The
  tests. That the logs of different servers agree (state machine safety) is not a theorem: the
  theorems of \<open>Raft_Commit\<close> show that the code does not keep it, so the committed log is a parameter
  of \<open>KvReplica\<close>. Loss of power, where cached file contents are lost, is outside \<open>Persister\<close>.
\<close>

end
